(* ===== verification/Xv6_Prelude.thy ===== *)
theory Xv6_Prelude
  imports Main "HOL-Library.Word"
begin

unbundle bit_operations_syntax

text \<open>
  Shared vocabulary of the xv6 development: the machine types of \<^verbatim>\<open>types.h\<close>, the limits of
  \<^verbatim>\<open>param.h\<close>, the outcome of a kernel operation (a value, a panic, a switch to the
  scheduler or a memory fault) with its sequencing combinators, byte buffers with their little-endian
  fields, and byte-addressed memory.
\<close>

named_theorems kop_simps \<open>evaluation of sequenced kernel operations\<close>
named_theorems buf_simps \<open>reading and writing fields of byte buffers\<close>

section \<open>Machine types and limits\<close>

type_synonym u8 = "8 word"
type_synonym u16 = "16 word"
type_synonym u32 = "32 word"
type_synonym bytes = "u8 list"
type_synonym mem = "u32 \<Rightarrow> u8"

text \<open>A C \<^verbatim>\<open>int\<close> kept as a number: what an addition that wraps around leaves in its 32 bits.\<close>

definition wrap32 :: "int \<Rightarrow> int" where
  "wrap32 x = (x + 2 ^ 31) mod 2 ^ 32 - 2 ^ 31"

lemma wrap32_id: "- (2 ^ 31) \<le> x \<Longrightarrow> x < 2 ^ 31 \<Longrightarrow> wrap32 x = x"
  by (simp add: wrap32_def)

lemma wrap32_sint: "wrap32 x = sint (word_of_int x :: u32)"
  by (simp add: wrap32_def sint_sbintrunc' signed_take_bit_eq_take_bit_shift take_bit_eq_mod)

definition NPROC :: nat where "NPROC = 64"
definition KSTACKSIZE :: nat where [simp]: "KSTACKSIZE = 4096"
definition NOFILE :: nat where "NOFILE = 16"
definition NFILE :: nat where "NFILE = 100"
definition NINODE :: nat where "NINODE = 50"
definition NDEV :: nat where "NDEV = 10"
definition ROOTDEV :: u32 where [simp]: "ROOTDEV = 1"
definition MAXOPBLOCKS :: nat where "MAXOPBLOCKS = 10"
definition LOGSIZE :: nat where "LOGSIZE = MAXOPBLOCKS * 3"
definition NBUF :: nat where "NBUF = MAXOPBLOCKS * 3"
definition FSSIZE :: nat where "FSSIZE = 1000"
definition BSIZE :: nat where "BSIZE = 512"

text \<open>\<^verbatim>\<open>fcntl.h\<close>: the modes of \<^verbatim>\<open>open\<close>.\<close>

definition O_RDONLY :: u32 where "O_RDONLY = 0"
definition O_WRONLY :: u32 where "O_WRONLY = 1"
definition O_RDWR :: u32 where "O_RDWR = 2"
definition O_CREATE :: u32 where "O_CREATE = 0x200"

text \<open>\<^verbatim>\<open>traps.h\<close>: the vectors of the hardware interrupts.\<close>

definition T_IRQ0 :: nat where "T_IRQ0 = 32"
definition IRQ_TIMER :: nat where "IRQ_TIMER = 0"
definition IRQ_KBD :: nat where "IRQ_KBD = 1"
definition IRQ_COM1 :: nat where "IRQ_COM1 = 4"
definition IRQ_IDE :: nat where "IRQ_IDE = 14"
definition IRQ_ERROR :: nat where "IRQ_ERROR = 19"
definition IRQ_SPURIOUS :: nat where "IRQ_SPURIOUS = 31"

text \<open>\<^verbatim>\<open>memlayout.h\<close>: the kernel's half of the address space and its image of physical memory.\<close>

definition EXTMEM :: u32 where "EXTMEM = 0x100000"
definition PHYSTOP :: u32 where "PHYSTOP = 0xE000000"
definition DEVSPACE :: u32 where "DEVSPACE = 0xFE000000"
definition KERNBASE :: u32 where "KERNBASE = 0x80000000"
definition KERNLINK :: u32 where "KERNLINK = KERNBASE + EXTMEM"

definition v2p :: "u32 \<Rightarrow> u32" where "v2p a = a - KERNBASE"
definition p2v :: "u32 \<Rightarrow> u32" where "p2v a = a + KERNBASE"

lemma v2p_p2v [simp]: "v2p (p2v a) = a" "p2v (v2p a) = a"
  by (simp_all add: v2p_def p2v_def)

lemma unat_less_u32: "unat (x :: u32) < 2 ^ 32"
  using unsigned_less [of x] by simp

lemma sint_u32: "sint (x :: u32) = (if unat x < 2 ^ 31 then int (unat x) else int (unat x) - 2 ^ 32)"
proof -
  define n where "n = unat x"
  have n: "n < 4294967296" using unat_less_u32 [of x] by (simp add: n_def)
  have "sint x = take_bit 32 (uint x + 2147483648) - 2147483648"
    by (simp add: sint_uint signed_take_bit_eq_take_bit_shift)
  then have s: "sint x = (int n + 2147483648) mod 2 ^ 32 - 2147483648" by (simp only: take_bit_eq_mod uint_nat n_def)
  have "(int n + 2147483648) mod 2 ^ 32 = (if n < 2147483648 then int n + 2147483648 else int n - 2147483648)"
  proof (cases "n < 2147483648")
    case True
    then show ?thesis by simp
  next
    case False
    have "(int n + 2147483648) mod 4294967296 = (int n - 2147483648) mod 4294967296"
      using mod_add_self2 [of "int n - 2147483648" 4294967296] by (simp add: add.commute)
    with False n show ?thesis by simp
  qed
  then show ?thesis unfolding n_def [symmetric] using s by simp
qed
lemma unat_minus_1 [simp]: "unat (- 1 :: u32) = 2 ^ 32 - 1"
  by (simp add: unsigned_minus_1_eq_mask mask_eq_exp_minus_1)

lemma unat_take_bit: "unat (take_bit n (a :: u32)) = unat a mod 2 ^ n"
  by (simp only: unsigned_take_bit_eq) (simp only: take_bit_eq_mod)

lemma unat_drop_bit: "unat (drop_bit n (a :: u32)) = unat a div 2 ^ n"
proof -
  have "unat (drop_bit n a) = drop_bit n (take_bit 32 (unat a))"
    by (simp add: unsigned_drop_bit_eq)
  moreover have "take_bit 32 (unat a) = unat a"
    by (rule take_bit_nat_eq_self) (rule unat_less_u32)
  ultimately show ?thesis by (simp only: drop_bit_eq_div)
qed

lemma unat_plus_if:
  "unat (a + b :: u32) = (if unat a + unat b < 2 ^ 32 then unat a + unat b else unat a + unat b - 2 ^ 32)"
  using unat_less_u32 [of a] unat_less_u32 [of b] by (simp add: unat_word_ariths take_bit_eq_mod mod_if)

section \<open>Outcomes of kernel operations\<close>

text \<open>
  What a C function of the kernel does when it is called: it returns a value in a new
  state, it calls \<^verbatim>\<open>panic\<close> with a message, the calling process gives up the CPU in
  \<^verbatim>\<open>sched\<close> (because it sleeps, yields or exits), or it accesses memory outside every object.
\<close>

datatype ('s, 'a) outcome =
    Done (result: 'a) (final: 's)
  | Panicked (message: string)
  | Switched (switched: 's)
  | Fault

type_synonym ('s, 'a) kop = "'s \<Rightarrow> ('s, 'a) outcome"

definition ret :: "'a \<Rightarrow> ('s, 'a) kop" where
  "ret x s = Done x s"

definition bd :: "('s, 'a) kop \<Rightarrow> ('a \<Rightarrow> ('s, 'b) kop) \<Rightarrow> ('s, 'b) kop" where
  "bd m k s = (case m s of
     Done x t \<Rightarrow> k x t
   | Panicked e \<Rightarrow> Panicked e
   | Switched t \<Rightarrow> Switched t
   | Fault \<Rightarrow> Fault)"

definition panic :: "string \<Rightarrow> ('s, 'a) kop" where
  "panic e s = Panicked e"

definition gets :: "('s \<Rightarrow> 'a) \<Rightarrow> ('s, 'a) kop" where
  "gets f s = Done (f s) s"

definition modify :: "('s \<Rightarrow> 's) \<Rightarrow> ('s, unit) kop" where
  "modify f s = Done () (f s)"

definition whenk :: "bool \<Rightarrow> ('s, unit) kop \<Rightarrow> ('s, unit) kop" where
  "whenk b m = (if b then m else ret ())"

text \<open>A counted loop: the body for each element of the list, in order.\<close>

fun foreach :: "'x list \<Rightarrow> ('x \<Rightarrow> ('s, unit) kop) \<Rightarrow> ('s, unit) kop" where
  "foreach [] f = ret ()"
| "foreach (x # xs) f = bd (f x) (\<lambda>_. foreach xs f)"

lemma ret_run [kop_simps, simp]: "ret x s = Done x s"
  by (simp add: ret_def)

lemma panic_run [kop_simps, simp]: "panic e s = Panicked e"
  by (simp add: panic_def)

lemma gets_run [kop_simps, simp]: "gets f s = Done (f s) s"
  by (simp add: gets_def)

lemma modify_run [kop_simps, simp]: "modify f s = Done () (f s)"
  by (simp add: modify_def)

lemma whenk_run [kop_simps, simp]: "whenk b m s = (if b then m s else Done () s)"
  by (simp add: whenk_def)

text \<open>
  Forward evaluation unfolds a sequence once its first operation is known; backward
  decomposition of a completed sequence goes by \<open>bd_eq_Done\<close>.
\<close>

lemma bd_run [kop_simps]: "bd m k s = (case m s of
     Done x t \<Rightarrow> k x t
   | Panicked e \<Rightarrow> Panicked e
   | Switched t \<Rightarrow> Switched t
   | Fault \<Rightarrow> Fault)"
  by (simp add: bd_def)

lemma bd_Done: "m s = Done x t \<Longrightarrow> bd m k s = k x t"
  by (simp add: bd_def)

lemma bd_Panicked: "m s = Panicked e \<Longrightarrow> bd m k s = Panicked e"
  by (simp add: bd_def)

lemma bd_Switched: "m s = Switched t \<Longrightarrow> bd m k s = Switched t"
  by (simp add: bd_def)

lemma bd_Fault: "m s = Fault \<Longrightarrow> bd m k s = Fault"
  by (simp add: bd_def)

lemma bd_eq_Done: "bd m k s = Done y u \<longleftrightarrow> (\<exists>x t. m s = Done x t \<and> k x t = Done y u)"
  by (auto simp: bd_def split: outcome.splits)

lemma bd_eq_DoneE:
  assumes "bd m k s = Done y u"
  obtains x t where "m s = Done x t" and "k x t = Done y u"
  using assms by (auto simp: bd_eq_Done)

lemma bd_cong [fundef_cong]:
  assumes "m s = m' s'" and "\<And>x t. m' s' = Done x t \<Longrightarrow> k x t = k' x t"
  shows "bd m k s = bd m' k' s'"
  using assms by (simp add: bd_def split: outcome.splits)

lemma bd_assoc: "bd (bd m f) g = bd m (\<lambda>x. bd (f x) g)"
  by (rule ext) (simp add: bd_def split: outcome.splits)

lemma foreach_append: "foreach (xs @ ys) f = bd (foreach xs f) (\<lambda>_. foreach ys f)"
proof (induction xs)
  case Nil
  show ?case by (rule ext) (simp add: bd_def)
next
  case (Cons x xs)
  then show ?case by (simp add: bd_assoc)
qed

text \<open>A loop invariant: kept by every completed iteration, it holds after the loop.\<close>

lemma foreach_invariant:
  assumes "foreach xs f s = Done () t" and "P s"
    and "\<And>x u v. x \<in> set xs \<Longrightarrow> P u \<Longrightarrow> f x u = Done () v \<Longrightarrow> P v"
  shows "P t"
  using assms
proof (induction xs arbitrary: s)
  case Nil
  then show ?case by simp
next
  case (Cons x xs)
  then obtain u where "f x s = Done () u" and "foreach xs f u = Done () t"
    by (auto simp: bd_eq_Done)
  with Cons show ?case by (metis list.set_intros(1) list.set_intros(2))
qed

lemma if_state_cong [fundef_cong]:
  assumes "p = p'" and "p' \<Longrightarrow> f s = f' s" and "\<not> p' \<Longrightarrow> g s = g' s"
  shows "(if p then f else g) s = (if p' then f' else g') s"
  using assms by simp

lemma case_prod_state_cong [fundef_cong]:
  assumes "x = x'" and "\<And>u v. x' = (u, v) \<Longrightarrow> f u v s = f' u v s"
  shows "case_prod f x s = case_prod f' x' s"
  using assms by (simp split: prod.split)

text \<open>
  \<open>yields m s Q\<close>: whatever \<open>m\<close> returns from \<open>s\<close> satisfies \<open>Q\<close>. The rules follow the
  structure of an operation, so that a loop is proved by its computation induction and these rules.
\<close>

definition yields :: "('s, 'a) kop \<Rightarrow> 's \<Rightarrow> ('a \<Rightarrow> 's \<Rightarrow> bool) \<Rightarrow> bool" where
  "yields m s Q \<longleftrightarrow> (\<forall>r t. m s = Done r t \<longrightarrow> Q r t)"

lemma yieldsD: "yields m s Q \<Longrightarrow> m s = Done r t \<Longrightarrow> Q r t"
  by (simp add: yields_def)

lemma yields_bd: "(\<And>x t. m s = Done x t \<Longrightarrow> yields (k x) t Q) \<Longrightarrow> yields (bd m k) s Q"
  by (auto simp: yields_def bd_eq_Done)

lemma yields_ret [simp]: "yields (ret x) s Q \<longleftrightarrow> Q x s"
  by (simp add: yields_def)

lemma yields_Done [simp]: "yields (Done x) s Q \<longleftrightarrow> Q x s"
  by (simp add: yields_def)

lemma yields_panic [simp]: "yields (panic e) s Q"
  by (simp add: yields_def)

lemma yields_mono: "yields m s P \<Longrightarrow> (\<And>x t. P x t \<Longrightarrow> Q x t) \<Longrightarrow> yields m s Q"
  by (simp add: yields_def)

lemma yields_unfold: "m s = n s \<Longrightarrow> yields n s Q \<Longrightarrow> yields m s Q"
  by (simp add: yields_def)

text \<open>
  \<open>safely m s Q\<close>: from \<open>s\<close>, \<open>m\<close> returns with \<open>Q\<close> or panics; it does nothing else.
\<close>

definition safely :: "('s, 'a) kop \<Rightarrow> 's \<Rightarrow> ('a \<Rightarrow> 's \<Rightarrow> bool) \<Rightarrow> bool" where
  "safely m s Q \<longleftrightarrow> (case m s of Done r t \<Rightarrow> Q r t | Panicked e \<Rightarrow> True | Switched t \<Rightarrow> False | Fault \<Rightarrow> False)"

lemma safely_bd: "safely m s (\<lambda>x t. safely (k x) t Q) \<Longrightarrow> safely (bd m k) s Q"
  by (auto simp: safely_def bd_run split: outcome.splits)

lemma safely_Done [simp]: "safely (Done x) s Q \<longleftrightarrow> Q x s"
  by (simp add: safely_def)

lemma safely_ret [simp]: "safely (ret x) s Q \<longleftrightarrow> Q x s"
  by (simp add: safely_def)

lemma safely_panic [simp]: "safely (panic e) s Q"
  by (simp add: safely_def)

lemma safely_Panicked [simp]: "safely (\<lambda>s. Panicked e) s Q"
  by (simp add: safely_def)

lemma safely_mono: "safely m s P \<Longrightarrow> (\<And>x t. P x t \<Longrightarrow> Q x t) \<Longrightarrow> safely m s Q"
  by (auto simp: safely_def split: outcome.splits)

lemma safely_unfold: "m s = n s \<Longrightarrow> safely n s Q \<Longrightarrow> safely m s Q"
  by (simp add: safely_def)

lemma safely_seq:
  "safely m s P \<Longrightarrow> (\<And>x t. m s = Done x t \<Longrightarrow> P x t \<Longrightarrow> safely (k x) t Q) \<Longrightarrow> safely (bd m k) s Q"
  by (auto simp: safely_def bd_run split: outcome.splits)

lemma find_SomeD: "find P xs = Some x \<Longrightarrow> x \<in> set xs \<and> P x"
  by (induction xs) (auto split: if_splits)

section \<open>Byte buffers\<close>

text \<open>
  \<open>blit d k xs\<close> is the buffer \<open>d\<close> with \<open>xs\<close> written at offset \<open>k\<close> (a \<^verbatim>\<open>memmove\<close>
  into an object distinct from the source); \<open>slice d k n\<close> are the \<open>n\<close> bytes at \<open>k\<close>.
\<close>

definition blit :: "'a list \<Rightarrow> nat \<Rightarrow> 'a list \<Rightarrow> 'a list" where
  "blit d k xs = take k d @ xs @ drop (k + length xs) d"

definition slice :: "'a list \<Rightarrow> nat \<Rightarrow> nat \<Rightarrow> 'a list" where
  "slice d k n = take n (drop k d)"

lemma length_blit [buf_simps, simp]:
  "k + length xs \<le> length d \<Longrightarrow> length (blit d k xs) = length d"
  by (simp add: blit_def)

lemma length_slice [buf_simps, simp]: "k + n \<le> length d \<Longrightarrow> length (slice d k n) = n"
  by (simp add: slice_def)

lemma slice_blit_same [buf_simps, simp]:
  "k + length xs \<le> length d \<Longrightarrow> n = length xs \<Longrightarrow> slice (blit d k xs) k n = xs"
  by (simp add: slice_def blit_def)

lemma nth_blit:
  "k + length xs \<le> length d \<Longrightarrow> i < length d \<Longrightarrow>
   blit d k xs ! i = (if k \<le> i \<and> i < k + length xs then xs ! (i - k) else d ! i)"
  by (auto simp: blit_def nth_append min_def)

lemma nth_slice: "k + n \<le> length d \<Longrightarrow> i < n \<Longrightarrow> slice d k n ! i = d ! (k + i)"
  by (simp add: slice_def)

lemma slice_blit_other [buf_simps]:
  assumes "k + length xs \<le> length d" and "j + n \<le> length d"
    and "j + n \<le> k \<or> k + length xs \<le> j"
  shows "slice (blit d k xs) j n = slice d j n"
  by (rule nth_equalityI) (use assms in \<open>auto simp: nth_slice nth_blit\<close>)

lemma blit_whole [buf_simps, simp]: "length xs = length d \<Longrightarrow> blit d 0 xs = xs"
  by (simp add: blit_def)

lemma slice_whole [buf_simps, simp]: "n = length d \<Longrightarrow> slice d 0 n = d"
  by (simp add: slice_def)

section \<open>Little-endian fields\<close>

definition le32 :: "u32 \<Rightarrow> bytes" where
  "le32 w = [ucast w, ucast (drop_bit 8 w), ucast (drop_bit 16 w), ucast (drop_bit 24 w)]"

definition of_le32 :: "bytes \<Rightarrow> u32" where
  "of_le32 bs = ucast (bs ! 0) OR push_bit 8 (ucast (bs ! 1))
     OR push_bit 16 (ucast (bs ! 2)) OR push_bit 24 (ucast (bs ! 3))"

definition le16 :: "u16 \<Rightarrow> bytes" where
  "le16 w = [ucast w, ucast (drop_bit 8 w)]"

definition of_le16 :: "bytes \<Rightarrow> u16" where
  "of_le16 bs = ucast (bs ! 0) OR push_bit 8 (ucast (bs ! 1))"

definition get32 :: "bytes \<Rightarrow> nat \<Rightarrow> u32" where
  "get32 d k = of_le32 (slice d k 4)"

definition put32 :: "bytes \<Rightarrow> nat \<Rightarrow> u32 \<Rightarrow> bytes" where
  "put32 d k w = blit d k (le32 w)"

definition get16 :: "bytes \<Rightarrow> nat \<Rightarrow> u16" where
  "get16 d k = of_le16 (slice d k 2)"

definition put16 :: "bytes \<Rightarrow> nat \<Rightarrow> u16 \<Rightarrow> bytes" where
  "put16 d k w = blit d k (le16 w)"

lemma length_le32 [buf_simps, simp]: "length (le32 w) = 4"
  by (simp add: le32_def)

lemma length_le16 [buf_simps, simp]: "length (le16 w) = 2"
  by (simp add: le16_def)

lemma of_le32_le32 [buf_simps, simp]: "of_le32 (le32 w) = w"
proof (rule bit_word_eqI)
  fix n assume "n < LENGTH(32)"
  then consider "n < 8" | "8 \<le> n" "n < 16" | "16 \<le> n" "n < 24" | "24 \<le> n" "n < 32"
    by fastforce
  then show "bit (of_le32 (le32 w)) n = bit w n"
    by cases (auto simp: of_le32_def le32_def bit_or_iff bit_push_bit_iff bit_ucast_iff bit_drop_bit_eq)
qed

lemma of_le16_le16 [buf_simps, simp]: "of_le16 (le16 w) = w"
  unfolding of_le16_def le16_def
  by (rule bit_word_eqI)
     (auto simp: bit_or_iff bit_push_bit_iff bit_ucast_iff bit_drop_bit_eq)

lemma length_put32 [buf_simps, simp]: "k + 4 \<le> length d \<Longrightarrow> length (put32 d k w) = length d"
  by (simp add: put32_def)

lemma length_put16 [buf_simps, simp]: "k + 2 \<le> length d \<Longrightarrow> length (put16 d k w) = length d"
  by (simp add: put16_def)

lemma get32_put32_same [buf_simps, simp]: "k + 4 \<le> length d \<Longrightarrow> get32 (put32 d k w) k = w"
  by (simp add: get32_def put32_def)

lemma get16_put16_same [buf_simps, simp]: "k + 2 \<le> length d \<Longrightarrow> get16 (put16 d k w) k = w"
  by (simp add: get16_def put16_def)

lemma get32_blit_other [buf_simps]:
  "k + length xs \<le> length d \<Longrightarrow> j + 4 \<le> length d \<Longrightarrow> j + 4 \<le> k \<or> k + length xs \<le> j \<Longrightarrow>
   get32 (blit d k xs) j = get32 d j"
  by (simp add: get32_def slice_blit_other)

lemma get16_blit_other [buf_simps]:
  "k + length xs \<le> length d \<Longrightarrow> j + 2 \<le> length d \<Longrightarrow> j + 2 \<le> k \<or> k + length xs \<le> j \<Longrightarrow>
   get16 (blit d k xs) j = get16 d j"
  by (simp add: get16_def slice_blit_other)

lemma get32_put32_other [buf_simps]:
  "k + 4 \<le> length d \<Longrightarrow> j + 4 \<le> length d \<Longrightarrow> j + 4 \<le> k \<or> k + 4 \<le> j \<Longrightarrow>
   get32 (put32 d k w) j = get32 d j"
  by (simp add: put32_def get32_blit_other)

lemma get16_put32_other [buf_simps]:
  "k + 4 \<le> length d \<Longrightarrow> j + 2 \<le> length d \<Longrightarrow> j + 2 \<le> k \<or> k + 4 \<le> j \<Longrightarrow>
   get16 (put32 d k w) j = get16 d j"
  by (simp add: put32_def get16_blit_other)

lemma get16_put16_other [buf_simps]:
  "k + 2 \<le> length d \<Longrightarrow> j + 2 \<le> length d \<Longrightarrow> j + 2 \<le> k \<or> k + 2 \<le> j \<Longrightarrow>
   get16 (put16 d k w) j = get16 d j"
  by (simp add: put16_def get16_blit_other)

lemma get32_put16_other [buf_simps]:
  "k + 2 \<le> length d \<Longrightarrow> j + 4 \<le> length d \<Longrightarrow> j + 4 \<le> k \<or> k + 2 \<le> j \<Longrightarrow>
   get32 (put16 d k w) j = get32 d j"
  by (simp add: put16_def get32_blit_other)

section \<open>Words in memory\<close>

definition load32 :: "mem \<Rightarrow> u32 \<Rightarrow> u32" where
  "load32 m a = of_le32 [m a, m (a + 1), m (a + 2), m (a + 3)]"

definition store32 :: "mem \<Rightarrow> u32 \<Rightarrow> u32 \<Rightarrow> mem" where
  "store32 m a w = m(a := le32 w ! 0, a + 1 := le32 w ! 1, a + 2 := le32 w ! 2, a + 3 := le32 w ! 3)"

lemma load32_store32_same [simp]: "load32 (store32 m a w) a = w"
proof -
  have "load32 (store32 m a w) a = of_le32 [le32 w ! 0, le32 w ! 1, le32 w ! 2, le32 w ! 3]"
    by (simp add: load32_def store32_def)
  also have "[le32 w ! 0, le32 w ! 1, le32 w ! 2, le32 w ! 3] = le32 w"
    by (simp add: le32_def)
  finally show ?thesis by simp
qed

text \<open>Distinct aligned words do not overlap.\<close>

definition aligned4 :: "u32 \<Rightarrow> bool" where
  "aligned4 a \<longleftrightarrow> unat a mod 4 = 0"

lemma unat_add_small:
  "unat (a :: u32) + k < 2 ^ 32 \<Longrightarrow> unat (a + of_nat k) = unat a + k"
  by (simp add: unat_word_ariths take_bit_eq_mod unat_of_nat)

lemma aligned4_offset:
  assumes "aligned4 a" and "k < 4"
  shows "unat (a + of_nat k) = unat a + k"
proof (rule unat_add_small)
  have "unat a < 2 ^ 32" using unsigned_less [of a] by simp
  with assms show "unat a + k < 2 ^ 32"
    by (auto simp: aligned4_def)
qed

lemma aligned4_disjoint:
  assumes "aligned4 a" and "aligned4 b" and "a \<noteq> b" and "i < 4" and "j < 4"
  shows "a + of_nat i \<noteq> b + of_nat j"
proof
  assume "a + of_nat i = b + of_nat j"
  then have "unat a + i = unat b + j"
    using aligned4_offset [OF assms(1,4)] aligned4_offset [OF assms(2,5)] by simp
  with assms(1,2,4,5) have "unat a = unat b"
    by (auto simp: aligned4_def) presburger
  with assms(3) show False by (simp add: unsigned_word_eqI)
qed

lemma load32_store32_other:
  assumes "aligned4 a" and "aligned4 b" and "a \<noteq> b"
  shows "load32 (store32 m a w) b = load32 m b"
proof -
  have "store32 m a w (b + of_nat j) = m (b + of_nat j)" if "j < 4" for j
    using aligned4_disjoint [OF assms, of 0 j] aligned4_disjoint [OF assms, of 1 j]
      aligned4_disjoint [OF assms, of 2 j] aligned4_disjoint [OF assms, of 3 j] that
    by (simp add: store32_def eq_commute)
  from this [of 0] this [of 1] this [of 2] this [of 3] show ?thesis
    by (simp add: load32_def)
qed

end
