(* ===== verification/Mmu.thy ===== *)
theory Mmu
  imports Xv6_Prelude
begin

text \<open>
  \<^verbatim>\<open>mmu.h\<close>: the address arithmetic of the paging hardware (page rounding, directory and table
  indices, entry fields) and the segment and gate descriptors, with the facts about them the memory
  components use.
\<close>

section \<open>Definitions\<close>

definition PGSIZE :: u32 where "PGSIZE = 4096"
definition NPDENTRIES :: nat where [simp]: "NPDENTRIES = 1024"
definition NPTENTRIES :: nat where [simp]: "NPTENTRIES = 1024"

definition PGROUNDUP :: "u32 \<Rightarrow> u32" where
  "PGROUNDUP a = (a + PGSIZE - 1) AND NOT (PGSIZE - 1)"

definition PGROUNDDOWN :: "u32 \<Rightarrow> u32" where
  "PGROUNDDOWN a = a AND NOT (PGSIZE - 1)"

definition PDX :: "u32 \<Rightarrow> u32" where
  "PDX va = drop_bit 22 va AND 0x3FF"

definition PTX :: "u32 \<Rightarrow> u32" where
  "PTX va = drop_bit 12 va AND 0x3FF"

definition PGADDR :: "u32 \<Rightarrow> u32 \<Rightarrow> u32 \<Rightarrow> u32" where
  "PGADDR d t k = push_bit 22 d OR push_bit 12 t OR k"

definition PTE_P :: u32 where "PTE_P = 0x001"
definition PTE_W :: u32 where "PTE_W = 0x002"
definition PTE_U :: u32 where "PTE_U = 0x004"

definition PTE_ADDR :: "u32 \<Rightarrow> u32" where
  "PTE_ADDR pte = pte AND NOT 0xFFF"

definition PTE_FLAGS :: "u32 \<Rightarrow> u32" where
  "PTE_FLAGS pte = pte AND 0xFFF"

definition page_aligned :: "u32 \<Rightarrow> bool" where
  "page_aligned a \<longleftrightarrow> unat a mod 4096 = 0"

section \<open>Rounding\<close>

lemma mask12: "(0xFFF :: u32) = mask 12"
  by (simp add: mask_eq_exp_minus_1)

lemma mask10: "(0x3FF :: u32) = mask 10"
  by (simp add: mask_eq_exp_minus_1)

lemma PGSIZE_minus_1 [simp]: "PGSIZE - 1 = mask 12"
  by (simp add: PGSIZE_def mask_eq_exp_minus_1)

lemma and_not_mask: "(a :: u32) AND NOT (mask n) = a - take_bit n a"
proof -
  have "a AND NOT (mask n) = push_bit n (drop_bit n a)"
    by (rule bit_word_eqI) (auto simp: bit_simps)
  then show ?thesis using bits_ident [of n a] by (simp add: algebra_simps)
qed

lemma unat_and_not_mask: "unat ((a :: u32) AND NOT (mask n)) = unat a - unat a mod 2 ^ n"
proof -
  have "take_bit n a \<le> a" by (simp only: word_le_nat_alt unat_take_bit) simp
  then show ?thesis by (simp only: and_not_mask unat_sub unat_take_bit)
qed

lemma unat_PGROUNDDOWN: "unat (PGROUNDDOWN a) = unat a - unat a mod 4096"
  by (simp add: PGROUNDDOWN_def unat_and_not_mask)

lemma PGROUNDDOWN_aligned [simp]: "page_aligned (PGROUNDDOWN a)"
  by (simp add: page_aligned_def unat_PGROUNDDOWN)

lemma PGROUNDDOWN_le: "PGROUNDDOWN a \<le> a"
  by (simp add: word_le_nat_alt unat_PGROUNDDOWN)

lemma PGROUNDDOWN_id: "page_aligned a \<Longrightarrow> PGROUNDDOWN a = a"
  by (simp add: page_aligned_def unat_PGROUNDDOWN word_unat_eq_iff)

lemma PGROUNDUP_aligned [simp]: "page_aligned (PGROUNDUP a)"
  by (simp add: page_aligned_def PGROUNDUP_def unat_and_not_mask)

lemma unat_PGROUNDUP:
  assumes "unat a \<le> 2 ^ 32 - 4096"
  shows "unat (PGROUNDUP a) = (unat a + 4095) div 4096 * 4096"
proof -
  have "a + PGSIZE - 1 = a + of_nat 4095" by (simp add: PGSIZE_def)
  moreover have "unat (a + of_nat 4095) = unat a + 4095"
    by (rule unat_add_small) (use assms in simp)
  ultimately have "unat (a + PGSIZE - 1) = unat a + 4095" by (simp only:)
  then have "unat (PGROUNDUP a) = unat a + 4095 - (unat a + 4095) mod 4096"
    by (simp add: PGROUNDUP_def unat_and_not_mask)
  then show ?thesis by (metis minus_mod_eq_div_mult)
qed

text \<open>Near the top of the address space the rounding wraps to zero.\<close>

lemma PGROUNDUP_wraps:
  assumes "2 ^ 32 - 4096 < unat a"
  shows "PGROUNDUP a = 0"
proof -
  have "a + PGSIZE - 1 = a + 4095" by (simp add: PGSIZE_def)
  then have "unat (a + PGSIZE - 1) = unat a + 4095 - 2 ^ 32"
    using assms unat_less_u32 [of a] by (simp only: unat_plus_if) simp
  then have "unat (a + PGSIZE - 1) < 4096"
    using unat_less_u32 [of a] by simp
  then have "unat (PGROUNDUP a) = 0"
    unfolding PGROUNDUP_def PGSIZE_minus_1 unat_and_not_mask by simp
  then show ?thesis by (simp add: unat_eq_0)
qed

lemma page_alignedE:
  assumes "page_aligned a"
  obtains k where "unat a = 4096 * k"
  using assms by (auto simp: page_aligned_def)

section \<open>Indices\<close>

lemma unat_PDX: "unat (PDX va) = unat va div 2 ^ 22"
proof -
  have "unat va div 2 ^ 22 < 2 ^ 10" using unat_less_u32 [of va] by simp
  moreover have "PDX va = take_bit 10 (drop_bit 22 va)"
    by (simp only: PDX_def take_bit_eq_mask mask10)
  ultimately show ?thesis by (simp only: unat_take_bit unat_drop_bit mod_less)
qed

lemma unat_PTX: "unat (PTX va) = unat va div 2 ^ 12 mod 2 ^ 10"
proof -
  have "PTX va = take_bit 10 (drop_bit 12 va)"
    by (simp only: PTX_def take_bit_eq_mask mask10)
  then show ?thesis by (simp only: unat_take_bit unat_drop_bit)
qed

lemma PDX_less [simp]: "unat (PDX va) < 1024"
  using unat_less_u32 [of va] by (simp add: unat_PDX)

lemma PTX_less [simp]: "unat (PTX va) < 1024"
  by (simp add: unat_PTX)

lemma PGADDR_split: "PGADDR (PDX va) (PTX va) (va AND 0xFFF) = va"
proof (rule bit_word_eqI)
  fix n assume "n < LENGTH(32)"
  then consider "n < 12" | "12 \<le> n" "n < 22" | "22 \<le> n" "n < 32" by fastforce
  then show "bit (PGADDR (PDX va) (PTX va) (va AND 0xFFF)) n = bit va n"
    by cases (auto simp: PGADDR_def PDX_def PTX_def mask10 mask12 bit_simps)
qed

lemma same_indices:
  "PDX a = PDX b \<and> PTX a = PTX b \<longleftrightarrow> unat a div 4096 = unat b div 4096"
proof -
  have "PDX a = PDX b \<and> PTX a = PTX b \<longleftrightarrow>
    unat a div 4096 div 1024 = unat b div 4096 div 1024 \<and>
    unat a div 4096 mod 1024 = unat b div 4096 mod 1024"
    by (simp add: word_unat_eq_iff unat_PDX unat_PTX div_mult2_eq [symmetric])
  then show ?thesis by (metis div_mod_decomp)
qed

section \<open>Entries\<close>

lemma PTE_ADDR_aligned [simp]: "page_aligned (PTE_ADDR pte)"
  by (simp add: PTE_ADDR_def mask12 page_aligned_def unat_and_not_mask)

lemma aligned_low_bits: "page_aligned a \<Longrightarrow> n < 12 \<Longrightarrow> \<not> bit a n"
proof -
  assume "page_aligned a" "n < 12"
  then have "take_bit 12 a = 0"
    by (simp only: page_aligned_def word_unat_eq_iff unat_take_bit) simp
  then have "bit (take_bit 12 a) n = False" by simp
  with \<open>n < 12\<close> show ?thesis by (simp add: bit_take_bit_iff)
qed

lemma PTE_fields:
  assumes "page_aligned pa" and "unat flags < 4096"
  shows "PTE_ADDR (pa OR flags) = pa" and "PTE_FLAGS (pa OR flags) = flags"
proof -
  have f: "take_bit 12 flags = flags" using assms(2) by (simp only: word_unat_eq_iff unat_take_bit) simp
  then have hi: "bit flags n \<Longrightarrow> n < 12" for n by (metis bit_take_bit_iff)
  show "PTE_ADDR (pa OR flags) = pa"
    by (rule bit_word_eqI) (use hi aligned_low_bits [OF assms(1)] in \<open>auto simp: PTE_ADDR_def mask12 bit_simps\<close>)
  show "PTE_FLAGS (pa OR flags) = flags"
    by (rule bit_word_eqI) (use hi aligned_low_bits [OF assms(1)] in \<open>auto simp: PTE_FLAGS_def mask12 bit_simps\<close>)
qed

end
