(* ===== verification/CString.thy ===== *)
theory CString
  imports Xv6_Prelude
begin

text \<open>
  \<^verbatim>\<open>string.c\<close>: the kernel's block and string primitives over byte-addressed memory. Pointers
  are 32-bit words, so pointer arithmetic and comparison wrap and order as on the machine.
  A loop counted by \<^verbatim>\<open>n\<close> is a recursion on that count; \<^verbatim>\<open>strlen\<close>, which stops only at a
  NUL byte, is a partial function.
\<close>

section \<open>Definitions\<close>

text \<open>\<^verbatim>\<open>stosb\<close> and \<^verbatim>\<open>stosl\<close> of \<^verbatim>\<open>x86.h\<close>: fill by bytes and by 32-bit words.\<close>

fun stosb :: "mem \<Rightarrow> u32 \<Rightarrow> u8 \<Rightarrow> nat \<Rightarrow> mem" where
  "stosb m a c 0 = m"
| "stosb m a c (Suc n) = stosb (m(a := c)) (a + 1) c n"

fun stosl :: "mem \<Rightarrow> u32 \<Rightarrow> u32 \<Rightarrow> nat \<Rightarrow> mem" where
  "stosl m a w 0 = m"
| "stosl m a w (Suc n) = stosl (store32 m a w) (a + 4) w n"

definition memset :: "mem \<Rightarrow> u32 \<Rightarrow> u32 \<Rightarrow> u32 \<Rightarrow> mem" where
  "memset m dst c n =
     (if unat dst mod 4 = 0 \<and> unat n mod 4 = 0
      then (let c = c AND 0xFF
            in stosl m dst (push_bit 24 c OR push_bit 16 c OR push_bit 8 c OR c) (unat n div 4))
      else stosb m dst (ucast c) (unat n))"

fun memcmp :: "mem \<Rightarrow> u32 \<Rightarrow> u32 \<Rightarrow> nat \<Rightarrow> int" where
  "memcmp m s1 s2 0 = 0"
| "memcmp m s1 s2 (Suc n) =
     (if m s1 \<noteq> m s2 then uint (m s1) - uint (m s2) else memcmp m (s1 + 1) (s2 + 1) n)"

fun copy_fwd :: "mem \<Rightarrow> u32 \<Rightarrow> u32 \<Rightarrow> nat \<Rightarrow> mem" where
  "copy_fwd m d s 0 = m"
| "copy_fwd m d s (Suc n) = copy_fwd (m(d := m s)) (d + 1) (s + 1) n"

fun copy_bwd :: "mem \<Rightarrow> u32 \<Rightarrow> u32 \<Rightarrow> nat \<Rightarrow> mem" where
  "copy_bwd m d s 0 = m"
| "copy_bwd m d s (Suc n) = copy_bwd (m(d - 1 := m (s - 1))) (d - 1) (s - 1) n"

definition memmove :: "mem \<Rightarrow> u32 \<Rightarrow> u32 \<Rightarrow> u32 \<Rightarrow> mem" where
  "memmove m dst src n =
     (if src < dst \<and> src + n > dst
      then copy_bwd m (dst + n) (src + n) (unat n)
      else copy_fwd m dst src (unat n))"

definition memcpy :: "mem \<Rightarrow> u32 \<Rightarrow> u32 \<Rightarrow> u32 \<Rightarrow> mem" where
  "memcpy m dst src n = memmove m dst src n"

fun strncmp :: "mem \<Rightarrow> u32 \<Rightarrow> u32 \<Rightarrow> nat \<Rightarrow> int" where
  "strncmp m p q 0 = 0"
| "strncmp m p q (Suc n) =
     (if m p \<noteq> 0 \<and> m p = m q then strncmp m (p + 1) (q + 1) n
      else uint (m p) - uint (m q))"

text \<open>
  \<^verbatim>\<open>strncpy\<close> has two loops: copy up to and including a NUL, then pad with NULs. The test
  \<^verbatim>\<open>n-- > 0\<close> fails at once for a count that is not positive.
\<close>

fun strncpy_pad :: "mem \<Rightarrow> u32 \<Rightarrow> nat \<Rightarrow> mem" where
  "strncpy_pad m s 0 = m"
| "strncpy_pad m s (Suc n) = strncpy_pad (m(s := 0)) (s + 1) n"

fun strncpy_loop :: "mem \<Rightarrow> u32 \<Rightarrow> u32 \<Rightarrow> nat \<Rightarrow> mem" where
  "strncpy_loop m s t 0 = m"
| "strncpy_loop m s t (Suc n) =
     (if m t \<noteq> 0 then strncpy_loop (m(s := m t)) (s + 1) (t + 1) n
      else strncpy_pad (m(s := m t)) (s + 1) n)"

definition strncpy :: "mem \<Rightarrow> u32 \<Rightarrow> u32 \<Rightarrow> int \<Rightarrow> mem" where
  "strncpy m s t n = strncpy_loop m s t (nat n)"

text \<open>
  \<^verbatim>\<open>safestrcpy\<close>: \<open>safestrcpy_loop m s t n\<close> is the state of the loop once its test has
  found \<open>n\<close> bytes left to copy; it ends by storing the terminating NUL at \<^verbatim>\<open>*s\<close>.
\<close>

fun safestrcpy_loop :: "mem \<Rightarrow> u32 \<Rightarrow> u32 \<Rightarrow> nat \<Rightarrow> mem" where
  "safestrcpy_loop m s t 0 = m(s := 0)"
| "safestrcpy_loop m s t (Suc n) =
     (if m t \<noteq> 0 then safestrcpy_loop (m(s := m t)) (s + 1) (t + 1) n
      else (m(s := m t))(s + 1 := 0))"

definition safestrcpy :: "mem \<Rightarrow> u32 \<Rightarrow> u32 \<Rightarrow> int \<Rightarrow> mem" where
  "safestrcpy m s t n = (if n \<le> 0 then m else safestrcpy_loop m s t (nat (n - 1)))"

partial_function (option) strlen_from :: "mem \<Rightarrow> u32 \<Rightarrow> nat \<Rightarrow> nat option" where
  "strlen_from m s n = (if m (s + of_nat n) = 0 then Some n else strlen_from m s (Suc n))"

definition strlen :: "mem \<Rightarrow> u32 \<Rightarrow> nat option" where
  "strlen m s = strlen_from m s 0"

section \<open>Word offsets\<close>

text \<open>
  A block of \<open>n\<close> bytes at \<open>d\<close> is described by the offset \<open>unat (a - d)\<close> of an address in it,
  which is meaningful even when the block wraps around the end of the address space.
\<close>

lemma offset_Suc:
  assumes "a \<noteq> (d :: u32)"
  shows "unat (a - (d + 1)) = unat (a - d) - 1" and "unat (a - d) > 0"
proof -
  have "a - d \<noteq> 0" using assms by simp
  then show "unat (a - d) > 0" using unat_gt_0 by blast
  have "a - (d + 1) = (a - d) - 1" by (simp add: algebra_simps)
  moreover have "unat ((a - d) - 1) = unat (a - d) - 1"
    using \<open>a - d \<noteq> 0\<close> by (rule unat_minus_one)
  ultimately show "unat (a - (d + 1)) = unat (a - d) - 1" by (simp only:)
qed

lemma offset_Suc_less:
  "n < 2 ^ 32 \<Longrightarrow>
   unat ((a :: u32) - (d + 1)) < n \<and> a \<noteq> d \<longleftrightarrow> a \<noteq> d \<and> unat (a - d) < Suc n"
  using offset_Suc [of a d] by auto

section \<open>Block copy\<close>

lemma copy_fwd_at:
  assumes "n \<le> 2 ^ 32" and "d = s \<or> n \<le> unat (d - s)"
  shows "copy_fwd m d s n a = (if unat (a - d) < n then m (s + (a - d)) else m a)"
  using assms
proof (induction n arbitrary: m d s)
  case 0
  then show ?case by simp
next
  case (Suc n)
  let ?m = "m(d := m s)"
  have IH: "copy_fwd ?m (d + 1) (s + 1) n a =
      (if unat (a - (d + 1)) < n then ?m (s + 1 + (a - (d + 1))) else ?m a)"
    using Suc.prems by (intro Suc.IH) auto
  have src: "s + 1 + (a - (d + 1)) = s + (a - d)" by (simp add: algebra_simps)
  show ?case
  proof (cases "a = d")
    case True
    have "\<not> unat (d - (d + 1)) < n"
      using Suc.prems(1) by simp
    with True IH show ?thesis by simp
  next
    case False
    note off = offset_Suc [OF False]
    have "s + (a - d) \<noteq> d" if "unat (a - d) < Suc n"
    proof
      assume eq: "s + (a - d) = d"
      then have "d - s = a - d" by (simp add: algebra_simps)
      with Suc.prems(2) that off(2) show False
        by auto
    qed
    with IH src off False show ?thesis by auto
  qed
qed

lemma copy_bwd_at:
  assumes "n \<le> 2 ^ 32" and "d = s \<or> n \<le> unat (s - d)"
  shows "copy_bwd m d s n a = (if unat (d - 1 - a) < n then m (s - d + a) else m a)"
  using assms
proof (induction n arbitrary: m d s)
  case 0
  then show ?case by simp
next
  case (Suc n)
  let ?m = "m(d - 1 := m (s - 1))"
  have IH: "copy_bwd ?m (d - 1) (s - 1) n a =
      (if unat (d - 1 - 1 - a) < n then ?m (s - 1 - (d - 1) + a) else ?m a)"
    using Suc.prems by (intro Suc.IH) auto
  have src: "s - 1 - (d - 1) + a = s - d + a" by simp
  show ?case
  proof (cases "a = d - 1")
    case True
    then have "d - 1 - 1 - a = - 1" and "s - d + a = s - 1" by simp_all
    moreover have "\<not> unat (- 1 :: u32) < n" using Suc.prems(1) by simp
    ultimately have "\<not> unat (d - 1 - 1 - a) < n" and "s - d + a = s - 1"
      by (simp_all only: not_False_eq_True)
    with True IH show ?thesis by simp
  next
    case False
    then have "d - 1 - a \<noteq> 0" by simp
    then have off: "unat (d - 1 - 1 - a) = unat (d - 1 - a) - 1" "0 < unat (d - 1 - a)"
      using unat_minus_one [of "d - 1 - a"] unat_gt_0 [of "d - 1 - a"]
      by (simp_all add: algebra_simps)
    have "s - d + a \<noteq> d - 1" if "unat (d - 1 - a) < Suc n"
    proof
      assume eq: "s - d + a = d - 1"
      then have "s - d = d - 1 - a" by (simp add: algebra_simps)
      with Suc.prems(2) that off(2) show False
        by auto
    qed
    with IH src off False show ?thesis by auto
  qed
qed

lemma unat_sub_le: "(y :: u32) \<le> x \<Longrightarrow> unat (x - y) = unat x - unat y"
  by (simp add: unat_sub)

lemma unat_sub_wrap: "(x :: u32) < y \<Longrightarrow> unat (x - y) = 2 ^ 32 - (unat y - unat x)"
proof -
  assume "x < y"
  then have "unat x < unat y" by (simp add: word_less_nat_alt)
  then show ?thesis using unat_less_u32 [of y] by (simp add: unat_sub_if')
qed

text \<open>
  \<^verbatim>\<open>memmove\<close> copies a block as it was before the call, whichever way source and destination
  overlap, and changes nothing else.
\<close>

lemma memmove_at:
  assumes src: "unat src + unat n < 2 ^ 32" and dst: "unat dst + unat n \<le> 2 ^ 32"
  shows "memmove m dst src n a = (if unat (a - dst) < unat n then m (src + (a - dst)) else m a)"
proof (cases "src < dst \<and> src + n > dst")
  case True
  then have "unat src < unat dst" by (simp add: word_less_nat_alt)
  then have far: "unat n \<le> unat (src + n - (dst + n))"
    using True dst by (simp add: unat_sub_wrap)
  have bwd: "memmove m dst src n a =
      (if unat (dst + n - 1 - a) < unat n then m (src + n - (dst + n) + a) else m a)"
    using True copy_bwd_at [OF _ disjI2 [OF far], of m a] unat_less_u32 [of n]
    by (simp add: memmove_def less_imp_le)
  have "n \<noteq> 0" using True by auto
  then have n1: "unat (n - 1) = unat n - 1" "0 < unat n"
    using unat_minus_one unat_gt_0 by auto
  have "dst + n - 1 - a = (n - 1) - (a - dst)" by simp
  moreover have "unat ((n - 1) - (a - dst)) < unat n \<longleftrightarrow> unat (a - dst) < unat n"
  proof (cases "a - dst \<le> n - 1")
    case True
    then show ?thesis
      using n1 by (simp add: unat_sub_le word_le_nat_alt)
  next
    case False
    then have "unat ((n - 1) - (a - dst)) = 2 ^ 32 - (unat (a - dst) - unat (n - 1))"
      by (intro unat_sub_wrap) simp
    then show ?thesis
      using n1 False unat_less_u32 [of "a - dst"] by (simp add: word_le_nat_alt) linarith
  qed
  ultimately show ?thesis using bwd by (simp add: algebra_simps)
next
  case False
  have "dst = src \<or> unat n \<le> unat (dst - src)"
  proof (cases "src < dst")
    case True
    with False have "src + n \<le> dst" by simp
    then have "unat src + unat n \<le> unat dst"
      using src by (simp add: word_le_nat_alt unat_word_ariths take_bit_eq_mod)
    with True show ?thesis by (auto simp: unat_sub_le less_imp_le)
  next
    case ge: False
    show ?thesis
    proof (cases "dst = src")
      case False
      with ge have "dst < src" by simp
      then show ?thesis using src
        by (auto simp: unat_sub_wrap word_less_nat_alt)
    qed simp
  qed
  then show ?thesis
    using False copy_fwd_at [of "unat n" dst src m a] unat_less_u32 [of n]
    by (auto simp: memmove_def)
qed

section \<open>Block fill\<close>

lemma stosb_at:
  "n \<le> 2 ^ 32 \<Longrightarrow> stosb m d c n a = (if unat (a - d) < n then c else m a)"
proof (induction n arbitrary: m d)
  case (Suc n)
  then show ?case
    using offset_Suc [of a d] by (cases "a = d") auto
qed simp

text \<open>Storing a word made of four equal bytes is storing the byte four times.\<close>

definition byte4 :: "u32 \<Rightarrow> u32" where
  "byte4 c = push_bit 24 (c AND 0xFF) OR push_bit 16 (c AND 0xFF) OR push_bit 8 (c AND 0xFF)
     OR (c AND 0xFF)"

lemma bit_255: "bit (0xFF :: u32) n \<longleftrightarrow> n < 8"
proof -
  have "(0xFF :: u32) = mask 8" by (simp add: mask_eq_exp_minus_1)
  then show ?thesis by (simp only: bit_mask_iff) auto
qed

lemma bit_byte4:
  assumes "n < 8"
  shows "bit (byte4 c) n = bit c n" and "bit (byte4 c) (8 + n) = bit c n"
    and "bit (byte4 c) (16 + n) = bit c n" and "bit (byte4 c) (24 + n) = bit c n"
proof -
  obtain x where x: "x = c AND 0xFF" by simp
  then have bx: "bit x k \<longleftrightarrow> k < 8 \<and> bit c k" for k
    by (simp only: bit_and_iff bit_255) blast
  have b4: "byte4 c = push_bit 24 x OR push_bit 16 x OR push_bit 8 x OR x"
    by (simp only: byte4_def x)
  show "bit (byte4 c) n = bit c n" "bit (byte4 c) (8 + n) = bit c n"
    "bit (byte4 c) (16 + n) = bit c n" "bit (byte4 c) (24 + n) = bit c n"
    using assms unfolding b4 by (simp_all add: bit_or_iff bit_push_bit_iff bx)
qed

lemma le32_byte4: "le32 (byte4 c) = [ucast c, ucast c, ucast c, ucast c]"
proof -
  have "ucast (drop_bit k (byte4 c)) = (ucast c :: u8)" if "k = 0 \<or> k = 8 \<or> k = 16 \<or> k = 24" for k
  proof (rule bit_word_eqI)
    fix n assume "n < LENGTH(8)"
    then have "n < 8" by simp
    with that show "bit (ucast (drop_bit k (byte4 c)) :: u8) n = bit (ucast c :: u8) n"
      using bit_byte4 [OF \<open>n < 8\<close>, of c] by (auto simp: bit_ucast_iff bit_drop_bit_eq)
  qed
  from this [of 0] this [of 8] this [of 16] this [of 24] show ?thesis
    by (simp add: le32_def)
qed

lemma store32_byte4:
  "store32 m d (byte4 c) = m(d := ucast c, d + 1 := ucast c, d + 2 := ucast c, d + 3 := ucast c)"
  unfolding store32_def le32_byte4 by simp

lemma stosb_4: "stosb m d c (n + 4) =
    stosb (m(d := c, d + 1 := c, d + 2 := c, d + 3 := c)) (d + 4) c n"
proof -
  have "n + 4 = Suc (Suc (Suc (Suc n)))" by simp
  then have "stosb m d c (n + 4) =
    stosb (m(d := c, d + 1 := c, d + 1 + 1 := c, d + 1 + 1 + 1 := c)) (d + 1 + 1 + 1 + 1) c n"
    by (simp only: stosb.simps)
  moreover have "d + 1 + 1 = d + 2" "d + 1 + 1 + 1 = d + 3" "d + 1 + 1 + 1 + 1 = d + 4"
    by simp_all
  ultimately show ?thesis by (simp only:)
qed

lemma stosl_stosb: "stosl m d (byte4 c) n = stosb m d (ucast c) (4 * n)"
proof (induction n arbitrary: m d)
  case (Suc n)
  have "4 * Suc n = 4 * n + 4" by simp
  with Suc.IH [of "store32 m d (byte4 c)" "d + 4"] show ?case
    by (simp only: stosl.simps stosb_4 store32_byte4)
qed simp

text \<open>The word-wise and the byte-wise path of \<^verbatim>\<open>memset\<close> fill the same bytes.\<close>

lemma memset_at: "memset m dst c n a = (if unat (a - dst) < unat n then ucast c else m a)"
proof -
  have "memset m dst c n = stosb m dst (ucast c) (unat n)"
    using stosl_stosb [of m dst c "unat n div 4"]
    by (auto simp: memset_def byte4_def Let_def)
  then show ?thesis
    using stosb_at [of "unat n" m dst "ucast c" a] unat_less_u32 [of n] by simp
qed

section \<open>Comparison\<close>

definition bytes_at :: "mem \<Rightarrow> u32 \<Rightarrow> nat \<Rightarrow> bytes" where
  "bytes_at m p n = map (\<lambda>i. m (p + of_nat i)) [0..<n]"

lemma bytes_at_Suc: "bytes_at m p (Suc n) = m p # bytes_at m (p + 1) n"
  unfolding bytes_at_def by (simp add: upt_conv_Cons map_Suc_upt [symmetric] add.assoc del: upt_Suc)

lemma bytes_at_0 [simp]: "bytes_at m p 0 = []"
  by (simp add: bytes_at_def)

lemma memcmp_eq_0: "memcmp m p q n = 0 \<longleftrightarrow> bytes_at m p n = bytes_at m q n"
  by (induction n arbitrary: p q) (auto simp: bytes_at_Suc word_uint_eq_iff)

text \<open>The C string at \<open>p\<close>, cut off after \<open>n\<close> bytes.\<close>

definition cstr :: "mem \<Rightarrow> u32 \<Rightarrow> nat \<Rightarrow> bytes" where
  "cstr m p n = takeWhile (\<lambda>c. c \<noteq> 0) (bytes_at m p n)"

lemma cstr_simps [simp]:
  "cstr m p 0 = []"
  "cstr m p (Suc n) = (if m p = 0 then [] else m p # cstr m (p + 1) n)"
  by (simp_all add: cstr_def bytes_at_Suc)

lemma strncmp_eq_0: "strncmp m p q n = 0 \<longleftrightarrow> cstr m p n = cstr m q n"
  by (induction n arbitrary: p q) (auto simp: word_uint_eq_iff)

lemma strncmp_range: "- 255 \<le> strncmp m p q n \<and> strncmp m p q n \<le> 255"
proof (induction n arbitrary: p q)
  case (Suc n)
  have "0 \<le> uint (m p)" "uint (m p) < 256" "0 \<le> uint (m q)" "uint (m q) < 256"
    using unsigned_less [of "m p"] unsigned_less [of "m q"] by simp_all
  moreover from this have "- 255 \<le> uint (m p) - uint (m q)" "uint (m p) - uint (m q) \<le> 255"
    by linarith+
  ultimately show ?case using Suc by (simp add: less_imp_le)
qed simp

section \<open>Bounded string copy\<close>

text \<open>
  The source of a copy is not changed while it is read when the two blocks are apart.
\<close>

definition apart :: "u32 \<Rightarrow> u32 \<Rightarrow> nat \<Rightarrow> bool" where
  "apart s t n \<longleftrightarrow> n < 2 ^ 31 \<and> n \<le> unat (s - t) \<and> n \<le> unat (t - s)"

lemma strncpy_pad_at:
  "n \<le> 2 ^ 32 \<Longrightarrow> strncpy_pad m s n a = (if unat (a - s) < n then 0 else m a)"
proof (induction n arbitrary: m s)
  case (Suc n)
  then show ?case
    using offset_Suc [of a s] by (cases "a = s") auto
qed simp

lemma bytes_at_fun_upd:
  assumes "n \<le> unat (a - p)"
  shows "bytes_at (m(a := c)) p n = bytes_at m p n"
proof -
  have "p + of_nat i \<noteq> a" if "i < n" for i
  proof
    assume "p + of_nat i = a"
    then have "a - p = of_nat i" by auto
    then have "unat (a - p) \<le> i"
      by (simp add: unat_of_nat take_bit_nat_less_eq_self)
    with assms that show False by simp
  qed
  then show ?thesis by (auto simp: bytes_at_def)
qed

lemma cstr_fun_upd: "n \<le> unat (a - p) \<Longrightarrow> cstr (m(a := c)) p n = cstr m p n"
  by (simp add: cstr_def bytes_at_fun_upd)

lemma strncpy_loop_frame:
  "n \<le> 2 ^ 32 \<Longrightarrow> n \<le> unat (a - s) \<Longrightarrow> strncpy_loop m s t n a = m a"
proof (induction n arbitrary: m s t)
  case (Suc n)
  then have "a \<noteq> s" by auto
  with Suc show ?case
    using offset_Suc [of a s] by (auto simp: strncpy_pad_at)
qed simp

lemma apart_Suc:
  assumes "apart s t (Suc n)"
  shows "apart (s + 1) (t + 1) n" and "n \<le> unat (s - (t + 1))" and "s \<noteq> t"
proof -
  show "s \<noteq> t" using assms by (auto simp: apart_def)
  with assms show "apart (s + 1) (t + 1) n" and "n \<le> unat (s - (t + 1))"
    using offset_Suc [of s t] by (auto simp: apart_def)
qed

lemma strncpy_loop_bytes:
  assumes "apart s t n"
  shows "bytes_at (strncpy_loop m s t n) s n =
    cstr m t n @ replicate (n - length (cstr m t n)) 0"
  using assms
proof (induction n arbitrary: m s t)
  case 0
  then show ?case by simp
next
  case (Suc n)
  note ap = apart_Suc [OF Suc.prems]
  have n: "n < 2 ^ 32" using Suc.prems by (simp add: apart_def)
  have off: "unat (s - (s + 1)) = 2 ^ 32 - 1" by simp
  show ?case
  proof (cases "m t = 0")
    case True
    have "bytes_at (strncpy_pad (m(s := 0)) (s + 1) n) (s + 1) n = replicate n 0"
    proof (rule nth_equalityI)
      fix i assume "i < length (bytes_at (strncpy_pad (m(s := 0)) (s + 1) n) (s + 1) n)"
      then have "i < n" by (simp add: bytes_at_def)
      moreover from this n have "unat (of_nat i :: u32) = i"
        by (simp add: unat_of_nat take_bit_nat_eq_self)
      ultimately show "bytes_at (strncpy_pad (m(s := 0)) (s + 1) n) (s + 1) n ! i = replicate n 0 ! i"
        using n by (simp add: bytes_at_def strncpy_pad_at)
    qed (simp add: bytes_at_def)
    moreover have "strncpy_pad (m(s := 0)) (s + 1) n s = 0"
      using n off by (simp add: strncpy_pad_at)
    ultimately show ?thesis using True by (simp add: bytes_at_Suc)
  next
    case False
    define m' where "m' = m(s := m t)"
    have "strncpy_loop m' (s + 1) (t + 1) n s = m t"
      using n off by (simp add: strncpy_loop_frame m'_def)
    moreover have "cstr m' (t + 1) n = cstr m (t + 1) n"
      unfolding m'_def by (rule cstr_fun_upd [OF ap(2)])
    ultimately show ?thesis
      using False Suc.IH [OF ap(1), of m'] by (simp add: bytes_at_Suc flip: m'_def)
  qed
qed

lemma safestrcpy_loop_frame:
  "n < 2 ^ 32 \<Longrightarrow> Suc n \<le> unat (a - s) \<Longrightarrow> safestrcpy_loop m s t n a = m a"
proof (induction n arbitrary: m s t)
  case (Suc n)
  then have "a \<noteq> s" by auto
  with Suc show ?case
    using offset_Suc [of a s] by auto
qed auto

lemma safestrcpy_loop_cstr:
  assumes "apart s t (Suc n)"
  shows "cstr (safestrcpy_loop m s t n) s (Suc n) = cstr m t n"
    and "\<exists>k \<le> n. safestrcpy_loop m s t n (s + of_nat k) = 0"
  using assms
proof (induction n arbitrary: m s t)
  case 0
  { case 1 show ?case by simp }
  { case 2 show ?case by simp }
next
  case (Suc n)
  have ap: "apart (s + 1) (t + 1) (Suc n)" "Suc n \<le> unat (s - (t + 1))"
    if "apart s t (Suc (Suc n))" for s t using apart_Suc [OF that] by simp_all
  have frame: "safestrcpy_loop (m(s := m t)) (s + 1) (t + 1) n s = m t"
    if "apart s t (Suc (Suc n))" for m s t
    using that by (subst safestrcpy_loop_frame) (auto simp: apart_def)
  {
    case 1
    define m' where "m' = m(s := m t)"
    have "cstr m' (t + 1) n = cstr m (t + 1) n"
      unfolding m'_def using ap(2) [OF 1] by (intro cstr_fun_upd) simp
    with Suc.IH(1) [OF ap(1) [OF 1], of m'] frame [OF 1, of m, folded m'_def]
    show ?case
      by (cases "m t = 0") (simp_all del: cstr_simps(2) flip: m'_def
        add: cstr_simps(2) [where p = s] cstr_simps(2) [where p = t])
  }
  {
    case 2
    show ?case
    proof (cases "m t = 0")
      case True
      then show ?thesis by (intro exI [of _ 0]) auto
    next
      case False
      obtain k where "k \<le> n" and
        "safestrcpy_loop (m(s := m t)) (s + 1) (t + 1) n (s + 1 + of_nat k) = 0"
        using Suc.IH(2) [OF ap(1) [OF 2], of "m(s := m t)"] by blast
      with False show ?thesis by (intro exI [of _ "Suc k"]) (simp add: add.assoc)
    qed
  }
qed

section \<open>String length\<close>

lemma strlen_from_first:
  assumes "m (s + of_nat k) = 0" and "\<And>i. n \<le> i \<Longrightarrow> i < k \<Longrightarrow> m (s + of_nat i) \<noteq> 0" and "n \<le> k"
  shows "strlen_from m s n = Some k"
  using assms(2,3)
proof (induction "k - n" arbitrary: n)
  case 0
  then show ?case using assms(1) by (simp add: strlen_from.simps)
next
  case (Suc d)
  then show ?case by (subst strlen_from.simps) simp
qed

text \<open>The string at \<open>s\<close> has length \<open>k\<close> exactly when its first NUL byte is at offset \<open>k\<close>.\<close>

lemma strlen_first_nul:
  assumes "m (s + of_nat k) = 0" and "\<And>i. i < k \<Longrightarrow> m (s + of_nat i) \<noteq> 0"
  shows "strlen m s = Some k"
  unfolding strlen_def by (rule strlen_from_first) (use assms in auto)

section \<open>Properties\<close>

text \<open>
  C32: \<^verbatim>\<open>memmove\<close> copies correctly even when the two blocks overlap: afterwards the destination
  block holds what the source block held before the call, and no byte outside the
  destination has changed. The source has to end below the top of the address space, the
  destination may end at it.
\<close>

theorem memmove_moves:
  assumes "unat src + unat n < 2 ^ 32" and "unat dst + unat n \<le> 2 ^ 32"
  shows "bytes_at (memmove m dst src n) dst (unat n) = bytes_at m src (unat n) \<and>
    (\<forall>a. unat a < unat dst \<or> unat dst + unat n \<le> unat a \<longrightarrow> memmove m dst src n a = m a)"
proof (intro conjI allI impI)
  show "bytes_at (memmove m dst src n) dst (unat n) = bytes_at m src (unat n)"
  proof (rule nth_equalityI)
    fix i assume "i < length (bytes_at (memmove m dst src n) dst (unat n))"
    then have i: "i < unat n" by (simp add: bytes_at_def)
    then have "unat (of_nat i :: u32) = i"
      using unat_less_u32 [of n] by (simp add: unat_of_nat)
    with i show "bytes_at (memmove m dst src n) dst (unat n) ! i = bytes_at m src (unat n) ! i"
      by (simp add: bytes_at_def memmove_at [OF assms])
  qed (simp add: bytes_at_def)
next
  fix a :: u32
  assume out: "unat a < unat dst \<or> unat dst + unat n \<le> unat a"
  have "\<not> unat (a - dst) < unat n"
    using out assms(2) by (auto simp: unat_sub_if')
  then show "memmove m dst src n a = m a" by (simp add: memmove_at [OF assms])
qed

theorem memmove_moves_witness:
  "bytes_at (memmove ucast 0x1002 0x1000 4) 0x1002 4 = [0, 1, 2, 3 :: u8] \<and>
   memmove ucast 0x1002 0x1000 4 0x1001 = (1 :: u8)"
  using memmove_moves [of "0x1000" 4 "0x1002" ucast] by (simp add: bytes_at_def upt_rec)

text \<open>
  C36: \<^verbatim>\<open>safestrcpy\<close> with a positive count and a source away from the destination leaves a
  NUL-terminated string within the \<^verbatim>\<open>n\<close> bytes of the destination, namely the source string cut
  off after \<^verbatim>\<open>n - 1\<close> bytes, and writes nothing outside those \<^verbatim>\<open>n\<close> bytes.
\<close>

theorem safestrcpy_terminates_string:
  assumes "0 < n" and "apart s t (nat n)"
  shows "cstr (safestrcpy m s t n) s (nat n) = cstr m t (nat n - 1) \<and>
    (\<exists>k < nat n. safestrcpy m s t n (s + of_nat k) = 0) \<and>
    (\<forall>a. nat n \<le> unat (a - s) \<longrightarrow> safestrcpy m s t n a = m a)"
proof -
  have n: "Suc (nat (n - 1)) = nat n" and def: "safestrcpy m s t n = safestrcpy_loop m s t (nat (n - 1))"
    using assms(1) by (simp_all add: safestrcpy_def)
  have loop: "cstr (safestrcpy m s t n) s (nat n) = cstr m t (nat (n - 1))"
      "\<exists>k \<le> nat (n - 1). safestrcpy m s t n (s + of_nat k) = 0"
    using safestrcpy_loop_cstr [of s t "nat (n - 1)" m] assms(2) by (simp_all add: def n)
  have "safestrcpy m s t n a = m a" if "nat n \<le> unat (a - s)" for a
    unfolding def by (rule safestrcpy_loop_frame) (use that assms n in \<open>simp_all add: apart_def\<close>)
  moreover from loop(2) obtain k where "k \<le> nat (n - 1)" "safestrcpy m s t n (s + of_nat k) = 0"
    by blast
  then have "\<exists>k < nat n. safestrcpy m s t n (s + of_nat k) = 0"
    using n by (metis less_Suc_eq_le)
  moreover have "nat n - 1 = nat (n - 1)" using n by simp
  ultimately show ?thesis using loop(1) by simp
qed

theorem safestrcpy_terminates_string_witness:
  "cstr (safestrcpy ucast 0x2000 0x1001 4) 0x2000 4 = [1, 2, 3 :: u8]"
  using safestrcpy_terminates_string [of 4 "0x2000" "0x1001" ucast]
  by (simp add: apart_def cstr_def bytes_at_def upt_rec)

end
