(* ===== verification/Spinlock.thy ===== *)
theory Spinlock
  imports Xv6_Prelude
begin

text \<open>
  \<^verbatim>\<open>spinlock.c\<close>. First the detailed multiprocessor view: per-CPU interrupt state, the lock
  words, and a step relation in which the atomic \<^verbatim>\<open>xchg\<close>, the recording of the owner and
  the unlocking are separate steps of each CPU. Then the view one CPU has of its own
  locks, the set of locks it holds, which the other components are written against, and
  the simulation that justifies it.
\<close>

section \<open>Locks and interrupt state\<close>

datatype lockid =
    LBcache | LIcache | LFtable | LPtable | LKmem | LIde | LLog | LCons | LInput | LTicks
  | LPipe u32

record cpu =
  ncli :: int
  intena :: bool
  IF :: bool

record spinlock =
  locked :: bool
  lkcpu :: "nat option"

definition initlock :: "spinlock \<Rightarrow> spinlock" where
  "initlock lk = lk\<lparr>locked := False, lkcpu := None\<rparr>"

definition holding :: "nat \<Rightarrow> spinlock \<Rightarrow> bool" where
  "holding c lk \<longleftrightarrow> locked lk \<and> lkcpu lk = Some c"

definition pushcli :: "cpu \<Rightarrow> cpu" where
  "pushcli c =
     (let eflags = IF c;
          c = c\<lparr>IF := False\<rparr>;
          c' = c\<lparr>ncli := ncli c + 1\<rparr>
      in if ncli c = 0 then c'\<lparr>intena := eflags\<rparr> else c')"

definition popcli :: "cpu \<Rightarrow> string + cpu" where
  "popcli c =
     (if IF c then Inl ''popcli - interruptible''
      else let c = c\<lparr>ncli := ncli c - 1\<rparr>
           in if ncli c < 0 then Inl ''popcli''
              else if ncli c = 0 \<and> intena c then Inr (c\<lparr>IF := True\<rparr>)
              else Inr c)"

section \<open>The multiprocessor step relation\<close>

text \<open>
  Where a CPU is inside \<^verbatim>\<open>acquire\<close> and \<^verbatim>\<open>release\<close>: spinning on the \<^verbatim>\<open>xchg\<close>, past it but before
  \<^verbatim>\<open>lk->cpu = cpu\<close>, or past \<^verbatim>\<open>lk->cpu = 0\<close> but before the unlocking \<^verbatim>\<open>xchg\<close>.
\<close>

datatype phase = Running | Spinning lockid | Recording lockid | Unlocking lockid

record system =
  cpus :: "nat \<Rightarrow> cpu"
  locks :: "lockid \<Rightarrow> spinlock"
  phases :: "nat \<Rightarrow> phase"

definition init_system :: system where
  "init_system =
     \<lparr>cpus = (\<lambda>_. \<lparr>ncli = 0, intena = False, IF = False\<rparr>),
      locks = (\<lambda>_. initlock \<lparr>locked = False, lkcpu = None\<rparr>),
      phases = (\<lambda>_. Running)\<rparr>"

definition acquire_enter :: "nat \<Rightarrow> lockid \<Rightarrow> system \<Rightarrow> string + system" where
  "acquire_enter c l s =
     (let s = s\<lparr>cpus := (cpus s)(c := pushcli (cpus s c))\<rparr>
      in if holding c (locks s l) then Inl ''acquire''
         else Inr (s\<lparr>phases := (phases s)(c := Spinning l)\<rparr>))"

definition acquire_xchg :: "nat \<Rightarrow> lockid \<Rightarrow> system \<Rightarrow> system" where
  "acquire_xchg c l s =
     (let old = locked (locks s l);
          s = s\<lparr>locks := (locks s)(l := (locks s l)\<lparr>locked := True\<rparr>)\<rparr>
      in if old then s else s\<lparr>phases := (phases s)(c := Recording l)\<rparr>)"

definition acquire_record :: "nat \<Rightarrow> lockid \<Rightarrow> system \<Rightarrow> system" where
  "acquire_record c l s =
     s\<lparr>locks := (locks s)(l := (locks s l)\<lparr>lkcpu := Some c\<rparr>), phases := (phases s)(c := Running)\<rparr>"

definition release_enter :: "nat \<Rightarrow> lockid \<Rightarrow> system \<Rightarrow> string + system" where
  "release_enter c l s =
     (if \<not> holding c (locks s l) then Inl ''release''
      else Inr (s\<lparr>locks := (locks s)(l := (locks s l)\<lparr>lkcpu := None\<rparr>),
                  phases := (phases s)(c := Unlocking l)\<rparr>))"

definition release_xchg :: "nat \<Rightarrow> lockid \<Rightarrow> system \<Rightarrow> string + system" where
  "release_xchg c l s =
     (let s = s\<lparr>locks := (locks s)(l := (locks s l)\<lparr>locked := False\<rparr>)\<rparr>
      in case popcli (cpus s c) of
           Inl e \<Rightarrow> Inl e
         | Inr k \<Rightarrow> Inr (s\<lparr>cpus := (cpus s)(c := k), phases := (phases s)(c := Running)\<rparr>))"

text \<open>
  A step of CPU \<open>c\<close>. Besides the pieces of \<^verbatim>\<open>acquire\<close> and \<^verbatim>\<open>release\<close>, a CPU with no
  \<^verbatim>\<open>pushcli\<close> pending may enable interrupts, as \<^verbatim>\<open>scheduler\<close> does with \<^verbatim>\<open>sti\<close>.
\<close>

inductive lock_step :: "nat \<Rightarrow> system \<Rightarrow> system \<Rightarrow> bool" where
  acq: "phases s c = Running \<Longrightarrow> acquire_enter c l s = Inr t \<Longrightarrow> lock_step c s t"
| spin: "phases s c = Spinning l \<Longrightarrow> lock_step c s (acquire_xchg c l s)"
| own: "phases s c = Recording l \<Longrightarrow> lock_step c s (acquire_record c l s)"
| rel: "phases s c = Running \<Longrightarrow> release_enter c l s = Inr t \<Longrightarrow> lock_step c s t"
| unlock: "phases s c = Unlocking l \<Longrightarrow> release_xchg c l s = Inr t \<Longrightarrow> lock_step c s t"
| sti: "phases s c = Running \<Longrightarrow> ncli (cpus s c) = 0 \<Longrightarrow>
     lock_step c s (s\<lparr>cpus := (cpus s)(c := (cpus s c)\<lparr>IF := True\<rparr>)\<rparr>)"

inductive reachable :: "system \<Rightarrow> bool" where
  start: "reachable init_system"
| step: "reachable s \<Longrightarrow> lock_step c s t \<Longrightarrow> reachable t"

section \<open>Mutual exclusion\<close>

text \<open>CPU \<open>c\<close> is between a successful \<^verbatim>\<open>xchg\<close> on \<open>l\<close> and the \<^verbatim>\<open>xchg\<close> that unlocks it.\<close>

definition owns :: "system \<Rightarrow> nat \<Rightarrow> lockid \<Rightarrow> bool" where
  "owns s c l \<longleftrightarrow>
     phases s c = Recording l \<or> phases s c = Unlocking l \<or> lkcpu (locks s l) = Some c"

definition spinning :: "system \<Rightarrow> nat \<Rightarrow> bool" where
  "spinning s c \<longleftrightarrow> (\<exists>l. phases s c = Spinning l)"

definition lock_inv :: "system \<Rightarrow> bool" where
  "lock_inv s \<longleftrightarrow>
     (\<forall>c l. owns s c l \<longrightarrow> locked (locks s l)) \<and>
     (\<forall>c d l. owns s c l \<longrightarrow> owns s d l \<longrightarrow> c = d) \<and>
     (\<forall>c l. phases s c = Recording l \<or> phases s c = Unlocking l \<longrightarrow> lkcpu (locks s l) = None) \<and>
     (\<forall>c l. phases s c = Spinning l \<longrightarrow> lkcpu (locks s l) \<noteq> Some c)"

lemmas lock_step_defs =
  acquire_enter_def acquire_xchg_def acquire_record_def release_enter_def release_xchg_def
  holding_def

lemma lock_inv_init: "lock_inv init_system"
  by (simp add: lock_inv_def init_system_def owns_def initlock_def)

lemma lock_invD:
  assumes "lock_inv s"
  shows "owns s c l \<Longrightarrow> locked (locks s l)"
    and "owns s c l \<Longrightarrow> owns s d l \<Longrightarrow> c = d"
    and "phases s c = Recording l \<Longrightarrow> lkcpu (locks s l) = None"
    and "phases s c = Unlocking l \<Longrightarrow> lkcpu (locks s l) = None"
    and "phases s c = Spinning l \<Longrightarrow> lkcpu (locks s l) \<noteq> Some c"
  using assms unfolding lock_inv_def by blast+

text \<open>The steps by the fields they change.\<close>

lemma lock_stepE:
  assumes "lock_step c s t"
  obtains (acq) l where "phases s c = Running" "lkcpu (locks s l) = Some c \<longrightarrow> \<not> locked (locks s l)"
      "phases t = (phases s)(c := Spinning l)" "locks t = locks s"
      "cpus t = (cpus s)(c := pushcli (cpus s c))"
  | (fail) l where "phases s c = Spinning l" "locked (locks s l)"
      "phases t = phases s" "locks t = (locks s)(l := (locks s l)\<lparr>locked := True\<rparr>)" "cpus t = cpus s"
  | (win) l where "phases s c = Spinning l" "\<not> locked (locks s l)"
      "phases t = (phases s)(c := Recording l)"
      "locks t = (locks s)(l := (locks s l)\<lparr>locked := True\<rparr>)" "cpus t = cpus s"
  | (own) l where "phases s c = Recording l" "phases t = (phases s)(c := Running)"
      "locks t = (locks s)(l := (locks s l)\<lparr>lkcpu := Some c\<rparr>)" "cpus t = cpus s"
  | (rel) l where "phases s c = Running" "lkcpu (locks s l) = Some c" "locked (locks s l)"
      "phases t = (phases s)(c := Unlocking l)"
      "locks t = (locks s)(l := (locks s l)\<lparr>lkcpu := None\<rparr>)" "cpus t = cpus s"
  | (unlock) l k where "phases s c = Unlocking l" "phases t = (phases s)(c := Running)"
      "locks t = (locks s)(l := (locks s l)\<lparr>locked := False\<rparr>)"
      "popcli (cpus s c) = Inr k" "cpus t = (cpus s)(c := k)"
  | (sti) "phases s c = Running" "ncli (cpus s c) = 0" "phases t = phases s" "locks t = locks s"
      "cpus t = (cpus s)(c := (cpus s c)\<lparr>IF := True\<rparr>)"
  using assms
proof cases
  case (acq l)
  then show ?thesis using that(1) [of l] by (auto simp: lock_step_defs Let_def split: if_splits)
next
  case (spin l)
  then show ?thesis using that(2,3) [of l] by (auto simp: lock_step_defs Let_def split: if_splits)
next
  case (own l)
  then show ?thesis using that(4) [of l] by (auto simp: lock_step_defs)
next
  case (rel l)
  then show ?thesis using that(5) [of l] by (auto simp: lock_step_defs split: if_splits)
next
  case (unlock l)
  then show ?thesis using that(6) [of l]
    by (auto simp: lock_step_defs Let_def split: if_splits sum.splits)
next
  case sti
  then show ?thesis using that(7) by auto
qed

text \<open>What each step does to the ownership of the locks.\<close>

lemma owns_step:
  assumes "lock_step c s t" and "lock_inv s"
  shows "owns t d l \<longleftrightarrow>
    (if d = c \<and> phases s c = Spinning l then \<not> locked (locks s l)
     else if d = c \<and> phases s c = Unlocking l then False
     else owns s d l)"
  using assms(1)
proof (cases rule: lock_stepE)
  case (fail l')
  with lock_invD(5) [OF assms(2) fail(1)] show ?thesis
    by (simp add: owns_def)
next
  case (win l')
  have "lkcpu (locks s l') \<noteq> Some d"
    using win(2) lock_invD(1) [OF assms(2), of d l'] by (auto simp: owns_def)
  with win show ?thesis by (auto simp: owns_def)
next
  case (own l')
  with lock_invD(3) [OF assms(2) own(1)] show ?thesis by (auto simp: owns_def)
next
  case (unlock l' k)
  with lock_invD(4) [OF assms(2) unlock(1)] show ?thesis by (simp add: owns_def)
qed (simp_all add: owns_def)

lemma locked_step:
  assumes "lock_step c s t"
  shows "locked (locks t l) \<longleftrightarrow>
    (if phases s c = Spinning l then True
     else if phases s c = Unlocking l then False else locked (locks s l))"
  using assms by (cases rule: lock_stepE) simp_all

lemma owns_step_locked:
  assumes "lock_step c s t" and "lock_inv s" and "owns t d l"
  shows "locked (locks t l)"
proof (cases "phases s c = Unlocking l")
  case True
  then have "owns s c l" by (simp add: owns_def)
  moreover have "d \<noteq> c" and "owns s d l"
    using True assms(3) by (simp_all add: owns_step [OF assms(1,2)] split: if_splits)
  ultimately show ?thesis using lock_invD(2) [OF assms(2)] by blast
next
  case False
  then have "phases s c = Spinning l \<or> owns s d l"
    using assms(3) by (simp add: owns_step [OF assms(1,2)] split: if_splits)
  with False lock_invD(1) [OF assms(2)] show ?thesis
    by (auto simp: locked_step [OF assms(1)])
qed

text \<open>The phase and owner fields agree after every step.\<close>

lemma phase_owner_step:
  assumes "lock_step c s t" and "lock_inv s"
  shows "(phases t d = Recording l \<or> phases t d = Unlocking l \<longrightarrow> lkcpu (locks t l) = None) \<and>
    (phases t d = Spinning l \<longrightarrow> lkcpu (locks t l) \<noteq> Some d)"
proof -
  have old: "(phases s d = Recording l \<or> phases s d = Unlocking l \<longrightarrow> lkcpu (locks s l) = None) \<and>
    (phases s d = Spinning l \<longrightarrow> lkcpu (locks s l) \<noteq> Some d)"
    using lock_invD(3-5) [OF assms(2)] by blast
  from assms(1) show ?thesis
  proof (cases rule: lock_stepE)
    case (acq l')
    then have "lkcpu (locks s l') \<noteq> Some c"
      using lock_invD(1) [OF assms(2), of c l'] by (simp add: owns_def)
    with acq old show ?thesis by (cases "l' = l") simp_all
  next
    case (win l')
    have "lkcpu (locks s l') \<noteq> Some e" for e
      using win(2) lock_invD(1) [OF assms(2), of e l'] unfolding owns_def by blast
    then have "lkcpu (locks s l') = None" by (metis not_None_eq)
    with win old show ?thesis by simp
  next
    case (own l')
    have "d = c \<or> \<not> (phases s d = Recording l' \<or> phases s d = Unlocking l')"
      using own(1) lock_invD(2) [OF assms(2), of d l' c] unfolding owns_def by blast
    with own old show ?thesis by (cases "d = c") simp_all
  next
    case (fail l')
    with old show ?thesis by (cases "l = l'") simp_all
  next
    case (unlock l' k)
    with old show ?thesis by (cases "l = l'") simp_all
  qed (use old in simp_all)
qed

lemma lock_step_inv:
  assumes "lock_step c s t" and "lock_inv s"
  shows "lock_inv t"
proof -
  have "d = e" if "owns t d l" "owns t e l" for d e l
  proof (cases "phases s c = Spinning l \<and> \<not> locked (locks s l)")
    case True
    then have "\<not> owns s d l" "\<not> owns s e l" using lock_invD(1) [OF assms(2)] by blast+
    with that show ?thesis by (simp add: owns_step [OF assms] split: if_splits)
  next
    case False
    with that have "owns s d l" "owns s e l"
      by (auto simp: owns_step [OF assms] split: if_splits)
    then show ?thesis using lock_invD(2) [OF assms(2)] by blast
  qed
  then show ?thesis
    unfolding lock_inv_def
    using owns_step_locked [OF assms] phase_owner_step [OF assms] by blast
qed

lemma reachable_lock_inv: "reachable s \<Longrightarrow> lock_inv s"
  by (induction rule: reachable.induct) (auto intro: lock_inv_init lock_step_inv)

section \<open>Interrupts are off while a lock is held\<close>

definition owned :: "system \<Rightarrow> nat \<Rightarrow> lockid set" where
  "owned s c = {l. owns s c l}"

definition cli_inv :: "system \<Rightarrow> nat \<Rightarrow> bool" where
  "cli_inv s c \<longleftrightarrow>
     finite (owned s c) \<and>
     ncli (cpus s c) = int (card (owned s c)) + (if spinning s c then 1 else 0) \<and>
     (0 < ncli (cpus s c) \<longrightarrow> \<not> IF (cpus s c))"

lemma pushcli_fields [simp]:
  "ncli (pushcli k) = ncli k + 1" "IF (pushcli k) = False"
  "intena (pushcli k) = (if ncli k = 0 then IF k else intena k)"
  by (simp_all add: pushcli_def Let_def)

lemma popcli_Inr:
  "popcli k = Inr k' \<longleftrightarrow>
     \<not> IF k \<and> 1 \<le> ncli k \<and>
     k' = k\<lparr>ncli := ncli k - 1, IF := (ncli k = 1 \<and> intena k)\<rparr>"
  by (auto simp: popcli_def Let_def)

lemma spinning_not_owns: "lock_inv s \<Longrightarrow> phases s c = Spinning l \<Longrightarrow> \<not> owns s c l"
  using lock_invD(5) [of s c l] by (simp add: owns_def)

lemma owned_step:
  assumes "lock_step c s t" and "lock_inv s"
  shows "owned t d =
    (if d \<noteq> c then owned s d
     else case phases s c of
       Spinning l \<Rightarrow> if locked (locks s l) then owned s c else insert l (owned s c)
     | Unlocking l \<Rightarrow> owned s c - {l}
     | _ \<Rightarrow> owned s c)"
  using lock_invD(1) [OF assms(2)] spinning_not_owns [OF assms(2)]
  by (auto simp: owned_def owns_step [OF assms] split: phase.split if_splits)

lemma cli_inv_step:
  assumes "lock_step c s t" and "lock_inv s" and "cli_inv s d"
  shows "cli_inv t d"
proof (cases "d = c")
  case False
  have "cpus t d = cpus s d \<and> spinning t d = spinning s d"
    using assms(1) by (cases rule: lock_stepE) (simp_all add: spinning_def False)
  with False assms(3) show ?thesis
    by (simp add: cli_inv_def owned_step [OF assms(1,2)])
next
  case [simp]: True
  note o = owned_step [OF assms(1,2), of c]
  from assms(1) show ?thesis
  proof (cases rule: lock_stepE)
    case (win l)
    then have "l \<notin> owned s c"
      using lock_invD(1) [OF assms(2), of c l] by (auto simp: owned_def)
    with win o assms(3) show ?thesis by (simp add: cli_inv_def spinning_def)
  next
    case (unlock l k)
    then have "l \<in> owned s c" by (simp add: owned_def owns_def)
    moreover from this assms(3) have "1 \<le> card (owned s c)"
      using card_gt_0_iff [of "owned s c"] by (auto simp: cli_inv_def)
    ultimately show ?thesis
      using unlock o assms(3) by (auto simp: cli_inv_def spinning_def popcli_Inr of_nat_diff)
  qed (use o assms(3) in \<open>simp_all add: cli_inv_def spinning_def\<close>)
qed

lemma reachable_cli_inv: "reachable s \<Longrightarrow> cli_inv s c"
proof (induction rule: reachable.induct)
  case start
  show ?case
    by (simp add: cli_inv_def init_system_def owned_def owns_def initlock_def spinning_def)
next
  case (step s c' t)
  then show ?case by (blast intro: cli_inv_step reachable_lock_inv)
qed

text \<open>A lock owner has a pending \<^verbatim>\<open>pushcli\<close>, so neither panic of \<^verbatim>\<open>popcli\<close> can occur in \<^verbatim>\<open>release\<close>.\<close>

lemma owner_ncli:
  assumes "reachable s" and "owns s c l"
  shows "1 \<le> ncli (cpus s c)" and "\<not> IF (cpus s c)"
proof -
  have inv: "cli_inv s c" by (rule reachable_cli_inv [OF assms(1)])
  moreover have "owned s c \<noteq> {}" using assms(2) by (auto simp: owned_def)
  ultimately have "1 \<le> card (owned s c)"
    by (simp add: cli_inv_def Suc_le_eq card_gt_0_iff)
  with inv show "1 \<le> ncli (cpus s c)" and "\<not> IF (cpus s c)"
    by (auto simp: cli_inv_def)
qed

text \<open>Nested \<^verbatim>\<open>pushcli\<close> and \<^verbatim>\<open>popcli\<close> are matched: after as many of one as of the other, the
  interrupt flag is what it was.\<close>

fun popclis :: "nat \<Rightarrow> cpu \<Rightarrow> string + cpu" where
  "popclis 0 k = Inr k"
| "popclis (Suc n) k = (case popcli k of Inl e \<Rightarrow> Inl e | Inr k' \<Rightarrow> popclis n k')"

lemma pushcli_pow:
  "ncli ((pushcli ^^ Suc n) k) = ncli k + int (Suc n)"
  "IF ((pushcli ^^ Suc n) k) = False"
  "0 \<le> ncli k \<Longrightarrow> intena ((pushcli ^^ Suc n) k) = (if ncli k = 0 then IF k else intena k)"
  by (induction n) auto

lemma popclis_down:
  "0 \<le> m \<Longrightarrow> ncli k = m + int (Suc n) \<Longrightarrow> \<not> IF k \<Longrightarrow>
   popclis (Suc n) k = Inr (k\<lparr>ncli := m, IF := (m = 0 \<and> intena k)\<rparr>)"
proof (induction n arbitrary: k)
  case 0
  then show ?case by (simp add: popcli_def Let_def)
next
  case (Suc n)
  then have "popcli k = Inr (k\<lparr>ncli := ncli k - 1, IF := False\<rparr>)"
    by (simp add: popcli_Inr)
  with Suc show ?case by simp
qed

section \<open>One CPU's view: the set of held locks\<close>

text \<open>
  Kernel code is written against this view: \<^verbatim>\<open>acquire\<close> returns when the lock is free, so
  the caller sees it succeed unless it already holds the lock, and \<^verbatim>\<open>release\<close> needs it held.
\<close>

record lockst =
  held :: "lockid set"

definition acquire :: "lockid \<Rightarrow> ('z lockst_scheme, unit) kop" where
  "acquire l = bd (gets held) (\<lambda>h.
     if l \<in> h then panic ''acquire'' else modify (\<lambda>s. s\<lparr>held := insert l h\<rparr>))"

definition release :: "lockid \<Rightarrow> ('z lockst_scheme, unit) kop" where
  "release l = bd (gets held) (\<lambda>h.
     if l \<notin> h then panic ''release'' else modify (\<lambda>s. s\<lparr>held := h - {l}\<rparr>))"

lemma acquire_run [kop_simps]:
  "acquire l s = (if l \<in> held s then Panicked ''acquire'' else Done () (s\<lparr>held := insert l (held s)\<rparr>))"
  by (simp add: acquire_def kop_simps)

lemma release_run [kop_simps]:
  "release l s = (if l \<notin> held s then Panicked ''release'' else Done () (s\<lparr>held := held s - {l}\<rparr>))"
  by (simp add: release_def kop_simps)

lemma held_update_same: "held s = h \<Longrightarrow> s\<lparr>held := h\<rparr> = s"
  by auto

text \<open>The locks CPU \<open>c\<close> has acquired and not begun to release.\<close>

definition held_by :: "nat \<Rightarrow> system \<Rightarrow> lockid set" where
  "held_by c s = {l. lkcpu (locks s l) = Some c}"

lemma holding_held_by: "lock_inv s \<Longrightarrow> holding c (locks s l) \<longleftrightarrow> l \<in> held_by c s"
  using lock_invD(1) [of s c l] by (auto simp: holding_def held_by_def owns_def)

lemma held_by_ncli:
  assumes "reachable s" and "phases s c = Running"
  shows "ncli (cpus s c) = int (card (held_by c s))"
proof -
  have "owned s c = held_by c s"
    using assms(2) by (auto simp: owned_def owns_def held_by_def)
  then show ?thesis
    using reachable_cli_inv [OF assms(1), of c] assms(2) by (simp add: cli_inv_def spinning_def)
qed

text \<open>
  A step of CPU \<open>d\<close> is, in the view of CPU \<open>c\<close>, either invisible or one of its own
  \<^verbatim>\<open>acquire\<close> and \<^verbatim>\<open>release\<close> calls taking effect.
\<close>

lemma held_by_step:
  assumes "lock_step d s t" and "lock_inv s"
  shows "held_by c t = held_by c s \<or>
    (d = c \<and> (\<exists>l. acquire l \<lparr>held = held_by c s\<rparr> = Done () \<lparr>held = held_by c t\<rparr>)) \<or>
    (d = c \<and> (\<exists>l. release l \<lparr>held = held_by c s\<rparr> = Done () \<lparr>held = held_by c t\<rparr>))"
  using assms(1)
proof (cases rule: lock_stepE)
  case (own l)
  then have none: "lkcpu (locks s l) = None" using lock_invD(3) [OF assms(2)] by blast
  show ?thesis
  proof (cases "d = c")
    case True
    have "held_by c t = insert l (held_by c s)" and "l \<notin> held_by c s"
      using True own none by (auto simp: held_by_def)
    then have "acquire l \<lparr>held = held_by c s\<rparr> = Done () \<lparr>held = held_by c t\<rparr>"
      by (simp add: acquire_run)
    with True show ?thesis by blast
  next
    case False
    with own none have "held_by c t = held_by c s" by (auto simp: held_by_def)
    then show ?thesis ..
  qed
next
  case (rel l)
  show ?thesis
  proof (cases "d = c")
    case True
    have "held_by c t = held_by c s - {l}" and "l \<in> held_by c s"
      using True rel by (auto simp: held_by_def)
    then have "release l \<lparr>held = held_by c s\<rparr> = Done () \<lparr>held = held_by c t\<rparr>"
      by (simp add: release_run)
    with True show ?thesis by blast
  next
    case False
    with rel have "held_by c t = held_by c s" by (auto simp: held_by_def)
    then show ?thesis ..
  qed
qed (auto simp: held_by_def)

section \<open>The lock interface\<close>

text \<open>
  What the other components rely on: acquiring a free lock adds it to the held set,
  releasing a held lock removes it, and misuse panics. A critical section whose body
  leaves the held set alone leaves it unchanged as a whole.
\<close>

locale mutex =
  fixes acq rel :: "'l \<Rightarrow> ('s, unit) kop"
    and hset :: "'s \<Rightarrow> 'l set"
    and setheld :: "'l set \<Rightarrow> 's \<Rightarrow> 's"
  assumes acq_free: "l \<notin> hset s \<Longrightarrow> acq l s = Done () (setheld (insert l (hset s)) s)"
    and acq_held: "l \<in> hset s \<Longrightarrow> acq l s = Panicked ''acquire''"
    and rel_held: "l \<in> hset s \<Longrightarrow> rel l s = Done () (setheld (hset s - {l}) s)"
    and rel_free: "l \<notin> hset s \<Longrightarrow> rel l s = Panicked ''release''"
    and hset_setheld: "hset (setheld h s) = h"
    and setheld_setheld: "setheld h (setheld h' s) = setheld h s"
begin

lemma section_run:
  assumes "l \<notin> hset s" and "body (setheld (insert l (hset s)) s) = Done r t"
    and "hset t = insert l (hset s)"
  shows "bd (acq l) (\<lambda>_. bd body (\<lambda>r. bd (rel l) (\<lambda>_. ret r))) s = Done r (setheld (hset s) t)"
  using assms by (simp add: acq_free rel_held bd_run)

lemma section_held:
  assumes run: "bd (acq l) (\<lambda>_. bd body (\<lambda>r. bd (rel l) (\<lambda>_. ret r))) s = Done r t"
    and frame: "\<And>u r v. body u = Done r v \<Longrightarrow> hset v = hset u"
  shows "hset t = hset s"
proof -
  have free: "l \<notin> hset s"
    using run acq_held by (cases "l \<in> hset s") (auto simp: bd_run)
  then obtain v where v: "body (setheld (insert l (hset s)) s) = Done r v"
    and t: "bd (rel l) (\<lambda>_. ret r) v = Done r t"
    using run by (auto simp: acq_free bd_eq_Done)
  have hv: "hset v = insert l (hset s)" using frame [OF v] by (simp add: hset_setheld)
  then have "t = setheld (hset s) v"
    using t free rel_held [of l v] by (simp add: bd_run)
  then show ?thesis by (simp add: hset_setheld)
qed

end

interpretation lk: mutex acquire release held "\<lambda>h s. s\<lparr>held := h\<rparr>"
  by unfold_locales (simp_all add: acquire_run release_run)

section \<open>Properties\<close>

text \<open>A reachable state in which CPU 0 is inside a critical section of \<^verbatim>\<open>ptable.lock\<close>.\<close>

definition locked_once :: system where
  "locked_once =
     (case acquire_enter 0 LPtable init_system of
        Inl _ \<Rightarrow> init_system
      | Inr s \<Rightarrow> acquire_record 0 LPtable (acquire_xchg 0 LPtable s))"

lemma locked_once_reachable: "reachable locked_once"
proof -
  obtain s where s: "acquire_enter 0 LPtable init_system = Inr s"
    by (simp add: acquire_enter_def Let_def init_system_def initlock_def holding_def)
  then have ph: "phases s 0 = Spinning LPtable" "\<not> locked (locks s LPtable)"
    by (auto simp: acquire_enter_def Let_def init_system_def initlock_def holding_def)
  have "reachable s"
    by (rule reachable.step [OF reachable.start lock_step.acq]) (use s in \<open>simp_all add: init_system_def\<close>)
  then have "reachable (acquire_xchg 0 LPtable s)"
    using lock_step.spin [OF ph(1)] by (rule reachable.step)
  moreover have "phases (acquire_xchg 0 LPtable s) 0 = Recording LPtable"
    using ph by (simp add: acquire_xchg_def Let_def)
  ultimately have "reachable (acquire_record 0 LPtable (acquire_xchg 0 LPtable s))"
    using lock_step.own by (blast intro: reachable.step)
  with s show ?thesis by (simp add: locked_once_def)
qed

lemma locked_once_fields:
  "owns locked_once 0 LPtable" "phases locked_once 0 = Running"
  "holding 0 (locks locked_once LPtable)" "held_by 0 locked_once = {LPtable}"
  by (auto simp: locked_once_def acquire_enter_def acquire_xchg_def acquire_record_def Let_def
      init_system_def initlock_def holding_def owns_def held_by_def)

text \<open>
  C2: Mutual exclusion. In every reachable state of any number of CPUs at most one CPU is
  between the \<^verbatim>\<open>xchg\<close> of \<^verbatim>\<open>acquire\<close> and the \<^verbatim>\<open>xchg\<close> of \<^verbatim>\<open>release\<close> on a given lock, the lock word is set
  as long as one is, and that CPU has interrupts off with a positive \<^verbatim>\<open>ncli\<close>.
\<close>

theorem lock_mutual_exclusion:
  assumes "reachable s" and "owns s c l"
  shows "(\<forall>d. owns s d l \<longleftrightarrow> d = c) \<and> locked (locks s l) \<and>
    0 < ncli (cpus s c) \<and> \<not> IF (cpus s c)"
proof -
  have inv: "lock_inv s" by (rule reachable_lock_inv [OF assms(1)])
  have "locked (locks s l)" using lock_invD(1) [OF inv] assms(2) by blast
  moreover have "owns s d l \<longleftrightarrow> d = c" for d
    using lock_invD(2) [OF inv] assms(2) by blast
  ultimately show ?thesis
    using owner_ncli [OF assms] by simp
qed

theorem lock_mutual_exclusion_witness:
  "\<not> owns locked_once 1 LPtable \<and> \<not> IF (cpus locked_once 0)"
  using lock_mutual_exclusion [OF locked_once_reachable locked_once_fields(1)] by simp

text \<open>
  \<^verbatim>\<open>release\<close> of a lock the CPU holds always completes: neither its own check nor the two
  panics of \<^verbatim>\<open>popcli\<close> can fire, the lock is free afterwards and the CPU holds all its other locks.
\<close>

theorem release_completes:
  assumes "reachable s" and "phases s c = Running" and "holding c (locks s l)"
  shows "\<exists>t u. release_enter c l s = Inr t \<and> release_xchg c l t = Inr u \<and>
    \<not> locked (locks u l) \<and> phases u c = Running \<and> held_by c u = held_by c s - {l}"
proof -
  define t where "t = s\<lparr>locks := (locks s)(l := (locks s l)\<lparr>lkcpu := None\<rparr>),
                  phases := (phases s)(c := Unlocking l)\<rparr>"
  have "owns s c l" using assms(3) by (simp add: holding_def owns_def)
  then have "1 \<le> ncli (cpus t c)" "\<not> IF (cpus t c)"
    using owner_ncli [OF assms(1)] by (simp_all add: t_def)
  then obtain k where k: "popcli (cpus t c) = Inr k" by (simp add: popcli_Inr)
  define u where "u = t\<lparr>locks := (locks t)(l := (locks t l)\<lparr>locked := False\<rparr>),
      cpus := (cpus t)(c := k), phases := (phases t)(c := Running)\<rparr>"
  have "release_enter c l s = Inr t" using assms(3) by (simp add: release_enter_def t_def)
  moreover have "release_xchg c l t = Inr u" using k by (simp add: release_xchg_def Let_def u_def)
  moreover have "\<not> locked (locks u l)" "phases u c = Running" by (simp_all add: u_def)
  moreover have "held_by c u = held_by c s - {l}"
    by (auto simp: held_by_def u_def t_def)
  ultimately show ?thesis by blast
qed

theorem release_completes_witness:
  "\<exists>t u. release_enter 0 LPtable locked_once = Inr t \<and> release_xchg 0 LPtable t = Inr u \<and>
    held_by 0 u = {}"
  using release_completes [OF locked_once_reachable locked_once_fields(2,3)] locked_once_fields(4)
  by auto

text \<open>
  C35: The interrupt disabling of \<^verbatim>\<open>pushcli\<close> and \<^verbatim>\<open>popcli\<close> nests: any number of \<^verbatim>\<open>pushcli\<close> calls turns
  interrupts off, and the same number of \<^verbatim>\<open>popcli\<close> calls restores the nesting depth and the
  interrupt flag that were there before, without a panic.
\<close>

theorem pushcli_popcli_match:
  assumes "0 \<le> ncli k" and "0 < ncli k \<longrightarrow> \<not> IF k"
  shows "\<not> IF ((pushcli ^^ Suc n) k) \<and>
    (\<exists>k'. popclis (Suc n) ((pushcli ^^ Suc n) k) = Inr k' \<and> ncli k' = ncli k \<and> IF k' = IF k)"
proof -
  let ?p = "(pushcli ^^ Suc n) k"
  have p: "\<not> IF ?p" "ncli ?p = ncli k + int (Suc n)"
    using pushcli_pow(1,2) [of n k] by blast+
  have "popclis (Suc n) ?p = Inr (?p\<lparr>ncli := ncli k, IF := (ncli k = 0 \<and> intena ?p)\<rparr>)"
    by (rule popclis_down) (use assms(1) p in simp_all)
  moreover have "(ncli k = 0 \<and> intena ?p) = IF k"
    using pushcli_pow(3) [OF assms(1), of n] assms by (cases "ncli k = 0") simp_all
  ultimately show ?thesis using p(1) by simp
qed

theorem pushcli_popcli_match_witness:
  "\<exists>k'. popclis 3 ((pushcli ^^ 3) \<lparr>ncli = 0, intena = False, IF = True\<rparr>) = Inr k' \<and> IF k'"
  using pushcli_popcli_match [of "\<lparr>ncli = 0, intena = False, IF = True\<rparr>" 2]
  by (auto simp: numeral_3_eq_3)

text \<open>
  C31: The held-set view refines the multiprocessor locks. In a reachable state the test
  \<^verbatim>\<open>holding\<close> is membership in the CPU's held set, a CPU outside \<^verbatim>\<open>acquire\<close> and \<^verbatim>\<open>release\<close> has
  \<^verbatim>\<open>ncli\<close> equal to the size of that set, and a step of any CPU changes the set of CPU \<open>c\<close> only as
  an \<^verbatim>\<open>acquire\<close> or a \<^verbatim>\<open>release\<close> of \<open>c\<close> itself does.
\<close>

theorem held_view_refines:
  assumes "reachable s" and "lock_step d s t"
  shows "(\<forall>l. holding c (locks s l) = (l \<in> held_by c s)) \<and>
    (phases s c = Running \<longrightarrow> ncli (cpus s c) = int (card (held_by c s))) \<and>
    (held_by c t = held_by c s \<or>
     (d = c \<and> (\<exists>l. acquire l \<lparr>held = held_by c s\<rparr> = Done () \<lparr>held = held_by c t\<rparr>)) \<or>
     (d = c \<and> (\<exists>l. release l \<lparr>held = held_by c s\<rparr> = Done () \<lparr>held = held_by c t\<rparr>)))"
  using holding_held_by [OF reachable_lock_inv [OF assms(1)]] held_by_ncli [OF assms(1)]
    held_by_step [OF assms(2) reachable_lock_inv [OF assms(1)], of c]
  by blast

theorem held_view_refines_witness:
  "\<exists>t. lock_step 0 locked_once t \<and> ncli (cpus locked_once 0) = 1"
proof -
  obtain t where "release_enter 0 LPtable locked_once = Inr t"
    using locked_once_fields(3) by (simp add: release_enter_def)
  then have "lock_step 0 locked_once t" by (rule lock_step.rel [OF locked_once_fields(2)])
  with held_view_refines [OF locked_once_reachable this, of 0] locked_once_fields(2,4)
  show ?thesis by auto
qed

end
