(* ===== verification/Sched.thy ===== *)
theory Sched
  imports Spinlock
begin

text \<open>
  The process table of \<^verbatim>\<open>proc.c\<close> and the operations every sleeping or waking component calls:
  \<^verbatim>\<open>sched\<close>, \<^verbatim>\<open>yield\<close>, \<^verbatim>\<open>sleep\<close>, \<^verbatim>\<open>wakeup\<close>, \<^verbatim>\<open>kill\<close> and one dispatch of \<^verbatim>\<open>scheduler\<close>. Pointers into
  the process table are indices; a call to \<^verbatim>\<open>swtch\<close> ends the caller's part of the operation with
  the outcome \<open>Switched\<close>, and what the process does when it is switched back is a separate
  operation.
\<close>

section \<open>Processes\<close>

datatype procstate = UNUSED | EMBRYO | SLEEPING | RUNNABLE | RUNNING | ZOMBIE

text \<open>A sleep channel is the address of the object slept on.\<close>

datatype chan =
    ChanBuf nat
  | ChanInode nat
  | ChanLog
  | ChanProc nat
  | ChanPipeRead u32
  | ChanPipeWrite u32
  | ChanTicks
  | ChanInput

record trapframe =
  tf_edi :: u32
  tf_esi :: u32
  tf_ebp :: u32
  tf_oesp :: u32
  tf_ebx :: u32
  tf_edx :: u32
  tf_ecx :: u32
  tf_eax :: u32
  tf_gs :: u16
  tf_fs :: u16
  tf_es :: u16
  tf_ds :: u16
  tf_trapno :: u32
  tf_err :: u32
  tf_eip :: u32
  tf_cs :: u16
  tf_eflags :: u32
  tf_esp :: u32
  tf_ss :: u16

record swtch_context =
  cx_edi :: u32
  cx_esi :: u32
  cx_ebx :: u32
  cx_ebp :: u32
  cx_eip :: u32

record proc =
  sz :: u32
  pgdir :: u32
  kstack :: u32
  state :: procstate
  pid :: int
  parent :: "nat option"
  tf :: trapframe
  ctx :: swtch_context
  chan :: "chan option"
  killed :: bool
  ofile :: "nat option list"
  cwd :: "nat option"
  pname :: bytes

record ptst = lockst +
  ptable :: "proc list"
  initproc :: "nat option"
  nextpid :: int
  curproc :: "nat option"
  cr3 :: u32
  ts_esp0 :: u32
  kpgdir :: u32

text \<open>The static table is zeroed memory: every slot is unused and has pid 0 and no files.\<close>

definition zero_proc :: proc where
  "zero_proc = \<lparr>sz = 0, pgdir = 0, kstack = 0, state = UNUSED, pid = 0, parent = None,
     tf = \<lparr>tf_edi = 0, tf_esi = 0, tf_ebp = 0, tf_oesp = 0, tf_ebx = 0, tf_edx = 0, tf_ecx = 0,
       tf_eax = 0, tf_gs = 0, tf_fs = 0, tf_es = 0, tf_ds = 0, tf_trapno = 0, tf_err = 0,
       tf_eip = 0, tf_cs = 0, tf_eflags = 0, tf_esp = 0, tf_ss = 0\<rparr>,
     ctx = \<lparr>cx_edi = 0, cx_esi = 0, cx_ebx = 0, cx_ebp = 0, cx_eip = 0\<rparr>,
     chan = None, killed = False, ofile = replicate NOFILE None, cwd = None,
     pname = replicate 16 0\<rparr>"

definition boot_ptable :: ptst where
  "boot_ptable = \<lparr>held = {}, ptable = replicate NPROC zero_proc, initproc = None, nextpid = 1,
     curproc = None, cr3 = 0, ts_esp0 = 0, kpgdir = 0\<rparr>"

definition upd_proc :: "nat \<Rightarrow> (proc \<Rightarrow> proc) \<Rightarrow> 'z ptst_scheme \<Rightarrow> 'z ptst_scheme" where
  "upd_proc i f s = s\<lparr>ptable := (ptable s)[i := f (ptable s ! i)]\<rparr>"

section \<open>Waking and killing\<close>

text \<open>\<^verbatim>\<open>wakeup1\<close> goes through the slots of the table one after the other; \<open>wakeup_slot\<close> is the body of its loop.\<close>

definition wakeup_slot :: "chan \<Rightarrow> nat \<Rightarrow> ('z ptst_scheme, unit) kop" where
  "wakeup_slot c i =
     bd (gets (\<lambda>s. ptable s ! i)) (\<lambda>p.
     whenk (state p = SLEEPING \<and> chan p = Some c) (modify (upd_proc i (\<lambda>p. p\<lparr>state := RUNNABLE\<rparr>))))"

definition wakeup1 :: "chan \<Rightarrow> ('z ptst_scheme, unit) kop" where
  "wakeup1 c =
     bd (gets (\<lambda>s. length (ptable s))) (\<lambda>n.
     foreach [0..<n] (wakeup_slot c))"

definition wakeup :: "chan \<Rightarrow> ('z ptst_scheme, unit) kop" where
  "wakeup c = bd (acquire LPtable) (\<lambda>_. bd (wakeup1 c) (\<lambda>_. release LPtable))"

text \<open>The index of the first process that satisfies a test, as the table scans find it.\<close>

fun find_proc :: "(proc \<Rightarrow> bool) \<Rightarrow> nat \<Rightarrow> proc list \<Rightarrow> nat option" where
  "find_proc P i [] = None"
| "find_proc P i (p # ps) = (if P p then Some i else find_proc P (Suc i) ps)"

definition kill :: "int \<Rightarrow> ('z ptst_scheme, int) kop" where
  "kill n =
     bd (acquire LPtable) (\<lambda>_.
     bd (gets (\<lambda>s. find_proc (\<lambda>p. pid p = n) 0 (ptable s))) (\<lambda>f.
     case f of
       Some i \<Rightarrow>
         bd (modify (upd_proc i (\<lambda>p. p\<lparr>killed := True\<rparr>))) (\<lambda>_.
         bd (gets (\<lambda>s. state (ptable s ! i))) (\<lambda>st.
         bd (whenk (st = SLEEPING) (modify (upd_proc i (\<lambda>p. p\<lparr>state := RUNNABLE\<rparr>)))) (\<lambda>_.
         bd (release LPtable) (\<lambda>_. ret 0))))
     | None \<Rightarrow> bd (release LPtable) (\<lambda>_. ret (- 1))))"

section \<open>Giving up the CPU\<close>

text \<open>
  \<^verbatim>\<open>sched\<close>: its checks, then the switch. \<^verbatim>\<open>cpu->ncli\<close> is the number of held locks
  (\<open>held_by_ncli\<close>), and the check that interrupts are off cannot fail once
  \<^verbatim>\<open>ptable.lock\<close> is held (\<open>owner_ncli\<close>).
\<close>

definition sched :: "('z ptst_scheme, unit) kop" where
  "sched s =
     (if LPtable \<notin> held s then Panicked ''sched ptable.lock''
      else if card (held s) \<noteq> 1 then Panicked ''sched locks''
      else case curproc s of
        None \<Rightarrow> Fault
      | Some i \<Rightarrow> if state (ptable s ! i) = RUNNING then Panicked ''sched running''
                 else Switched s)"

definition yield :: "('z ptst_scheme, unit) kop" where
  "yield =
     bd (acquire LPtable) (\<lambda>_.
     bd (gets curproc) (\<lambda>c. case c of
       None \<Rightarrow> (\<lambda>_. Fault)
     | Some i \<Rightarrow>
         bd (modify (upd_proc i (\<lambda>p. p\<lparr>state := RUNNABLE\<rparr>))) (\<lambda>_. sched)))"

text \<open>The rest of \<^verbatim>\<open>yield\<close>, when the process runs again.\<close>

definition yield_resume :: "('z ptst_scheme, unit) kop" where
  "yield_resume = release LPtable"

definition sleep :: "chan \<Rightarrow> lockid \<Rightarrow> ('z ptst_scheme, unit) kop" where
  "sleep ch lk =
     bd (gets curproc) (\<lambda>c. case c of
       None \<Rightarrow> panic ''sleep''
     | Some i \<Rightarrow>
         bd (whenk (lk \<noteq> LPtable) (bd (acquire LPtable) (\<lambda>_. release lk))) (\<lambda>_.
         bd (modify (upd_proc i (\<lambda>p. p\<lparr>chan := Some ch\<rparr>))) (\<lambda>_.
         bd (modify (upd_proc i (\<lambda>p. p\<lparr>state := SLEEPING\<rparr>))) (\<lambda>_.
         sched))))"

text \<open>The rest of \<^verbatim>\<open>sleep\<close>, when the process runs again: tidy up and reacquire the lock.\<close>

definition sleep_resume :: "lockid \<Rightarrow> ('z ptst_scheme, unit) kop" where
  "sleep_resume lk =
     bd (gets curproc) (\<lambda>c. case c of
       None \<Rightarrow> (\<lambda>_. Fault)
     | Some i \<Rightarrow>
         bd (modify (upd_proc i (\<lambda>p. p\<lparr>chan := None\<rparr>))) (\<lambda>_.
         whenk (lk \<noteq> LPtable) (bd (release LPtable) (\<lambda>_. acquire lk))))"

section \<open>Scheduling\<close>

text \<open>
  \<^verbatim>\<open>switchuvm\<close> and \<^verbatim>\<open>switchkvm\<close> of \<^verbatim>\<open>vm.c\<close>: the kernel stack the next trap will use and the page
  table register. (The constant part of the task state descriptor is not kept.)
\<close>

definition switchuvm :: "nat \<Rightarrow> ('z ptst_scheme, unit) kop" where
  "switchuvm i =
     bd (gets curproc) (\<lambda>c. case c of
       None \<Rightarrow> (\<lambda>_. Fault)
     | Some j \<Rightarrow>
         bd (modify (\<lambda>s. s\<lparr>ts_esp0 := kstack (ptable s ! j) + of_nat KSTACKSIZE\<rparr>)) (\<lambda>_.
         bd (gets (\<lambda>s. pgdir (ptable s ! i))) (\<lambda>d.
         if d = 0 then panic ''switchuvm: no pgdir''
         else modify (\<lambda>s. s\<lparr>cr3 := v2p d\<rparr>))))"

definition switchkvm :: "('z ptst_scheme, unit) kop" where
  "switchkvm = modify (\<lambda>s. s\<lparr>cr3 := v2p (kpgdir s)\<rparr>)"

text \<open>
  \<^verbatim>\<open>scheduler\<close>: the scan of one pass over the table from slot \<open>k\<close> looks for a runnable process
  and switches to it; when the process switches back, \<^verbatim>\<open>proc\<close> is cleared and the scan goes on
  behind it.
\<close>

definition scheduler_dispatch :: "nat \<Rightarrow> ('z ptst_scheme, nat option) kop" where
  "scheduler_dispatch k =
     bd (gets (\<lambda>s. find_proc (\<lambda>p. state p = RUNNABLE) k (drop k (ptable s)))) (\<lambda>f.
     case f of
       None \<Rightarrow> ret None
     | Some i \<Rightarrow>
         bd (modify (\<lambda>s. s\<lparr>curproc := Some i\<rparr>)) (\<lambda>_.
         bd (switchuvm i) (\<lambda>_.
         bd (modify (upd_proc i (\<lambda>p. p\<lparr>state := RUNNING\<rparr>))) (\<lambda>_.
         ret (Some i)))))"

definition scheduler_back :: "('z ptst_scheme, unit) kop" where
  "scheduler_back = bd switchkvm (\<lambda>_. modify (\<lambda>s. s\<lparr>curproc := None\<rparr>))"

section \<open>Behaviour\<close>

lemma upd_proc_fields [simp]:
  "held (upd_proc i f s) = held s" "initproc (upd_proc i f s) = initproc s"
  "nextpid (upd_proc i f s) = nextpid s" "curproc (upd_proc i f s) = curproc s"
  "ptable (upd_proc i f s) = (ptable s)[i := f (ptable s ! i)]"
  "cr3 (upd_proc i f s) = cr3 s" "ts_esp0 (upd_proc i f s) = ts_esp0 s"
  "kpgdir (upd_proc i f s) = kpgdir s" "ptst.more (upd_proc i f s) = ptst.more s"
  by (simp_all add: upd_proc_def)

lemma find_proc_Some:
  "find_proc P k ps = Some i \<longleftrightarrow>
     k \<le> i \<and> i - k < length ps \<and> P (ps ! (i - k)) \<and> (\<forall>j < i - k. \<not> P (ps ! j))"
proof (induction ps arbitrary: k)
  case (Cons p ps)
  show ?case
  proof (cases "P p")
    case True
    then show ?thesis by (auto simp: nth_Cons' split: if_splits)
  next
    case False
    have "i - k < length (p # ps) \<and> P ((p # ps) ! (i - k)) \<and> (\<forall>j < i - k. \<not> P ((p # ps) ! j)) \<and> k \<le> i
      \<longleftrightarrow> Suc k \<le> i \<and> i - Suc k < length ps \<and> P (ps ! (i - Suc k)) \<and> (\<forall>j < i - Suc k. \<not> P (ps ! j))"
    proof (cases "i - k")
      case 0
      with False show ?thesis by auto
    next
      case (Suc m)
      then have "i - Suc k = m" "Suc k \<le> i" by auto
      with Suc False show ?thesis by (auto simp: All_less_Suc2)
    qed
    with Cons False show ?thesis by auto
  qed
qed simp

lemma find_proc_None: "find_proc P k ps = None \<longleftrightarrow> (\<forall>p \<in> set ps. \<not> P p)"
  by (induction ps arbitrary: k) auto

text \<open>After the first \<open>k\<close> rounds of the loop of \<^verbatim>\<open>wakeup1\<close> the first \<open>k\<close> slots are served.\<close>

lemma wakeup_slots_run:
  assumes "k \<le> length (ptable s)"
  shows "foreach [0..<k] (wakeup_slot c) s = Done () (s\<lparr>ptable := map (\<lambda>p.
    if state p = SLEEPING \<and> chan p = Some c then p\<lparr>state := RUNNABLE\<rparr> else p) (take k (ptable s)) @ drop k (ptable s)\<rparr>)"
  using assms
proof (induction k)
  case (Suc k)
  then have k: "k < length (ptable s)" "drop k (ptable s) = ptable s ! k # drop (Suc k) (ptable s)"
    by (simp_all add: Cons_nth_drop_Suc)
  then show ?case
    using Suc.IH Suc.prems
    by (simp add: foreach_append bd_run wakeup_slot_def upd_proc_def take_Suc_conv_app_nth nth_append min_def list_update_append)
qed simp

lemma wakeup1_run:
  "wakeup1 c s = Done () (s\<lparr>ptable := map (\<lambda>p.
     if state p = SLEEPING \<and> chan p = Some c then p\<lparr>state := RUNNABLE\<rparr> else p) (ptable s)\<rparr>)"
  by (simp add: wakeup1_def bd_run wakeup_slots_run)

lemma wakeup_run [kop_simps]:
  "wakeup c s = (if LPtable \<in> held s then Panicked ''acquire''
     else Done () (s\<lparr>ptable := map (\<lambda>p.
       if state p = SLEEPING \<and> chan p = Some c then p\<lparr>state := RUNNABLE\<rparr> else p) (ptable s)\<rparr>))"
  by (simp add: wakeup_def wakeup1_run kop_simps insert_Diff_if)

lemma card_one_lock: "l \<in> h \<Longrightarrow> card h = 1 \<longleftrightarrow> h = {l}"
  by (metis card_1_singletonE is_singletonI is_singleton_altdef singletonD)

lemma swap_singleton:
  assumes "a \<noteq> b" and "a \<notin> H" and "b \<in> H"
  shows "insert a H - {b} = {a} \<longleftrightarrow> H = {b}"
proof
  assume e: "insert a H - {b} = {a}"
  have "x = b" if "x \<in> H" for x
  proof (rule ccontr)
    assume "x \<noteq> b"
    with that have "x \<in> insert a H - {b}" by simp
    with e that assms(2) show False by simp
  qed
  with assms(3) show "H = {b}" by blast
qed (use assms in auto)

lemma sched_run:
  assumes "curproc s = Some i" and "LPtable \<in> held s" and "state (ptable s ! i) \<noteq> RUNNING"
  shows "sched s = (if held s = {LPtable} then Switched s else Panicked ''sched locks'')"
  using assms card_one_lock [OF assms(2)] by (simp add: sched_def)

lemma sleep_run:
  assumes cur: "curproc s = Some i" and i: "i < length (ptable s)" and lk: "lk \<in> held s"
    and pt: "LPtable \<in> held s \<longrightarrow> lk = LPtable"
  shows "sleep ch lk s =
    (if held s = {lk}
     then Switched (s\<lparr>held := {LPtable},
       ptable := (ptable s)[i := (ptable s ! i)\<lparr>chan := Some ch, state := SLEEPING\<rparr>]\<rparr>)
     else Panicked ''sched locks'')"
proof -
  define h where "h = (if lk = LPtable then held s else insert LPtable (held s) - {lk})"
  define ps where "ps = (ptable s)[i := (ptable s ! i)\<lparr>chan := Some ch, state := SLEEPING\<rparr>]"
  have "LPtable \<in> h" using lk by (cases "lk = LPtable") (simp_all add: h_def)
  then have "sched (s\<lparr>held := h, ptable := ps\<rparr>) =
      (if h = {LPtable} then Switched (s\<lparr>held := h, ptable := ps\<rparr>) else Panicked ''sched locks'')"
    using cur i by (subst sched_run [of _ i]) (simp_all add: ps_def)
  moreover have "sleep ch lk s = sched (s\<lparr>held := h, ptable := ps\<rparr>)"
    using cur i lk pt by (simp add: sleep_def kop_simps upd_proc_def h_def ps_def)
  ultimately have run: "sleep ch lk s =
      (if h = {LPtable} then Switched (s\<lparr>held := h, ptable := ps\<rparr>) else Panicked ''sched locks'')"
    by (simp only:)
  have "h = {LPtable} \<longleftrightarrow> held s = {lk}"
    using lk pt swap_singleton [of LPtable lk "held s"]
    by (cases "lk = LPtable") (simp_all add: h_def)
  then show ?thesis
    by (cases "held s = {lk}") (simp_all only: run ps_def simp_thms if_True if_False)
qed

lemma sleep_resume_run:
  assumes "curproc s = Some i" and "held s = {LPtable}"
  shows "sleep_resume lk s = Done () (s\<lparr>held := {lk},
    ptable := (ptable s)[i := (ptable s ! i)\<lparr>chan := None\<rparr>]\<rparr>)"
  using assms by (simp add: sleep_resume_def kop_simps upd_proc_def)

lemma kill_run:
  assumes free: "LPtable \<notin> held s"
  shows "kill n s = (case find_proc (\<lambda>p. pid p = n) 0 (ptable s) of
      None \<Rightarrow> Done (- 1) s
    | Some i \<Rightarrow> Done 0 (s\<lparr>ptable := (ptable s)[i := (ptable s ! i)\<lparr>killed := True,
        state := (if state (ptable s ! i) = SLEEPING then RUNNABLE else state (ptable s ! i))\<rparr>]\<rparr>))"
proof (cases "find_proc (\<lambda>p. pid p = n) 0 (ptable s)")
  case None
  with free show ?thesis by (simp add: kill_def kop_simps insert_Diff_if)
next
  case (Some i)
  then have "i < length (ptable s)" by (simp add: find_proc_Some)
  with Some free show ?thesis
    by (simp add: kill_def kop_simps upd_proc_def insert_Diff_if)
qed

lemma scheduler_dispatch_run:
  assumes "scheduler_dispatch k s = Done (Some i) t"
  shows "k \<le> i \<and> i < length (ptable s) \<and> state (ptable s ! i) = RUNNABLE \<and>
    (\<forall>j. k \<le> j \<and> j < i \<longrightarrow> state (ptable s ! j) \<noteq> RUNNABLE) \<and>
    t = s\<lparr>curproc := Some i, ts_esp0 := kstack (ptable s ! i) + of_nat KSTACKSIZE,
          cr3 := v2p (pgdir (ptable s ! i)),
          ptable := (ptable s)[i := (ptable s ! i)\<lparr>state := RUNNING\<rparr>]\<rparr>"
proof -
  let ?f = "find_proc (\<lambda>p. state p = RUNNABLE) k (drop k (ptable s))"
  from assms have f: "?f = Some i"
    and t: "t = s\<lparr>curproc := Some i, ts_esp0 := kstack (ptable s ! i) + of_nat KSTACKSIZE,
          cr3 := v2p (pgdir (ptable s ! i)),
          ptable := (ptable s)[i := (ptable s ! i)\<lparr>state := RUNNING\<rparr>]\<rparr>"
    by (auto simp: scheduler_dispatch_def switchuvm_def bd_eq_Done upd_proc_def
        split: option.splits if_splits)
  from f have i: "k \<le> i" "i - k < length (ptable s) - k" "state (drop k (ptable s) ! (i - k)) = RUNNABLE"
    and first: "\<forall>j < i - k. state (drop k (ptable s) ! j) \<noteq> RUNNABLE"
    by (simp_all add: find_proc_Some)
  have "state (ptable s ! j) \<noteq> RUNNABLE" if "k \<le> j" "j < i" for j
    using first [rule_format, of "j - k"] that i by simp
  with i t show ?thesis by auto
qed

section \<open>Properties\<close>

text \<open>A table whose first process runs and whose second one sleeps, for the examples.\<close>

definition two_procs :: ptst where
  "two_procs = boot_ptable\<lparr>held := {LTicks}, curproc := Some 0,
     ptable := [zero_proc\<lparr>state := RUNNING, pid := 1\<rparr>,
                zero_proc\<lparr>state := SLEEPING, pid := 2, chan := Some ChanTicks, pgdir := 0x80001000\<rparr>]\<rparr>"

lemma two_procs_fields:
  "held two_procs = {LTicks}" "curproc two_procs = Some 0"
  "ptable two_procs = [zero_proc\<lparr>state := RUNNING, pid := 1\<rparr>,
     zero_proc\<lparr>state := SLEEPING, pid := 2, chan := Some ChanTicks, pgdir := 0x80001000\<rparr>]"
  by (simp_all add: two_procs_def)

text \<open>
  C33: \<^verbatim>\<open>sleep\<close> with exactly the lock \<^verbatim>\<open>lk\<close> held marks the calling process as sleeping on the
  channel and switches to the scheduler with \<^verbatim>\<open>ptable.lock\<close> as the only held lock; no other process
  changes. Called with any further lock held it does not switch but panics in \<^verbatim>\<open>sched\<close>.
\<close>

theorem sleep_gives_up_cpu:
  assumes "curproc s = Some i" and "i < length (ptable s)" and "lk \<in> held s"
    and "LPtable \<in> held s \<longrightarrow> lk = LPtable"
  shows "sleep ch lk s =
    (if held s = {lk}
     then Switched (s\<lparr>held := {LPtable},
       ptable := (ptable s)[i := (ptable s ! i)\<lparr>chan := Some ch, state := SLEEPING\<rparr>]\<rparr>)
     else Panicked ''sched locks'')"
  by (rule sleep_run [OF assms])

theorem sleep_gives_up_cpu_witness:
  "\<exists>t. sleep ChanTicks LTicks two_procs = Switched t \<and> state (ptable t ! 0) = SLEEPING"
  using sleep_gives_up_cpu [of two_procs 0 LTicks ChanTicks] by (simp add: two_procs_fields)

text \<open>
  What a process does between \<^verbatim>\<open>sleep\<close> and its return is undone when it runs again: if it is
  dispatched with \<^verbatim>\<open>ptable.lock\<close> held, the rest of \<^verbatim>\<open>sleep\<close> clears its channel and returns with exactly
  the lock it was called with.
\<close>

theorem sleep_returns_with_lock:
  assumes "curproc s = Some i" and "held s = {LPtable}"
  shows "sleep_resume lk s = Done () (s\<lparr>held := {lk},
    ptable := (ptable s)[i := (ptable s ! i)\<lparr>chan := None\<rparr>]\<rparr>)"
  by (rule sleep_resume_run [OF assms])

theorem sleep_returns_with_lock_witness:
  "\<exists>t. sleep_resume LTicks (two_procs\<lparr>held := {LPtable}\<rparr>) = Done () t \<and> held t = {LTicks}"
  using sleep_returns_with_lock [of "two_procs\<lparr>held := {LPtable}\<rparr>" 0 LTicks]
  by (simp add: two_procs_fields)

text \<open>
  C34: the table loop of \<^verbatim>\<open>wakeup\<close> makes every process that sleeps on the channel runnable and changes nothing else:
  the other processes, the locks held and the rest of the state are as before. So a process \<open>i\<close> that has given up the CPU in
  \<^verbatim>\<open>sleep\<close> on the channel is runnable after the next \<^verbatim>\<open>wakeup\<close> of it, whatever state \<open>w\<close> the machine is in by then with the same table. A
  caller that holds \<^verbatim>\<open>ptable.lock\<close> already panics.
\<close>

theorem wakeup_exact:
  fixes s :: "'z ptst_scheme"
  assumes "LPtable \<notin> held s"
  shows "(\<exists>t. wakeup c s = Done () t \<and> t = s\<lparr>ptable := ptable t\<rparr> \<and>
    length (ptable t) = length (ptable s) \<and>
    (\<forall>i < length (ptable s).
       ptable t ! i = (if state (ptable s ! i) = SLEEPING \<and> chan (ptable s ! i) = Some c
         then (ptable s ! i)\<lparr>state := RUNNABLE\<rparr> else ptable s ! i))) \<and>
    wakeup c (s\<lparr>held := insert LPtable (held s)\<rparr>) = Panicked ''acquire'' \<and>
    (\<forall>i (u :: 'z ptst_scheme) v lk. curproc u = Some i \<and> i < length (ptable u) \<and> lk \<in> held u \<and> (LPtable \<in> held u \<longrightarrow> lk = LPtable) \<and>
       sleep c lk u = Switched v \<longrightarrow>
       (\<forall>w :: 'z ptst_scheme. ptable w = ptable v \<and> LPtable \<notin> held w \<longrightarrow>
          (\<exists>x. wakeup c w = Done () x \<and> state (ptable x ! i) = RUNNABLE)))"
proof -
  have wake: "\<exists>x. wakeup c w = Done () x \<and> state (ptable x ! i) = RUNNABLE"
    if "curproc u = Some i" "i < length (ptable u)" "lk \<in> held u" "LPtable \<in> held u \<longrightarrow> lk = LPtable"
      "sleep c lk u = Switched v" "ptable w = ptable v" "LPtable \<notin> held w" for i lk and u v w :: "'z ptst_scheme"
    using that sleep_run [OF that(1-4), of c] by (auto simp: wakeup_run split: if_splits)
  have "\<exists>t. wakeup c s = Done () t \<and> t = s\<lparr>ptable := ptable t\<rparr> \<and> length (ptable t) = length (ptable s) \<and>
    (\<forall>i < length (ptable s). ptable t ! i = (if state (ptable s ! i) = SLEEPING \<and> chan (ptable s ! i) = Some c
         then (ptable s ! i)\<lparr>state := RUNNABLE\<rparr> else ptable s ! i))"
    using assms by (simp add: wakeup_run)
  moreover have "wakeup c (s\<lparr>held := insert LPtable (held s)\<rparr>) = Panicked ''acquire''" by (simp add: wakeup_run)
  ultimately show ?thesis using wake by blast
qed

theorem wakeup_exact_witness:
  "\<exists>t. wakeup ChanTicks two_procs = Done () t \<and> state (ptable t ! 1) = RUNNABLE \<and>
     ptable t ! 0 = ptable two_procs ! 0"
proof -
  have p: "length (ptable two_procs) = 2" "LPtable \<notin> held two_procs"
    "state (ptable two_procs ! 1) = SLEEPING" "chan (ptable two_procs ! 1) = Some ChanTicks"
    "state (ptable two_procs ! 0) = RUNNING"
    by (simp_all add: two_procs_fields)
  obtain t where t: "wakeup ChanTicks two_procs = Done () t"
    and at: "\<And>i. i < 2 \<Longrightarrow> ptable t ! i =
      (if state (ptable two_procs ! i) = SLEEPING \<and> chan (ptable two_procs ! i) = Some ChanTicks
       then (ptable two_procs ! i)\<lparr>state := RUNNABLE\<rparr> else ptable two_procs ! i)"
    using wakeup_exact [OF p(2), of ChanTicks] p(1) by auto
  from at [of 0] at [of 1] p t show ?thesis by simp
qed

text \<open>
  \<^verbatim>\<open>kill\<close> returns 0 exactly if some slot has the pid; then the first such process is marked
  as killed and, if it sleeps, made runnable, so that it can notice. Otherwise it returns -1 and
  the table is unchanged. The lock is released on both paths.
\<close>

theorem kill_marks_first:
  assumes "LPtable \<notin> held s"
  shows "(\<exists>i < length (ptable s). pid (ptable s ! i) = n \<and> (\<forall>j < i. pid (ptable s ! j) \<noteq> n) \<and>
      kill n s = Done 0 (s\<lparr>ptable := (ptable s)[i := (ptable s ! i)\<lparr>killed := True,
        state := (if state (ptable s ! i) = SLEEPING then RUNNABLE else state (ptable s ! i))\<rparr>]\<rparr>)) \<or>
    ((\<forall>p \<in> set (ptable s). pid p \<noteq> n) \<and> kill n s = Done (- 1) s)"
proof (cases "find_proc (\<lambda>p. pid p = n) 0 (ptable s)")
  case None
  then have "kill n s = Done (- 1) s" using kill_run [OF assms, of n] by simp
  moreover have "\<forall>p \<in> set (ptable s). pid p \<noteq> n" using None by (simp add: find_proc_None)
  ultimately show ?thesis by blast
next
  case (Some i)
  then have "i < length (ptable s) \<and> pid (ptable s ! i) = n \<and> (\<forall>j < i. pid (ptable s ! j) \<noteq> n)"
    by (simp add: find_proc_Some)
  moreover have "kill n s = Done 0 (s\<lparr>ptable := (ptable s)[i := (ptable s ! i)\<lparr>killed := True,
        state := (if state (ptable s ! i) = SLEEPING then RUNNABLE else state (ptable s ! i))\<rparr>]\<rparr>)"
    using Some kill_run [OF assms, of n] by simp
  ultimately show ?thesis by blast
qed

theorem kill_marks_first_witness:
  "\<exists>t. kill 2 two_procs = Done 0 t \<and> killed (ptable t ! 1) \<and> state (ptable t ! 1) = RUNNABLE"
proof -
  have p: "length (ptable two_procs) = 2" "LPtable \<notin> held two_procs" "pid (ptable two_procs ! 1) = 2"
    "pid (ptable two_procs ! 0) = 1" "state (ptable two_procs ! 1) = SLEEPING"
    "\<exists>p \<in> set (ptable two_procs). pid p = 2"
    by (simp_all add: two_procs_fields)
  then obtain i where i: "i < 2" "pid (ptable two_procs ! i) = 2"
    and k: "kill 2 two_procs = Done 0 (two_procs\<lparr>ptable := (ptable two_procs)[i := (ptable two_procs ! i)
      \<lparr>killed := True, state := (if state (ptable two_procs ! i) = SLEEPING then RUNNABLE
        else state (ptable two_procs ! i))\<rparr>]\<rparr>)"
    using kill_marks_first [OF p(2), of 2] by (metis (no_types, lifting))
  have "i = 1" using i p(4) by (auto simp: less_2_cases_iff)
  with k p show ?thesis by simp
qed

text \<open>
  A dispatch of \<^verbatim>\<open>scheduler\<close> that switches to a process takes the first runnable one behind the
  point the scan has reached, makes it the CPU's current process in state running, and has loaded
  its page table and its kernel stack.
\<close>

theorem scheduler_dispatches_runnable:
  assumes "scheduler_dispatch k s = Done (Some i) t"
  shows "k \<le> i \<and> i < length (ptable s) \<and> state (ptable s ! i) = RUNNABLE \<and>
    (\<forall>j. k \<le> j \<and> j < i \<longrightarrow> state (ptable s ! j) \<noteq> RUNNABLE) \<and>
    t = s\<lparr>curproc := Some i, ts_esp0 := kstack (ptable s ! i) + of_nat KSTACKSIZE,
          cr3 := v2p (pgdir (ptable s ! i)),
          ptable := (ptable s)[i := (ptable s ! i)\<lparr>state := RUNNING\<rparr>]\<rparr>"
  by (rule scheduler_dispatch_run [OF assms])

theorem scheduler_dispatches_runnable_witness:
  "\<exists>t. wakeup ChanTicks two_procs = Done () t \<and>
     (\<exists>u. scheduler_dispatch 0 t = Done (Some 1) u \<and> cr3 u = 0x1000 \<and> curproc u = Some 1)"
proof -
  obtain t where t: "wakeup ChanTicks two_procs = Done () t" and
    pt: "ptable t = [zero_proc\<lparr>state := RUNNING, pid := 1\<rparr>,
      zero_proc\<lparr>state := RUNNABLE, pid := 2, chan := Some ChanTicks, pgdir := 0x80001000\<rparr>]"
    by (simp add: wakeup_run two_procs_fields)
  obtain u where u: "scheduler_dispatch 0 t = Done (Some 1) u"
    by (simp add: scheduler_dispatch_def switchuvm_def kop_simps pt)
  have "cr3 u = 0x1000 \<and> curproc u = Some 1"
    using scheduler_dispatches_runnable [OF u] by (simp add: pt v2p_def KERNBASE_def)
  with t u show ?thesis by blast
qed

end
