(* ===== verification/Kalloc.thy ===== *)
theory Kalloc
  imports Mmu CString Sched
begin

text \<open>
  \<^verbatim>\<open>kalloc.c\<close>: the physical page allocator. The free list is threaded through the free pages
  themselves, in byte-addressed memory; a path predicate relates it to the list of free pages,
  and the operations refine push and pop on that list.
\<close>

section \<open>Definitions\<close>

text \<open>\<^verbatim>\<open>mem\<close> is memory by kernel virtual address, \<open>kend\<close> the linker symbol \<^verbatim>\<open>end\<close>.\<close>

record kmst = ptst +
  kmem_mem :: mem
  use_lock :: bool
  freelist :: u32
  kend :: u32

definition kfree :: "u32 \<Rightarrow> ('z kmst_scheme, unit) kop" where
  "kfree v =
     bd (gets kend) (\<lambda>e.
     if unat v mod unat PGSIZE \<noteq> 0 \<or> v < e \<or> v2p v \<ge> PHYSTOP then panic ''kfree''
     else
       bd (modify (\<lambda>s. s\<lparr>kmem_mem := memset (kmem_mem s) v 1 PGSIZE\<rparr>)) (\<lambda>_.
       bd (gets use_lock) (\<lambda>ul.
       bd (whenk ul (acquire LKmem)) (\<lambda>_.
       bd (modify (\<lambda>s. s\<lparr>kmem_mem := store32 (kmem_mem s) v (freelist s)\<rparr>)) (\<lambda>_.
       bd (modify (\<lambda>s. s\<lparr>freelist := v\<rparr>)) (\<lambda>_.
       bd (gets use_lock) (\<lambda>ul.
       whenk ul (release LKmem))))))))"

definition kalloc :: "('z kmst_scheme, u32) kop" where
  "kalloc =
     bd (gets use_lock) (\<lambda>ul.
     bd (whenk ul (acquire LKmem)) (\<lambda>_.
     bd (gets freelist) (\<lambda>r.
     bd (whenk (r \<noteq> 0) (modify (\<lambda>s. s\<lparr>freelist := load32 (kmem_mem s) r\<rparr>))) (\<lambda>_.
     bd (gets use_lock) (\<lambda>ul.
     bd (whenk ul (release LKmem)) (\<lambda>_.
     ret r))))))"

text \<open>
  The loop of \<^verbatim>\<open>freerange\<close> ends: it stops at the end address, and if \<^verbatim>\<open>p\<close> came to wrap around
  the address space, \<^verbatim>\<open>kfree\<close> would panic first.
\<close>

lemma kfree_Done_range:
  "kfree v s = Done () t \<Longrightarrow> unat v < 2 ^ 32 - 2 * 4096"
proof -
  assume "kfree v s = Done () t"
  then have "\<not> v2p v \<ge> PHYSTOP"
    by (auto simp: kfree_def bd_eq_Done split: if_splits)
  then have "unat (v - 0x80000000) < 0xE000000"
    by (simp add: v2p_def KERNBASE_def PHYSTOP_def word_le_nat_alt not_le)
  then show ?thesis
    using unat_less_u32 [of v] by (auto simp: unat_sub_if' split: if_splits)
qed

function freerange_loop :: "u32 \<Rightarrow> u32 \<Rightarrow> ('z kmst_scheme, unit) kop" where
  "freerange_loop p vend s =
     (if p + PGSIZE \<le> vend then
        (case kfree p s of
           Done _ t \<Rightarrow> freerange_loop (p + PGSIZE) vend t
         | Panicked e \<Rightarrow> Panicked e
         | Switched t \<Rightarrow> Switched t
         | Fault \<Rightarrow> Fault)
      else Done () s)"
  by pat_completeness auto
termination
proof (relation "measure (\<lambda>(p, _, _). 2 ^ 32 - unat p)", simp, goal_cases)
  case (1 p vend s x t)
  then have "unat p < 2 ^ 32 - 2 * 4096" by (intro kfree_Done_range) simp
  then have "unat (p + PGSIZE) = unat p + 4096" by (simp add: PGSIZE_def unat_plus_if)
  with \<open>unat p < _\<close> show ?case by simp
qed

definition freerange :: "u32 \<Rightarrow> u32 \<Rightarrow> ('z kmst_scheme, unit) kop" where
  "freerange vstart vend = freerange_loop (PGROUNDUP vstart) vend"

definition kinit1 :: "u32 \<Rightarrow> u32 \<Rightarrow> ('z kmst_scheme, unit) kop" where
  "kinit1 vstart vend =
     bd (modify (\<lambda>s. s\<lparr>use_lock := False\<rparr>)) (\<lambda>_. freerange vstart vend)"

definition kinit2 :: "u32 \<Rightarrow> u32 \<Rightarrow> ('z kmst_scheme, unit) kop" where
  "kinit2 vstart vend =
     bd (freerange vstart vend) (\<lambda>_. modify (\<lambda>s. s\<lparr>use_lock := True\<rparr>))"

section \<open>The free list in memory\<close>

fun flist :: "mem \<Rightarrow> u32 \<Rightarrow> u32 list \<Rightarrow> bool" where
  "flist m p [] \<longleftrightarrow> p = 0"
| "flist m p (x # xs) \<longleftrightarrow> p = x \<and> x \<noteq> 0 \<and> flist m (load32 m x) xs"

text \<open>A page \<^verbatim>\<open>kfree\<close> accepts.\<close>

definition good_page :: "u32 \<Rightarrow> u32 \<Rightarrow> bool" where
  "good_page e v \<longleftrightarrow> page_aligned v \<and> e \<le> v \<and> v2p v < PHYSTOP"

definition free_pages :: "'z kmst_scheme \<Rightarrow> u32 list \<Rightarrow> bool" where
  "free_pages s xs \<longleftrightarrow> flist (kmem_mem s) (freelist s) xs \<and> (\<forall>x \<in> set xs. good_page (kend s) x)"

lemma flist_unique: "flist m p xs \<Longrightarrow> flist m p ys \<Longrightarrow> xs = ys"
  by (induction xs arbitrary: p ys) (metis flist.elims(2) list.distinct(1) list.inject)+

lemma flist_append: "flist m p (xs @ ys) \<Longrightarrow> ys \<noteq> [] \<Longrightarrow> flist m (hd ys) ys"
  by (induction xs arbitrary: p) (auto simp: neq_Nil_conv)

text \<open>A list that ends has no cycle, so no page is on it twice.\<close>

lemma flist_distinct: "flist m p xs \<Longrightarrow> distinct xs"
proof (induction xs arbitrary: p)
  case (Cons x xs)
  have "x \<notin> set xs"
  proof
    assume "x \<in> set xs"
    then obtain ys zs where xs: "xs = ys @ x # zs" by (meson split_list)
    then have "flist m x (x # zs)"
      using flist_append [of m p "x # ys" "x # zs"] Cons.prems by simp
    moreover have "flist m x (x # xs)" using Cons.prems by simp
    ultimately have "x # zs = x # xs" by (rule flist_unique)
    with xs show False by simp
  qed
  with Cons show ?case by auto
qed simp

lemma flist_cong:
  "\<forall>x \<in> set xs. load32 m' x = load32 m x \<Longrightarrow> flist m' p xs = flist m p xs"
  by (induction xs arbitrary: p) auto

text \<open>Addresses of one page, and of two different ones.\<close>

definition in_page :: "u32 \<Rightarrow> u32 \<Rightarrow> bool" where
  "in_page v a \<longleftrightarrow> unat (a - v) < 4096"

lemma in_page_iff: "page_aligned v \<Longrightarrow> in_page v a \<longleftrightarrow> unat a div 4096 = unat v div 4096"
proof -
  assume "page_aligned v"
  then obtain k where k: "unat v = 4096 * k" by (auto simp: page_aligned_def)
  have b: "unat v < 4294967296" "unat a < 4294967296"
    using unat_less_u32 [of v] unat_less_u32 [of a] by simp_all
  show ?thesis
  proof (cases "unat v \<le> unat a")
    case True
    then have "unat (a - v) = unat a - 4096 * k" using k by (simp add: unat_sub_if')
    with True k show ?thesis by (auto simp: in_page_def)
  next
    case False
    then have "unat (a - v) = 4294967296 + unat a - 4096 * k" using k b by (simp add: unat_sub_if')
    moreover have "k < 1048576" using b k by linarith
    then have "4096 * k \<le> 4294967296 - 4096" by linarith
    moreover have "unat a div 4096 < k" using False k by (simp add: div_less_iff_less_mult)
    ultimately show ?thesis using b k by (simp add: in_page_def)
  qed
qed

lemma aligned_eq_div: "page_aligned a \<Longrightarrow> page_aligned b \<Longrightarrow> unat a div 4096 = unat b div 4096 \<longleftrightarrow> a = b"
proof -
  assume "page_aligned a" "page_aligned b"
  then obtain j k where "unat a = 4096 * j" "unat b = 4096 * k" by (metis page_alignedE)
  then have "unat a div 4096 = j" "unat b div 4096 = k" "unat a = unat b \<longleftrightarrow> j = k" by simp_all
  then show ?thesis by (simp add: word_unat_eq_iff)
qed

lemma page_aligned4: "page_aligned a \<Longrightarrow> aligned4 a"
proof -
  assume "page_aligned a"
  then obtain j where "unat a = 4096 * j" by (auto simp: page_aligned_def)
  then have "unat a = 4 * (1024 * j)" by simp
  then show ?thesis unfolding aligned4_def by (simp only: mod_mult_self1_is_0)
qed

lemma in_page_offset:
  assumes "page_aligned v" and "k < 4096"
  shows "unat (v + of_nat k) = unat v + k" and "in_page v (v + of_nat k)"
proof -
  obtain j where j: "unat v = 4096 * j" using assms(1) by (auto simp: page_aligned_def)
  have "unat v < 4294967296" using unat_less_u32 [of v] by simp
  then have "unat v + k < 2 ^ 32" using j assms(2) by simp
  then show "unat (v + of_nat k) = unat v + k" by (rule unat_add_small)
  have "unat (of_nat k :: u32) = k" using assms(2) by (simp add: unat_of_nat)
  with assms(2) show "in_page v (v + of_nat k)" by (simp add: in_page_def)
qed

lemma store32_in_page:
  assumes "page_aligned v" and "\<not> in_page v a"
  shows "store32 m v w a = m a"
  using assms(2) in_page_offset(2) [OF assms(1), of 0] in_page_offset(2) [OF assms(1), of 1]
    in_page_offset(2) [OF assms(1), of 2] in_page_offset(2) [OF assms(1), of 3]
  by (auto simp: store32_def)

lemma load32_same_page:
  assumes "page_aligned v" and "\<And>a. in_page v a \<Longrightarrow> m' a = m a"
  shows "load32 m' v = load32 m v"
  using assms(2) [OF in_page_offset(2) [OF assms(1), of 0]] assms(2) [OF in_page_offset(2) [OF assms(1), of 1]]
    assms(2) [OF in_page_offset(2) [OF assms(1), of 2]] assms(2) [OF in_page_offset(2) [OF assms(1), of 3]]
  by (simp add: load32_def)

section \<open>Behaviour of the operations\<close>

lemma good_pageD:
  assumes "good_page e v"
  shows "page_aligned v" and "e \<le> v" and "v2p v < PHYSTOP" and "v \<noteq> 0"
    and "2 ^ 31 \<le> unat v" and "unat v < 0x8E000000"
proof -
  show "page_aligned v" "e \<le> v" and v: "v2p v < PHYSTOP" using assms by (simp_all add: good_page_def)
  have "unat (v - 0x80000000) < 0xE000000"
    using v by (simp add: v2p_def KERNBASE_def PHYSTOP_def word_less_nat_alt)
  then show "2 ^ 31 \<le> unat v" "unat v < 0x8E000000" "v \<noteq> 0"
    using unat_less_u32 [of v] by (auto simp: unat_sub_if' split: if_splits)
qed

lemma good_page_range:
  "page_aligned v \<Longrightarrow> e \<le> v \<Longrightarrow> 2 ^ 31 \<le> unat v \<Longrightarrow> unat v < 0x8E000000 \<Longrightarrow> good_page e v"
  by (simp add: good_page_def v2p_def KERNBASE_def PHYSTOP_def word_less_nat_alt unat_sub_if')

lemma kfree_bad: "\<not> good_page (kend s) v \<Longrightarrow> kfree v s = Panicked ''kfree''"
  by (auto simp: kfree_def good_page_def page_aligned_def PGSIZE_def kop_simps not_le not_less)

lemma kfree_run:
  assumes "good_page (kend s) v" and "LKmem \<notin> held s"
  shows "kfree v s = Done () (s\<lparr>kmem_mem := store32 (memset (kmem_mem s) v 1 PGSIZE) v (freelist s),
    freelist := v\<rparr>)"
proof -
  have "\<not> (unat v mod unat PGSIZE \<noteq> 0 \<or> v < kend s \<or> v2p v \<ge> PHYSTOP)"
    using assms(1) by (simp add: good_page_def page_aligned_def PGSIZE_def not_le not_less)
  with assms(2) show ?thesis
    by (cases "use_lock s") (simp_all add: kfree_def kop_simps insert_Diff_if)
qed

lemma kalloc_run:
  assumes "LKmem \<notin> held s"
  shows "kalloc s = Done (freelist s)
    (if freelist s = 0 then s else s\<lparr>freelist := load32 (kmem_mem s) (freelist s)\<rparr>)"
  using assms by (cases "use_lock s"; cases "freelist s = 0")
    (simp_all add: kalloc_def kop_simps insert_Diff_if)

lemma kfree_mem:
  assumes "page_aligned v"
  shows "\<not> in_page v a \<Longrightarrow> store32 (memset m v 1 PGSIZE) v w a = m a"
    and "in_page v a \<Longrightarrow> 4 \<le> unat (a - v) \<Longrightarrow> store32 (memset m v 1 PGSIZE) v w a = 1"
proof -
  assume out: "\<not> in_page v a"
  then have "memset m v 1 PGSIZE a = m a" by (simp add: memset_at in_page_def PGSIZE_def)
  with out assms show "store32 (memset m v 1 PGSIZE) v w a = m a" by (simp add: store32_in_page)
next
  assume inp: "in_page v a" and off: "4 \<le> unat (a - v)"
  have "a \<noteq> v" "a \<noteq> v + 1" "a \<noteq> v + 2" "a \<noteq> v + 3" using off by auto
  moreover have "memset m v 1 PGSIZE a = 1" using inp by (simp add: memset_at in_page_def PGSIZE_def)
  ultimately show "store32 (memset m v 1 PGSIZE) v w a = 1" by (simp add: store32_def)
qed

lemma free_pages_distinct: "free_pages s xs \<Longrightarrow> distinct xs"
  by (auto simp: free_pages_def intro: flist_distinct)

lemma kalloc_Nil:
  assumes "LKmem \<notin> held s" and "free_pages s []"
  shows "kalloc s = Done 0 s"
  using assms by (simp add: kalloc_run free_pages_def)

lemma kalloc_Cons:
  assumes "LKmem \<notin> held s" and "free_pages s (x # xs)"
  shows "\<exists>t. kalloc s = Done x t \<and> free_pages t xs \<and> t = s\<lparr>freelist := freelist t\<rparr>"
  using assms by (simp add: kalloc_run free_pages_def)

lemma kfree_push:
  assumes "LKmem \<notin> held s" and "free_pages s xs" and "good_page (kend s) v" and "v \<notin> set xs"
  shows "\<exists>t. kfree v s = Done () t \<and> free_pages t (v # xs) \<and>
    t = s\<lparr>kmem_mem := kmem_mem t, freelist := freelist t\<rparr> \<and>
    (\<forall>a. \<not> in_page v a \<longrightarrow> kmem_mem t a = kmem_mem s a)"
proof -
  define m where "m = store32 (memset (kmem_mem s) v 1 PGSIZE) v (freelist s)"
  have v: "page_aligned v" "v \<noteq> 0" using good_pageD [OF assms(3)] by blast+
  have frame: "m a = kmem_mem s a" if "\<not> in_page v a" for a
    unfolding m_def by (rule kfree_mem(1) [OF v(1) that])
  have "load32 m x = load32 (kmem_mem s) x" if "x \<in> set xs" for x
  proof -
    have x: "page_aligned x" "x \<noteq> v"
      using assms(2,4) that by (auto simp: free_pages_def good_page_def)
    have "\<not> in_page v a" if "in_page x a" for a
      using that x v(1) by (simp add: in_page_iff aligned_eq_div)
    then show ?thesis using x(1) frame by (intro load32_same_page) auto
  qed
  then have "flist m (freelist s) xs"
    using assms(2) flist_cong [of xs m "kmem_mem s"] by (simp add: free_pages_def)
  then have "flist m v (v # xs)" using v(2) by (simp add: m_def)
  moreover have "kfree v s = Done () (s\<lparr>kmem_mem := m, freelist := v\<rparr>)"
    unfolding m_def by (rule kfree_run [OF assms(3,1)])
  ultimately show ?thesis
    using assms(2,3) frame by (simp add: free_pages_def)
qed

section \<open>Filling the allocator\<close>

text \<open>The whole pages from \<open>p\<close> that end at or below \<open>vend\<close>.\<close>

definition whole_pages :: "u32 \<Rightarrow> u32 \<Rightarrow> u32 set" where
  "whole_pages p vend = {q. page_aligned q \<and> unat p \<le> unat q \<and> unat q + 4096 \<le> unat vend}"

lemma whole_pages_step:
  assumes "page_aligned p" and "unat p + 4096 \<le> unat vend"
  shows "whole_pages p vend = insert p (whole_pages (p + PGSIZE) vend)"
proof -
  have up: "unat (p + PGSIZE) = unat p + 4096"
    using assms(2) unat_less_u32 [of vend] by (simp add: PGSIZE_def unat_plus_if)
  have "unat p + 4096 \<le> unat q" if q: "page_aligned q" "unat p \<le> unat q" "q \<noteq> p" for q
  proof -
    obtain j k where "unat p = 4096 * j" "unat q = 4096 * k"
      using assms(1) q(1) by (metis page_alignedE)
    moreover have "unat q \<noteq> unat p" using q(3) by (simp add: word_unat_eq_iff)
    ultimately show ?thesis using q(2) by simp
  qed
  with assms up show ?thesis by (auto simp: whole_pages_def)
qed

lemma freerange_loop_pages:
  assumes "page_aligned p" and "free_pages s xs" and "LKmem \<notin> held s" and "kend s \<le> p"
    and "2 ^ 31 \<le> unat p" and "unat p < 0xF0000000" and "unat vend \<le> 0x8E000000"
    and "\<forall>x \<in> set xs. unat x < unat p \<or> unat vend \<le> unat x"
  shows "\<exists>t ps. freerange_loop p vend s = Done () t \<and> free_pages t (ps @ xs) \<and>
    set ps = whole_pages p vend \<and> t = s\<lparr>kmem_mem := kmem_mem t, freelist := freelist t\<rparr>"
  using assms
proof (induction "unat vend - unat p" arbitrary: p s xs rule: less_induct)
  case less
  have up: "unat (p + PGSIZE) = unat p + 4096"
    using less.prems(6) by (simp add: PGSIZE_def unat_plus_if)
  show ?case
  proof (cases "p + PGSIZE \<le> vend")
    case False
    then have "whole_pages p vend = {}"
      using up by (auto simp: whole_pages_def word_le_nat_alt)
    with False less.prems(2) show ?thesis
      by (intro exI [of _ s] exI [of _ "[]"]) simp
  next
    case True
    then have le: "unat p + 4096 \<le> unat vend" using up by (simp add: word_le_nat_alt)
    have good: "good_page (kend s) p"
      by (rule good_page_range) (use less.prems le in simp_all)
    have "p \<notin> set xs" using less.prems(8) le by auto
    then obtain t where t: "kfree p s = Done () t" "free_pages t (p # xs)"
      and st: "t = s\<lparr>kmem_mem := kmem_mem t, freelist := freelist t\<rparr>"
      using kfree_push [OF less.prems(3,2) good] by blast
    have same: "held t = held s" "kend t = kend s" by (subst st, simp)+
    obtain u ps where u: "freerange_loop (p + PGSIZE) vend t = Done () u"
      "free_pages u (ps @ p # xs)" "set ps = whole_pages (p + PGSIZE) vend"
      and tu: "u = t\<lparr>kmem_mem := kmem_mem u, freelist := freelist u\<rparr>"
    proof (atomize_elim, rule less.hyps)
      show "page_aligned (p + PGSIZE)" using less.prems(1) up by (simp add: page_aligned_def)
      show "kend t \<le> p + PGSIZE"
        using less.prems(4) up same by (simp add: word_le_nat_alt)
      show "\<forall>x \<in> set (p # xs). unat x < unat (p + PGSIZE) \<or> unat vend \<le> unat x"
        using less.prems(8) up by auto
    qed (use less.prems le up same t in simp_all)
    have "u = s\<lparr>kmem_mem := kmem_mem u, freelist := freelist u\<rparr>"
      by (subst tu, subst st) simp
    moreover have "set (ps @ [p]) = whole_pages p vend"
      using whole_pages_step [OF less.prems(1) le] u(3) by simp
    ultimately show ?thesis
      using True t(1) u(1,2) by (intro exI [of _ u] exI [of _ "ps @ [p]"]) simp
  qed
qed

section \<open>The allocator interface\<close>

text \<open>
  What the users of pages (page tables, kernel stacks, pipes) rely on: an allocation takes
  a page off the list of free pages or reports that there is none, and leaves memory alone; freeing a
  page that is not free puts it back and writes to that page only.
\<close>

locale page_allocator =
  fixes alloc :: "('s, u32) kop"
    and free :: "u32 \<Rightarrow> ('s, unit) kop"
    and pages :: "'s \<Rightarrow> u32 list \<Rightarrow> bool"
    and ready :: "'s \<Rightarrow> bool"
    and page_ok :: "'s \<Rightarrow> u32 \<Rightarrow> bool"
    and contents :: "'s \<Rightarrow> mem"
  assumes alloc_Nil: "ready s \<Longrightarrow> pages s [] \<Longrightarrow> alloc s = Done 0 s"
    and alloc_Cons: "ready s \<Longrightarrow> pages s (x # xs) \<Longrightarrow>
      \<exists>t. alloc s = Done x t \<and> pages t xs \<and> ready t \<and> page_ok t = page_ok s \<and> contents t = contents s"
    and free_Cons: "ready s \<Longrightarrow> pages s xs \<Longrightarrow> page_ok s x \<Longrightarrow> x \<notin> set xs \<Longrightarrow>
      \<exists>t. free x s = Done () t \<and> pages t (x # xs) \<and> ready t \<and> page_ok t = page_ok s \<and>
        (\<forall>a. \<not> in_page x a \<longrightarrow> contents t a = contents s a)"
    and pages_ok: "pages s xs \<Longrightarrow> x \<in> set xs \<Longrightarrow> page_ok s x"
    and pages_distinct: "pages s xs \<Longrightarrow> distinct xs"
    and page_ok_nonzero: "page_ok s x \<Longrightarrow> x \<noteq> 0"
begin

lemma alloc_fresh:
  assumes "ready s" and "pages s xs" and "alloc s = Done x t" and "x \<noteq> 0"
  shows "x \<in> set xs" and "page_ok t x" and "pages t (remove1 x xs)" and "x \<notin> set (remove1 x xs)"
    and "ready t" and "contents t = contents s"
proof -
  have "xs \<noteq> []" using alloc_Nil assms by auto
  then obtain y ys where xs: "xs = y # ys" by (cases xs) auto
  with alloc_Cons [of s y ys] assms have y: "x = y" "pages t ys" "ready t" "page_ok t = page_ok s"
    "contents t = contents s" by auto
  moreover have "y \<notin> set ys" using pages_distinct [OF assms(2)] xs by simp
  moreover have "page_ok s y" using pages_ok [OF assms(2), of y] xs by simp
  ultimately show "x \<in> set xs" "page_ok t x" "pages t (remove1 x xs)" "x \<notin> set (remove1 x xs)"
    "ready t" "contents t = contents s" using xs by simp_all
qed

text \<open>Freeing what was just allocated restores the free pages and all memory outside the page.\<close>

lemma alloc_free:
  assumes "ready s" and "pages s (x # xs)"
  shows "\<exists>t u. alloc s = Done x t \<and> free x t = Done () u \<and> pages u (x # xs) \<and> ready u \<and>
    (\<forall>a. \<not> in_page x a \<longrightarrow> contents u a = contents s a)"
proof -
  obtain t where t: "alloc s = Done x t" "pages t xs" "ready t" "page_ok t = page_ok s"
    "contents t = contents s" using alloc_Cons [OF assms] by blast
  have "page_ok t x" using pages_ok [OF assms(2), of x] t(4) by simp
  moreover have "x \<notin> set xs" using pages_distinct [OF assms(2)] by simp
  ultimately show ?thesis using free_Cons [OF t(3,2)] t by fastforce
qed

lemma allocs_differ:
  assumes "ready s" and "pages s xs" and "alloc s = Done x t" and "alloc t = Done y u"
    and "x \<noteq> 0" and "y \<noteq> 0"
  shows "x \<noteq> y"
proof -
  note t = alloc_fresh [OF assms(1,2,3,5)]
  show ?thesis using alloc_fresh(1) [OF t(5) t(3) assms(4) assms(6)] t(4) by auto
qed

end

interpretation pa: page_allocator kalloc kfree free_pages "\<lambda>s. LKmem \<notin> held s"
  "\<lambda>s. good_page (kend s)" kmem_mem
proof unfold_locales
  fix s :: "'z kmst_scheme" and x xs
  assume s: "LKmem \<notin> held s"
  show "free_pages s [] \<Longrightarrow> kalloc s = Done 0 s" using s by (rule kalloc_Nil)
  assume "free_pages s (x # xs)"
  then obtain t where t: "kalloc s = Done x t" "free_pages t xs" and st: "t = s\<lparr>freelist := freelist t\<rparr>"
    using kalloc_Cons [OF s] by blast
  have "held t = held s" "kend t = kend s" "kmem_mem t = kmem_mem s" by (subst st, simp)+
  with t s show "\<exists>t. kalloc s = Done x t \<and> free_pages t xs \<and> LKmem \<notin> held t \<and>
      good_page (kend t) = good_page (kend s) \<and> kmem_mem t = kmem_mem s" by auto
next
  fix s :: "'z kmst_scheme" and x xs
  assume s: "LKmem \<notin> held s" and "free_pages s xs" "good_page (kend s) x" "x \<notin> set xs"
  then obtain t where t: "kfree x s = Done () t" "free_pages t (x # xs)"
    "\<forall>a. \<not> in_page x a \<longrightarrow> kmem_mem t a = kmem_mem s a"
    and st: "t = s\<lparr>kmem_mem := kmem_mem t, freelist := freelist t\<rparr>"
    using kfree_push by blast
  have "held t = held s" "kend t = kend s" by (subst st, simp)+
  with t s show "\<exists>t. kfree x s = Done () t \<and> free_pages t (x # xs) \<and> LKmem \<notin> held t \<and>
      good_page (kend t) = good_page (kend s) \<and> (\<forall>a. \<not> in_page x a \<longrightarrow> kmem_mem t a = kmem_mem s a)"
    by auto
next
  fix s :: "'z kmst_scheme" and xs
  assume "free_pages s xs"
  then show "distinct xs" by (rule free_pages_distinct)
next
  fix s :: "'z kmst_scheme" and x xs
  assume "free_pages s xs" "x \<in> set xs"
  then show "good_page (kend s) x" by (simp add: free_pages_def)
next
  fix s :: "'z kmst_scheme" and x
  assume "good_page (kend s) x"
  then show "x \<noteq> 0" by (rule good_pageD)
qed

section \<open>Properties\<close>

text \<open>The allocator as \<^verbatim>\<open>main\<close> finds it, with an empty free list.\<close>

definition boot_kmem :: kmst where
  "boot_kmem = \<lparr>held = {}, ptable = replicate NPROC zero_proc, initproc = None, nextpid = 1,
     curproc = None, cr3 = 0, ts_esp0 = 0, kpgdir = 0,
     kmem_mem = (\<lambda>_. 0), use_lock = False, freelist = 0, kend = 0x8010A000\<rparr>"

lemma boot_kmem_fields:
  "held boot_kmem = {}" "kend boot_kmem = 0x8010A000" "free_pages boot_kmem []"
  by (simp_all add: boot_kmem_def free_pages_def)

lemma boot_pages:
  "good_page 0x8010A000 0x8010A000" "good_page 0x8010A000 0x8010B000"
  by (simp_all add: good_page_def page_aligned_def v2p_def KERNBASE_def PHYSTOP_def)

text \<open>
  C24: \<^verbatim>\<open>kalloc\<close> refines taking the head of the list of free pages: with a free page it returns the first
  one, which is page aligned and not null, and the others stay free; with none it returns 0. Memory
  and the held locks are unchanged.
\<close>

theorem kalloc_pops:
  assumes "LKmem \<notin> held s" and "free_pages s xs"
  shows "case xs of
      [] \<Rightarrow> kalloc s = Done 0 s
    | x # ys \<Rightarrow> \<exists>t. kalloc s = Done x t \<and> free_pages t ys \<and> x \<noteq> 0 \<and> page_aligned x \<and> x \<notin> set ys \<and>
        kmem_mem t = kmem_mem s \<and> held t = held s"
proof (cases xs)
  case Nil
  with assms show ?thesis by (simp add: kalloc_Nil)
next
  case (Cons x ys)
  with assms obtain t where t: "kalloc s = Done x t" "free_pages t ys"
    and st: "t = s\<lparr>freelist := freelist t\<rparr>" using kalloc_Cons by blast
  have "kmem_mem t = kmem_mem s" "held t = held s" by (subst st, simp)+
  moreover have "good_page (kend s) x" using assms(2) Cons by (simp add: free_pages_def)
  then have "x \<noteq> 0" "page_aligned x" by (rule good_pageD)+
  moreover have "x \<notin> set ys" using free_pages_distinct [OF assms(2)] Cons by simp
  ultimately show ?thesis using t Cons by auto
qed

theorem kalloc_pops_witness:
  "kalloc boot_kmem = Done 0 boot_kmem \<and> (\<exists>(s :: kmst) t. kalloc s = Done 0x8010B000 t \<and> free_pages t [])"
proof -
  obtain s :: kmst where "free_pages s [0x8010B000]" "LKmem \<notin> held s"
    using pa.free_Cons [of boot_kmem "[]" "0x8010B000"] boot_pages by (auto simp: boot_kmem_fields)
  with kalloc_pops [of s "[0x8010B000]"] have "\<exists>t. kalloc s = Done 0x8010B000 t \<and> free_pages t []" by auto
  with kalloc_pops [of boot_kmem "[]"] show ?thesis by (auto simp: boot_kmem_fields)
qed

text \<open>
  C25: \<^verbatim>\<open>kfree\<close> of a page that is aligned, behind the kernel and below \<^verbatim>\<open>PHYSTOP\<close> refines pushing it onto
  the list of free pages, fills it with 1s behind the list pointer and writes to no other page. Any
  other address makes it panic.
\<close>

theorem kfree_pushes:
  assumes "LKmem \<notin> held s" and "free_pages s xs" and "v \<notin> set xs"
  shows "if good_page (kend s) v
    then \<exists>t. kfree v s = Done () t \<and> free_pages t (v # xs) \<and> held t = held s \<and>
      (\<forall>a. kmem_mem t a = (if in_page v a
         then (if 4 \<le> unat (a - v) then 1 else kmem_mem t a) else kmem_mem s a))
    else kfree v s = Panicked ''kfree''"
proof (cases "good_page (kend s) v")
  case True
  then obtain t where t: "kfree v s = Done () t" "free_pages t (v # xs)"
    "\<forall>a. \<not> in_page v a \<longrightarrow> kmem_mem t a = kmem_mem s a"
    and st: "t = s\<lparr>kmem_mem := kmem_mem t, freelist := freelist t\<rparr>"
    using kfree_push [OF assms(1,2) True assms(3)] by blast
  have "held t = held s" by (subst st, simp)
  moreover have "kmem_mem t = store32 (memset (kmem_mem s) v 1 PGSIZE) v (freelist s)"
    using t(1) kfree_run [OF True assms(1)] by auto
  then have "kmem_mem t a = 1" if "in_page v a" "4 \<le> unat (a - v)" for a
    using kfree_mem(2) [OF good_pageD(1) [OF True] that] by simp
  ultimately show ?thesis using True t by auto
qed (simp add: kfree_bad)

theorem kfree_pushes_witness:
  "\<exists>t. kfree 0x8010A000 boot_kmem = Done () t \<and> free_pages t [0x8010A000]"
  using kfree_pushes [of boot_kmem "[]" "0x8010A000"] boot_pages by (auto simp: boot_kmem_fields)

text \<open>
  C26: Two pages handed out by \<^verbatim>\<open>kalloc\<close> without a \<^verbatim>\<open>kfree\<close> in between are different, and freeing a page
  that was just allocated gives back the same list of free pages and leaves all other memory as
  it was.
\<close>

theorem kalloc_kfree_roundtrip:
  assumes "LKmem \<notin> held s" and "free_pages s (x # y # xs)"
  shows "\<exists>t u v. kalloc s = Done x t \<and> kalloc t = Done y u \<and> x \<noteq> y \<and>
    kfree x t = Done () v \<and> free_pages v (x # y # xs) \<and>
    (\<forall>a. \<not> in_page x a \<longrightarrow> kmem_mem v a = kmem_mem s a)"
proof -
  obtain t v where t: "kalloc s = Done x t" and v: "kfree x t = Done () v" "free_pages v (x # y # xs)"
    "\<forall>a. \<not> in_page x a \<longrightarrow> kmem_mem v a = kmem_mem s a"
    using pa.alloc_free [OF assms] by blast
  have nz: "x \<noteq> 0" "y \<noteq> 0"
    using pa.page_ok_nonzero [OF pa.pages_ok [OF assms(2)]] by auto
  note f = pa.alloc_fresh [OF assms t nz(1)]
  obtain u where u: "kalloc t = Done y u" using pa.alloc_Cons [OF f(5), of y xs] f(3) by auto
  with t v pa.allocs_differ [OF assms t u nz] show ?thesis by blast
qed

theorem kalloc_kfree_roundtrip_witness:
  "\<exists>(s :: kmst) x y. free_pages s [x, y] \<and> LKmem \<notin> held s \<and> (\<exists>t u. kalloc s = Done x t \<and> kalloc t = Done y u \<and> x \<noteq> y)"
proof -
  obtain s :: kmst where s: "free_pages s [0x8010B000]" "LKmem \<notin> held s" "good_page (kend s) 0x8010A000"
    using pa.free_Cons [of boot_kmem "[]" "0x8010B000"] boot_pages by (auto simp: boot_kmem_fields)
  obtain t :: kmst where "free_pages t [0x8010A000, 0x8010B000]" "LKmem \<notin> held t"
    using pa.free_Cons [OF s(2,1,3)] by auto
  with kalloc_kfree_roundtrip [of t "0x8010A000" "0x8010B000" "[]"] show ?thesis by blast
qed

text \<open>
  C27: \<^verbatim>\<open>kinit2\<close> over a range of physical memory behind the kernel completes, adds exactly the whole pages
  of the range to the free list, and from then on the allocator uses its lock.
\<close>

theorem kinit2_frees_range:
  assumes "LKmem \<notin> held s" and "free_pages s xs" and "kend s \<le> vstart" and "2 ^ 31 \<le> unat vstart"
    and "vstart \<le> vend" and "unat vend \<le> 0x8E000000"
    and "\<forall>x \<in> set xs. unat x < unat vstart \<or> unat vend \<le> unat x"
  shows "\<exists>t ps. kinit2 vstart vend s = Done () t \<and> use_lock t \<and> free_pages t (ps @ xs) \<and>
    set ps = whole_pages vstart vend"
proof -
  let ?p = "PGROUNDUP vstart"
  have le: "unat vstart \<le> 0x8E000000" using assms(5,6) by (simp add: word_le_nat_alt)
  then have up: "unat ?p = (unat vstart + 4095) div 4096 * 4096" by (simp add: unat_PGROUNDUP)
  then have b: "unat vstart \<le> unat ?p" "unat ?p \<le> unat vstart + 4095" by linarith+
  have "unat ?p \<le> unat q" if q: "page_aligned q" "unat vstart \<le> unat q" for q
  proof -
    obtain k where "unat q = 4096 * k" using q(1) by (rule page_alignedE)
    then show ?thesis using q(2) up by simp
  qed
  then have wp: "whole_pages ?p vend = whole_pages vstart vend"
    using b(1) by (auto simp: whole_pages_def)
  obtain t ps where t: "freerange_loop ?p vend s = Done () t" "free_pages t (ps @ xs)"
    "set ps = whole_pages ?p vend"
  proof (atomize_elim, rule exE [OF freerange_loop_pages [of ?p s xs vend]])
    show "kend s \<le> ?p" using assms(3) b(1) by (simp add: word_le_nat_alt)
    show "\<forall>x \<in> set xs. unat x < unat ?p \<or> unat vend \<le> unat x" using assms(7) b(1) by auto
  qed (use assms b le in auto)
  have "kinit2 vstart vend s = Done () (t\<lparr>use_lock := True\<rparr>)"
    by (simp add: kinit2_def freerange_def kop_simps t(1) del: freerange_loop.simps)
  moreover have "free_pages (t\<lparr>use_lock := True\<rparr>) (ps @ xs)" using t(2) by (simp add: free_pages_def)
  ultimately show ?thesis using t(3) wp by fastforce
qed

theorem kinit2_frees_range_witness:
  "\<exists>t ps. kinit2 0x8010A000 0x8010B800 boot_kmem = Done () t \<and> free_pages t ps \<and>
     set ps = whole_pages 0x8010A000 0x8010B800"
  using kinit2_frees_range [of boot_kmem "[]" "0x8010A000" "0x8010B800"]
  by (simp add: boot_kmem_fields word_le_nat_alt) blast

end
