(* ===== verification/Bio.thy ===== *)
theory Bio
  imports Kalloc
begin

text \<open>
  \<^verbatim>\<open>bio.c\<close> over the memory disk of \<^verbatim>\<open>memide.c\<close>. The buffers are an array threaded by \<^verbatim>\<open>prev\<close>/\<^verbatim>\<open>next\<close>
  into a ring around \<^verbatim>\<open>bcache.head\<close>, most recently used first; the lemmas show that the pointer code
  implements scans and moves on the list of buffers. The disk carries a ghost trace of the
  block writes, in order, for reasoning about crashes.
\<close>

section \<open>Definitions\<close>

record buf =
  bbusy :: bool
  bvalid :: bool
  bdirty :: bool
  bdev :: u32
  bblockno :: u32
  bprev :: nat
  bnext :: nat
  bqnext :: "nat option"
  bdata :: bytes

text \<open>Buffer pointers are indices into \<open>bufs\<close>; \<^verbatim>\<open>&bcache.head\<close> is the index behind the \<^verbatim>\<open>NBUF\<close> buffers.\<close>

record bcst = kmst +
  bufs :: "buf list"
  disk :: "bytes list"
  dtrace :: "(nat \<times> bytes) list"

definition bhead :: nat where
  "bhead = NBUF"

definition updb :: "buf list \<Rightarrow> nat \<Rightarrow> (buf \<Rightarrow> buf) \<Rightarrow> buf list" where
  "updb bs i f = bs[i := f (bs ! i)]"

definition upd_buf :: "nat \<Rightarrow> (buf \<Rightarrow> buf) \<Rightarrow> 'z bcst_scheme \<Rightarrow> 'z bcst_scheme" where
  "upd_buf i f s = s\<lparr>bufs := updb (bufs s) i f\<rparr>"

text \<open>The four pointer assignments that put \<^verbatim>\<open>b\<close> behind the head, and the two that take it out.\<close>

definition push_front :: "nat \<Rightarrow> buf list \<Rightarrow> buf list" where
  "push_front b bs =
     (let bs = updb bs b (\<lambda>x. x\<lparr>bnext := bnext (bs ! bhead)\<rparr>);
          bs = updb bs b (\<lambda>x. x\<lparr>bprev := bhead\<rparr>);
          bs = updb bs (bnext (bs ! bhead)) (\<lambda>x. x\<lparr>bprev := b\<rparr>)
      in updb bs bhead (\<lambda>x. x\<lparr>bnext := b\<rparr>))"

definition unlink_buf :: "nat \<Rightarrow> buf list \<Rightarrow> buf list" where
  "unlink_buf b bs =
     (let bs = updb bs (bnext (bs ! b)) (\<lambda>x. x\<lparr>bprev := bprev (bs ! b)\<rparr>)
      in updb bs (bprev (bs ! b)) (\<lambda>x. x\<lparr>bnext := bnext (bs ! b)\<rparr>))"

definition binit_slot :: "nat \<Rightarrow> ('z bcst_scheme, unit) kop" where
  "binit_slot b =
     bd (modify (upd_buf b (\<lambda>x. x\<lparr>bdev := - 1\<rparr>))) (\<lambda>_.
     modify (\<lambda>s. s\<lparr>bufs := push_front b (bufs s)\<rparr>))"

definition binit :: "('z bcst_scheme, unit) kop" where
  "binit =
     bd (modify (upd_buf bhead (\<lambda>x. x\<lparr>bprev := bhead\<rparr>))) (\<lambda>_.
     bd (modify (upd_buf bhead (\<lambda>x. x\<lparr>bnext := bhead\<rparr>))) (\<lambda>_.
     foreach [0..<NBUF] binit_slot))"

text \<open>
  The two scans of \<^verbatim>\<open>bget\<close>: follow the pointers \<open>step\<close> from \<^verbatim>\<open>b\<close> until the head or a buffer
  that passes the test. \<open>None\<close> means that the scan has not ended after \<open>n\<close> buffers.
\<close>

fun scan :: "(buf \<Rightarrow> nat) \<Rightarrow> (buf \<Rightarrow> bool) \<Rightarrow> buf list \<Rightarrow> nat \<Rightarrow> nat \<Rightarrow> nat option option" where
  "scan step P bs b 0 = None"
| "scan step P bs b (Suc n) =
     (if b = bhead then Some None
      else if P (bs ! b) then Some (Some b)
      else scan step P bs (step (bs ! b)) n)"

text \<open>
  \<^verbatim>\<open>bget\<close> behind its label \<^verbatim>\<open>loop\<close>. If the block's buffer is busy the process goes to sleep, and
  \<open>bget_resume\<close> is what it does when it runs again.
\<close>

definition bget_loop :: "u32 \<Rightarrow> u32 \<Rightarrow> ('z bcst_scheme, nat) kop" where
  "bget_loop dev blockno =
     bd (gets (\<lambda>s. scan bnext (\<lambda>b. bdev b = dev \<and> bblockno b = blockno) (bufs s)
                    (bnext (bufs s ! bhead)) (Suc NBUF))) (\<lambda>hit.
     case hit of
       None \<Rightarrow> (\<lambda>_. Fault)
     | Some (Some b) \<Rightarrow>
         bd (gets (\<lambda>s. bbusy (bufs s ! b))) (\<lambda>busy.
         if \<not> busy then
           bd (modify (upd_buf b (\<lambda>x. x\<lparr>bbusy := True\<rparr>))) (\<lambda>_.
           bd (release LBcache) (\<lambda>_. ret b))
         else bd (sleep (ChanBuf b) LBcache) (\<lambda>_ _. Fault))
     | Some None \<Rightarrow>
         bd (gets (\<lambda>s. scan bprev (\<lambda>b. \<not> bbusy b \<and> \<not> bdirty b) (bufs s)
                        (bprev (bufs s ! bhead)) (Suc NBUF))) (\<lambda>victim.
         case victim of
           None \<Rightarrow> (\<lambda>_. Fault)
         | Some (Some b) \<Rightarrow>
             bd (modify (upd_buf b (\<lambda>x. x\<lparr>bdev := dev\<rparr>))) (\<lambda>_.
             bd (modify (upd_buf b (\<lambda>x. x\<lparr>bblockno := blockno\<rparr>))) (\<lambda>_.
             bd (modify (upd_buf b (\<lambda>x. x\<lparr>bbusy := True, bvalid := False, bdirty := False\<rparr>))) (\<lambda>_.
             bd (release LBcache) (\<lambda>_. ret b))))
         | Some None \<Rightarrow> panic ''bget: no buffers''))"

definition bget :: "u32 \<Rightarrow> u32 \<Rightarrow> ('z bcst_scheme, nat) kop" where
  "bget dev blockno = bd (acquire LBcache) (\<lambda>_. bget_loop dev blockno)"

definition bget_resume :: "u32 \<Rightarrow> u32 \<Rightarrow> ('z bcst_scheme, nat) kop" where
  "bget_resume dev blockno = bd (sleep_resume LBcache) (\<lambda>_. bget_loop dev blockno)"

text \<open>\<^verbatim>\<open>iderw\<close> of \<^verbatim>\<open>memide.c\<close>; a block of the memory disk is an element of \<open>disk\<close>.\<close>

definition iderw :: "nat \<Rightarrow> ('z bcst_scheme, unit) kop" where
  "iderw b =
     bd (gets (\<lambda>s. bufs s ! b)) (\<lambda>x.
     bd (gets (\<lambda>s. length (disk s))) (\<lambda>disksize.
     if \<not> bbusy x then panic ''iderw: buf not busy''
     else if bvalid x \<and> \<not> bdirty x then panic ''iderw: nothing to do''
     else if bdev x \<noteq> 1 then panic ''iderw: request not for disk 1''
     else if unat (bblockno x) \<ge> disksize then panic ''iderw: block out of range''
     else
       bd (if bdirty x then
             bd (modify (upd_buf b (\<lambda>x. x\<lparr>bdirty := False\<rparr>))) (\<lambda>_.
             modify (\<lambda>s. s\<lparr>disk := (disk s)[unat (bblockno x) := bdata x],
                           dtrace := dtrace s @ [(unat (bblockno x), bdata x)]\<rparr>))
           else modify (\<lambda>s. upd_buf b (\<lambda>x. x\<lparr>bdata := disk s ! unat (bblockno x)\<rparr>) s)) (\<lambda>_.
       modify (upd_buf b (\<lambda>x. x\<lparr>bvalid := True\<rparr>)))))"

definition bread :: "u32 \<Rightarrow> u32 \<Rightarrow> ('z bcst_scheme, nat) kop" where
  "bread dev blockno =
     bd (bget dev blockno) (\<lambda>b.
     bd (gets (\<lambda>s. bvalid (bufs s ! b))) (\<lambda>v.
     bd (whenk (\<not> v) (iderw b)) (\<lambda>_.
     ret b)))"

definition bwrite :: "nat \<Rightarrow> ('z bcst_scheme, unit) kop" where
  "bwrite b =
     bd (gets (\<lambda>s. bbusy (bufs s ! b))) (\<lambda>busy.
     if \<not> busy then panic ''bwrite''
     else
       bd (modify (upd_buf b (\<lambda>x. x\<lparr>bdirty := True\<rparr>))) (\<lambda>_.
       iderw b))"

definition brelse :: "nat \<Rightarrow> ('z bcst_scheme, unit) kop" where
  "brelse b =
     bd (gets (\<lambda>s. bbusy (bufs s ! b))) (\<lambda>busy.
     if \<not> busy then panic ''brelse''
     else
       bd (acquire LBcache) (\<lambda>_.
       bd (modify (\<lambda>s. s\<lparr>bufs := push_front b (unlink_buf b (bufs s))\<rparr>)) (\<lambda>_.
       bd (modify (upd_buf b (\<lambda>x. x\<lparr>bbusy := False\<rparr>))) (\<lambda>_.
       bd (wakeup (ChanBuf b)) (\<lambda>_.
       release LBcache)))))"

section \<open>The ring of buffers\<close>

text \<open>The \<^verbatim>\<open>next\<close> pointers run from the head through \<open>xs\<close> back to it, the \<^verbatim>\<open>prev\<close> pointers back.\<close>

definition ring :: "buf list \<Rightarrow> nat list \<Rightarrow> bool" where
  "ring bs xs \<longleftrightarrow>
     length bs = Suc NBUF \<and> distinct xs \<and> set xs \<subseteq> {..<NBUF} \<and>
     map (\<lambda>i. bnext (bs ! i)) (bhead # xs) = xs @ [bhead] \<and>
     map (\<lambda>i. bprev (bs ! i)) (xs @ [bhead]) = bhead # xs"

lemma length_updb [simp]: "length (updb bs i f) = length bs"
  by (simp add: updb_def)

lemma nth_updb: "i < length bs \<Longrightarrow> updb bs i f ! j = (if j = i then f (bs ! i) else bs ! j)"
  by (simp add: updb_def)

lemma scan_path:
  assumes "map (\<lambda>i. step (bs ! i)) ys = tl (ys @ [bhead])" and "bhead \<notin> set ys" and "length ys < n"
  shows "scan step P bs (hd (ys @ [bhead])) n = Some (find (\<lambda>i. P (bs ! i)) ys)"
  using assms
proof (induction ys arbitrary: n)
  case Nil
  then show ?case by (cases n) auto
next
  case (Cons y ys)
  then obtain m where n: "n = Suc m" "length ys < m" by (cases n) auto
  have "step (bs ! y) = hd (ys @ [bhead])" "map (\<lambda>i. step (bs ! i)) ys = tl (ys @ [bhead])"
    using Cons.prems(1) by (cases ys; simp)+
  with Cons n show ?case by simp
qed

lemma ring_bhead: "ring bs xs \<Longrightarrow> bhead \<notin> set xs"
  by (auto simp: ring_def bhead_def)

lemma ring_length: "ring bs xs \<Longrightarrow> length xs \<le> NBUF"
  by (metis ring_def card_lessThan card_mono distinct_card finite_lessThan)

lemma scan_next:
  assumes "ring bs xs"
  shows "scan bnext P bs (bnext (bs ! bhead)) (Suc NBUF) = Some (find (\<lambda>i. P (bs ! i)) xs)"
proof -
  have "bnext (bs ! bhead) = hd (xs @ [bhead])" "map (\<lambda>i. bnext (bs ! i)) xs = tl (xs @ [bhead])"
    using assms by (cases xs; auto simp: ring_def)+
  then show ?thesis
    using scan_path [of bnext bs xs "Suc NBUF" P] ring_bhead [OF assms] ring_length [OF assms] by simp
qed

lemma scan_prev:
  assumes "ring bs xs"
  shows "scan bprev P bs (bprev (bs ! bhead)) (Suc NBUF) = Some (find (\<lambda>i. P (bs ! i)) (rev xs))"
proof -
  have "rev (map (\<lambda>i. bprev (bs ! i)) (xs @ [bhead])) = rev (bhead # xs)"
    using assms by (simp add: ring_def)
  then have "bprev (bs ! bhead) # map (\<lambda>i. bprev (bs ! i)) (rev xs) = rev xs @ [bhead]"
    by (simp add: rev_map)
  then have "bprev (bs ! bhead) = hd (rev xs @ [bhead])"
    "map (\<lambda>i. bprev (bs ! i)) (rev xs) = tl (rev xs @ [bhead])"
    by (metis list.sel(1), metis list.sel(3))
  then show ?thesis
    using scan_path [of bprev bs "rev xs" "Suc NBUF" P] ring_bhead [OF assms] ring_length [OF assms]
    by simp
qed

lemma push_front_links:
  assumes "length bs = Suc NBUF" and "b < NBUF" and "q = bnext (bs ! bhead)" and "q \<noteq> b" and "q \<le> NBUF"
  shows "bnext (push_front b bs ! i) = (if i = bhead then b else if i = b then q else bnext (bs ! i))"
    and "bprev (push_front b bs ! i) = (if i = q then b else if i = b then bhead else bprev (bs ! i))"
proof -
  have "bhead < length bs" "b < length bs" "q < length bs" "b \<noteq> bhead"
    using assms by (simp_all add: bhead_def)
  then show "bnext (push_front b bs ! i) = (if i = bhead then b else if i = b then q else bnext (bs ! i))"
    "bprev (push_front b bs ! i) = (if i = q then b else if i = b then bhead else bprev (bs ! i))"
    using assms(3,4) by (auto simp: push_front_def Let_def nth_updb)
qed

lemma unlink_buf_links:
  assumes "length bs = Suc NBUF" and "p = bprev (bs ! b)" and "q = bnext (bs ! b)"
    and "p \<le> NBUF" and "q \<le> NBUF" and "b \<noteq> p" and "b \<noteq> q"
  shows "bnext (unlink_buf b bs ! i) = (if i = p then q else bnext (bs ! i))"
    and "bprev (unlink_buf b bs ! i) = (if i = q then p else bprev (bs ! i))"
  using assms by (auto simp: unlink_buf_def Let_def nth_updb)

text \<open>Moving links changes nothing else of a buffer.\<close>

definition same_but_links :: "buf list \<Rightarrow> buf list \<Rightarrow> bool" where
  "same_but_links bs cs \<longleftrightarrow> length cs = length bs \<and>
     (\<forall>i < length bs. cs ! i = (bs ! i)\<lparr>bprev := bprev (cs ! i), bnext := bnext (cs ! i)\<rparr>)"

lemma same_but_links_updb:
  "(\<And>x. f x = x\<lparr>bprev := bprev (f x), bnext := bnext (f x)\<rparr>) \<Longrightarrow> same_but_links bs (updb bs i f)"
  by (cases "i < length bs") (simp_all add: same_but_links_def updb_def nth_list_update)

lemma same_but_links_trans:
  assumes "same_but_links as bs" and "same_but_links bs cs"
  shows "same_but_links as cs"
  unfolding same_but_links_def
proof (intro conjI allI impI)
  show "length cs = length as" using assms by (simp add: same_but_links_def)
  fix i assume i: "i < length as"
  then have "cs ! i = (bs ! i)\<lparr>bprev := bprev (cs ! i), bnext := bnext (cs ! i)\<rparr>"
    "bs ! i = (as ! i)\<lparr>bprev := bprev (bs ! i), bnext := bnext (bs ! i)\<rparr>"
    using assms by (simp_all add: same_but_links_def)
  then show "cs ! i = (as ! i)\<lparr>bprev := bprev (cs ! i), bnext := bnext (cs ! i)\<rparr>"
    by (metis (no_types, lifting) buf.surjective buf.update_convs(6,7))
qed

lemma same_but_links_step:
  "same_but_links bs cs \<Longrightarrow> (\<And>x. f x = x\<lparr>bprev := bprev (f x), bnext := bnext (f x)\<rparr>) \<Longrightarrow>
   same_but_links bs (updb cs i f)"
  by (rule same_but_links_trans [OF _ same_but_links_updb])

lemma same_but_links_refl: "same_but_links bs bs"
  by (simp add: same_but_links_def)

lemma push_front_same: "same_but_links bs (push_front b bs)"
  unfolding push_front_def Let_def
  by (rule same_but_links_step same_but_links_refl | simp)+

lemma unlink_buf_same: "same_but_links bs (unlink_buf b bs)"
  unfolding unlink_buf_def Let_def
  by (rule same_but_links_step same_but_links_refl | simp)+

lemma ring_push_front:
  assumes "ring bs xs" and "b < NBUF" and "b \<notin> set xs"
  shows "ring (push_front b bs) (b # xs)"
proof -
  define q where "q = hd (xs @ [bhead])"
  have r: "length bs = Suc NBUF" "distinct xs" "set xs \<subseteq> {..<NBUF}" "bnext (bs ! bhead) = q"
    "map (\<lambda>i. bnext (bs ! i)) xs = tl (xs @ [bhead])"
    "map (\<lambda>i. bprev (bs ! i)) (xs @ [bhead]) = bhead # xs"
    using assms(1) by (cases xs; auto simp: ring_def q_def)+
  have q: "q \<noteq> b" "q \<le> NBUF"
    using r(3) assms(2,3) by (cases xs; auto simp: q_def bhead_def)+
  note l = push_front_links [OF r(1) assms(2) r(4) [symmetric] q]
  have h: "bhead \<notin> set xs" "bhead \<noteq> b" using r(3) assms(2) by (auto simp: bhead_def)
  have "map (\<lambda>i. bnext (push_front b bs ! i)) (bhead # b # xs) = b # q # map (\<lambda>i. bnext (bs ! i)) xs"
    using h assms(3) by (simp add: l cong: map_cong) (auto intro!: map_cong)
  also have "\<dots> = (b # xs) @ [bhead]" unfolding r(5) by (cases xs) (simp_all add: q_def)
  finally have nx: "map (\<lambda>i. bnext (push_front b bs ! i)) (bhead # b # xs) = (b # xs) @ [bhead]" .
  obtain ys where ys: "xs @ [bhead] = q # ys" "q \<notin> set ys"
    using r(2) h(1) by (cases xs) (auto simp: q_def)
  have yb: "b \<notin> set ys" using ys(1) assms(3) h(2) by (metis UnE list.set(1) list.set(2) insertE empty_iff set_append set_subset_Cons subsetD)
  have "map (\<lambda>i. bprev (push_front b bs ! i)) ys = map (\<lambda>i. bprev (bs ! i)) ys"
    using ys(2) yb by (auto simp: l)
  moreover have "map (\<lambda>i. bprev (bs ! i)) ys = xs" using r(6) unfolding ys(1) by simp
  ultimately have "map (\<lambda>i. bprev (push_front b bs ! i)) (b # xs @ [bhead]) = bhead # b # xs"
    unfolding ys(1) using q(1) by (simp add: l)
  with nx r assms(2,3) show ?thesis
    using push_front_same [of bs b] by (simp add: ring_def same_but_links_def)
qed

lemma append_split:
  assumes "xs @ ys = us @ vs" and "length xs = length us"
  shows "xs = us" and "ys = vs"
  using assms by simp_all

lemma ring_unlink:
  assumes "ring bs (us @ b # vs)"
  shows "ring (unlink_buf b bs) (us @ vs)"
proof -
  let ?nx = "\<lambda>bs i. bnext (bs ! i)" and ?pv = "\<lambda>bs i. bprev (bs ! i)"
  have len: "length bs = Suc NBUF" and dist: "distinct (us @ b # vs)"
    and sub: "set (us @ b # vs) \<subseteq> {..<NBUF}"
    using assms by (simp_all add: ring_def)
  have h: "bhead \<notin> set (us @ b # vs)" using sub by (auto simp: bhead_def)
  have n: "map (?nx bs) (bhead # us) @ map (?nx bs) (b # vs) = (us @ [b]) @ vs @ [bhead]"
    and p: "map (?pv bs) (us @ [b]) @ map (?pv bs) (vs @ [bhead]) = (bhead # us) @ b # vs"
    using assms by (simp_all add: ring_def)
  have nx: "map (?nx bs) (bhead # us) = us @ [b]" "map (?nx bs) (b # vs) = vs @ [bhead]"
    by (rule append_split [OF n], simp)+
  have pv: "map (?pv bs) (us @ [b]) = bhead # us" "map (?pv bs) (vs @ [bhead]) = b # vs"
    by (rule append_split [OF p], simp)+
  obtain ps p where ps: "bhead # us = ps @ [p]" by (metis list.distinct(1) rev_exhaust)
  obtain q ws where ws: "vs @ [bhead] = q # ws" by (metis Nil_is_append_conv list.exhaust not_Cons_self2)
  have "distinct (bhead # us)" "distinct (vs @ [bhead])" using dist h by auto
  then have d: "p \<notin> set ps" "q \<notin> set ws" unfolding ps ws by simp_all
  have pus: "p \<in> set (bhead # us)" and qvs: "q \<in> set (vs @ [bhead])" unfolding ps ws by simp_all
  have e: "map (?nx bs) ps = us" "?nx bs b = q" "map (?nx bs) vs = ws"
      "map (?pv bs) us = ps" "?pv bs b = p" "map (?pv bs) ws = vs"
    using nx pv unfolding ps ws by simp_all
  have pq: "p \<le> NBUF" "q \<le> NBUF" "b \<noteq> p" "b \<noteq> q" "p \<notin> set vs" "q \<notin> set us"
    using pus qvs sub dist h by (auto simp: bhead_def)
  note l = unlink_buf_links [OF len e(5) [symmetric] e(2) [symmetric] pq(1-4)]
  have "map (?nx (unlink_buf b bs)) ps = map (?nx bs) ps" "map (?nx (unlink_buf b bs)) vs = map (?nx bs) vs"
    using d(1) pq(5) by (auto simp: l)
  then have "map (?nx (unlink_buf b bs)) ((ps @ [p]) @ vs) = us @ q # ws" by (simp add: l e)
  then have nx': "map (?nx (unlink_buf b bs)) (bhead # us @ vs) = us @ vs @ [bhead]"
    unfolding ps [symmetric] ws [symmetric] by simp
  have "map (?pv (unlink_buf b bs)) us = map (?pv bs) us" "map (?pv (unlink_buf b bs)) ws = map (?pv bs) ws"
    using d(2) pq(6) by (auto simp: l)
  then have "map (?pv (unlink_buf b bs)) (us @ q # ws) = (ps @ [p]) @ vs" by (simp add: l e)
  then have pv': "map (?pv (unlink_buf b bs)) (us @ vs @ [bhead]) = bhead # us @ vs"
    unfolding ps [symmetric] ws [symmetric] by simp
  show ?thesis
    using nx' pv' len dist sub unlink_buf_same [of bs b] by (simp add: ring_def same_but_links_def)
qed

lemma ring_touch:
  assumes "ring bs xs" and "b \<in> set xs"
  shows "ring (push_front b (unlink_buf b bs)) (b # remove1 b xs)"
proof -
  obtain us vs where xs: "xs = us @ b # vs" "b \<notin> set us" using assms(2) by (meson split_list_first)
  then have r: "remove1 b xs = us @ vs" by (simp add: remove1_append)
  have "b \<notin> set (us @ vs)" "b < NBUF" using assms xs by (auto simp: ring_def)
  with assms(1) xs r show ?thesis by (simp add: ring_push_front ring_unlink)
qed

text \<open>Assignments to the other fields keep the ring.\<close>

lemma ring_cong:
  assumes "ring bs xs" and "length cs = length bs"
    and "\<And>i. i < length bs \<Longrightarrow> bnext (cs ! i) = bnext (bs ! i) \<and> bprev (cs ! i) = bprev (bs ! i)"
  shows "ring cs xs"
proof -
  have "i < length bs" if "i = bhead \<or> i \<in> set xs" for i
    using that assms(1) by (auto simp: ring_def bhead_def)
  then have "map (\<lambda>i. bnext (cs ! i)) (bhead # xs) = map (\<lambda>i. bnext (bs ! i)) (bhead # xs)"
    "map (\<lambda>i. bprev (cs ! i)) (xs @ [bhead]) = map (\<lambda>i. bprev (bs ! i)) (xs @ [bhead])"
    using assms(3) by (simp_all cong: map_cong)
  with assms show ?thesis by (simp add: ring_def)
qed

end
