(* ===== verification/Bcache.thy ===== *)
theory Bcache
  imports Bio
begin

text \<open>
  The buffer cache as a whole: an array of blocks with buffer handles. An abstraction
  from the buffers, an invariant, and for each operation of \<^verbatim>\<open>bio.c\<close> what it does to the abstract state,
  including that it returns; then the interface the log and the file system are verified against.
\<close>

section \<open>The cache as an array of blocks\<close>

text \<open>
  The abstract state: the content of every block (from its valid buffer, else from the disk), the
  block each busy buffer is a handle of, and the blocks whose buffer is dirty.
\<close>

definition slot :: "buf list \<Rightarrow> u32 \<Rightarrow> nat option" where
  "slot bs n = find (\<lambda>i. bdev (bs ! i) = 1 \<and> bblockno (bs ! i) = n) [0..<NBUF]"

definition bview :: "'z bcst_scheme \<Rightarrow> u32 \<Rightarrow> bytes" where
  "bview s n = (case slot (bufs s) n of
     Some i \<Rightarrow> if bvalid (bufs s ! i) then bdata (bufs s ! i) else disk s ! unat n
   | None \<Rightarrow> disk s ! unat n)"

definition handle :: "'z bcst_scheme \<Rightarrow> nat \<Rightarrow> u32 option" where
  "handle s b = (if b < NBUF \<and> bbusy (bufs s ! b) then Some (bblockno (bufs s ! b)) else None)"

definition dirties :: "'z bcst_scheme \<Rightarrow> u32 set" where
  "dirties s = {n. \<exists>i < NBUF. bdirty (bufs s ! i) \<and> bblockno (bufs s ! i) = n}"

definition uniq :: "buf list \<Rightarrow> bool" where
  "uniq bs \<longleftrightarrow> (\<forall>i < NBUF. \<forall>j < NBUF. bdev (bs ! i) = 1 \<longrightarrow> bdev (bs ! j) = 1 \<longrightarrow>
     bblockno (bs ! i) = bblockno (bs ! j) \<longrightarrow> i = j)"

definition buf_ok :: "bytes list \<Rightarrow> buf \<Rightarrow> bool" where
  "buf_ok d x \<longleftrightarrow>
     (bbusy x \<longrightarrow> bvalid x) \<and> (bdirty x \<longrightarrow> bvalid x) \<and> (bvalid x \<longrightarrow> bdev x = 1) \<and>
     (bdev x = 1 \<longrightarrow> unat (bblockno x) < length d) \<and> length (bdata x) = BSIZE \<and>
     (bvalid x \<longrightarrow> \<not> bbusy x \<longrightarrow> \<not> bdirty x \<longrightarrow> bdata x = d ! unat (bblockno x))"

definition bc_inv :: "'z bcst_scheme \<Rightarrow> bool" where
  "bc_inv s \<longleftrightarrow>
     (\<exists>xs. ring (bufs s) xs \<and> set xs = {..<NBUF}) \<and>
     (\<forall>i < NBUF. buf_ok (disk s) (bufs s ! i)) \<and> uniq (bufs s) \<and>
     (\<forall>x \<in> set (disk s). length x = BSIZE)"

text \<open>What the cache operations leave alone: everything but the buffers, the disk and the sleepers.\<close>

definition woken :: "proc list \<Rightarrow> proc list \<Rightarrow> bool" where
  "woken ps qs \<longleftrightarrow> list_all2 (\<lambda>p q. q = p\<lparr>state := state q\<rparr> \<and>
     (state q = state p \<or> state p = SLEEPING \<and> state q = RUNNABLE)) ps qs"

definition cframe :: "'z bcst_scheme \<Rightarrow> 'z bcst_scheme \<Rightarrow> bool" where
  "cframe s t \<longleftrightarrow> t = s\<lparr>ptable := ptable t, bufs := bufs t, disk := disk t, dtrace := dtrace t\<rparr> \<and>
     woken (ptable s) (ptable t)"

lemma woken_refl [simp]: "woken ps ps"
  by (simp add: woken_def list.rel_refl)

lemma woken_trans:
  assumes "woken ps qs" and "woken qs rs"
  shows "woken ps rs"
proof -
  let ?R = "\<lambda>p q. q = p\<lparr>state := state q\<rparr> \<and>
     (state q = state p \<or> state p = SLEEPING \<and> state q = RUNNABLE)"
  have tr: "?R p r" if pq: "?R p q" and qr: "?R q r" for p q r
  proof
    have e: "r = q\<lparr>state := state r\<rparr>" "q = p\<lparr>state := state q\<rparr>" using pq qr by blast+
    show "r = p\<lparr>state := state r\<rparr>" by (subst e(1), subst e(2)) simp
    show "state r = state p \<or> state p = SLEEPING \<and> state r = RUNNABLE" using pq qr by auto
  qed
  show ?thesis unfolding woken_def
    by (rule list_all2_trans [OF tr]) (use assms in \<open>simp_all only: woken_def\<close>)
qed

lemma woken_wakeup:
  "woken ps (map (\<lambda>p. if state p = SLEEPING \<and> chan p = Some c then p\<lparr>state := RUNNABLE\<rparr> else p) ps)"
  by (auto simp: woken_def list_all2_conv_all_nth)

lemma cframe_refl [simp]: "cframe s s"
  by (simp add: cframe_def)

lemma cframe_trans:
  assumes "cframe s t" and "cframe t u"
  shows "cframe s u"
proof -
  have tu: "u = t\<lparr>ptable := ptable u, bufs := bufs u, disk := disk u, dtrace := dtrace u\<rparr>"
    and st: "t = s\<lparr>ptable := ptable t, bufs := bufs t, disk := disk t, dtrace := dtrace t\<rparr>"
    using assms unfolding cframe_def by blast+
  have "u = s\<lparr>ptable := ptable u, bufs := bufs u, disk := disk u, dtrace := dtrace u\<rparr>"
    by (subst tu, subst st) simp
  with assms woken_trans show ?thesis unfolding cframe_def by blast
qed

lemma slot_None: "slot bs n = None \<longleftrightarrow> (\<forall>i < NBUF. \<not> (bdev (bs ! i) = 1 \<and> bblockno (bs ! i) = n))"
  by (auto simp: slot_def find_None_iff)

lemma slot_SomeD:
  "slot bs n = Some i \<Longrightarrow> i < NBUF \<and> bdev (bs ! i) = 1 \<and> bblockno (bs ! i) = n"
  by (auto simp: slot_def find_Some_iff)

lemma slot_Some:
  assumes "uniq bs" and "i < NBUF" and "bdev (bs ! i) = 1"
  shows "slot bs (bblockno (bs ! i)) = Some i"
proof (cases "slot bs (bblockno (bs ! i))")
  case None
  with assms have False by (auto simp: slot_None)
  then show ?thesis ..
next
  case (Some j)
  with assms show ?thesis by (auto simp: uniq_def dest!: slot_SomeD)
qed

text \<open>The view of a state only depends on these facts.\<close>

definition wf_bufs :: "'z bcst_scheme \<Rightarrow> bool" where
  "wf_bufs s \<longleftrightarrow> uniq (bufs s) \<and> (\<forall>i < NBUF. bvalid (bufs s ! i) \<longrightarrow> bdev (bufs s ! i) = 1)"

lemma bc_inv_wf: "bc_inv s \<Longrightarrow> wf_bufs s"
  by (auto simp: bc_inv_def wf_bufs_def buf_ok_def)

lemma bview_valid:
  assumes "wf_bufs s" and "i < NBUF" and "bvalid (bufs s ! i)"
  shows "bview s (bblockno (bufs s ! i)) = bdata (bufs s ! i)"
  using assms slot_Some [of "bufs s" i] by (simp add: bview_def wf_bufs_def)

lemma bview_disk:
  assumes "\<And>i. i < NBUF \<Longrightarrow> bvalid (bufs s ! i) \<Longrightarrow> bblockno (bufs s ! i) \<noteq> n"
  shows "bview s n = disk s ! unat n"
  using assms by (auto simp: bview_def split: option.split dest!: slot_SomeD)

lemma bview_update:
  assumes "wf_bufs s" and "wf_bufs t"
    and "\<And>i. i < NBUF \<Longrightarrow> i \<noteq> b \<Longrightarrow> bvalid (bufs t ! i) = bvalid (bufs s ! i) \<and>
      bblockno (bufs t ! i) = bblockno (bufs s ! i) \<and> bdata (bufs t ! i) = bdata (bufs s ! i)"
    and "b < NBUF" and "bvalid (bufs t ! b)" and "bblockno (bufs t ! b) = n"
    and "bvalid (bufs s ! b) \<Longrightarrow> m = bblockno (bufs s ! b)"
    and "m \<noteq> n \<Longrightarrow> bvalid (bufs s ! b) \<Longrightarrow> bdata (bufs s ! b) = disk s ! unat m"
    and "\<And>k. k \<noteq> n \<Longrightarrow> disk t ! unat k = disk s ! unat k"
  shows "bview t = (bview s)(n := bdata (bufs t ! b))"
proof
  fix k
  show "bview t k = ((bview s)(n := bdata (bufs t ! b))) k"
  proof (cases "k = n")
    case True
    with bview_valid [OF assms(2,4,5)] assms(6) show ?thesis by simp
  next
    case False
    show ?thesis
    proof (cases "\<exists>i < NBUF. i \<noteq> b \<and> bvalid (bufs s ! i) \<and> bblockno (bufs s ! i) = k")
      case True
      then obtain i where i: "i < NBUF" "i \<noteq> b" "bvalid (bufs s ! i)" "bblockno (bufs s ! i) = k" by blast
      with bview_valid [OF assms(1) i(1,3)] bview_valid [OF assms(2) i(1)] assms(3) [OF i(1,2)] False
      show ?thesis by simp
    next
      case none: False
      have "bview t k = disk t ! unat k"
        by (rule bview_disk) (use none False assms(3,6) in metis)
      moreover have "bview s k = disk s ! unat k"
      proof (cases "bvalid (bufs s ! b) \<and> m = k")
        case True
        then show ?thesis using bview_valid [OF assms(1,4)] assms(7,8) False by metis
      next
        case other: False
        show ?thesis by (rule bview_disk) (use none other assms(7) in metis)
      qed
      ultimately show ?thesis using False assms(9) by simp
    qed
  qed
qed

section \<open>Reading a block\<close>

lemma bget_hit:
  assumes "ring (bufs s) xs" and "LBcache \<notin> held s"
    and "find (\<lambda>i. bdev (bufs s ! i) = dev \<and> bblockno (bufs s ! i) = n) xs = Some b"
    and "\<not> bbusy (bufs s ! b)"
  shows "bget dev n s = Done b (s\<lparr>bufs := updb (bufs s) b (\<lambda>x. x\<lparr>bbusy := True\<rparr>)\<rparr>)"
  using assms by (simp add: bget_def bget_loop_def kop_simps scan_next upd_buf_def insert_Diff_if del: scan.simps)

lemma bget_busy:
  assumes "ring (bufs s) xs" and "LBcache \<notin> held s"
    and "find (\<lambda>i. bdev (bufs s ! i) = dev \<and> bblockno (bufs s ! i) = n) xs = Some b"
    and "bbusy (bufs s ! b)"
  shows "bget dev n s = bd (sleep (ChanBuf b) LBcache) (\<lambda>_ _. Fault) (s\<lparr>held := insert LBcache (held s)\<rparr>)"
  using assms by (simp add: bget_def bget_loop_def kop_simps scan_next del: scan.simps)

lemma bget_miss:
  assumes "ring (bufs s) xs" and "LBcache \<notin> held s"
    and "find (\<lambda>i. bdev (bufs s ! i) = dev \<and> bblockno (bufs s ! i) = n) xs = None"
  shows "bget dev n s = (case find (\<lambda>i. \<not> bbusy (bufs s ! i) \<and> \<not> bdirty (bufs s ! i)) (rev xs) of
      None \<Rightarrow> Panicked ''bget: no buffers''
    | Some b \<Rightarrow> Done b (s\<lparr>bufs := (bufs s)[b := (bufs s ! b)\<lparr>bdev := dev, bblockno := n,
        bbusy := True, bvalid := False, bdirty := False\<rparr>]\<rparr>))"
proof (cases "find (\<lambda>i. \<not> bbusy (bufs s ! i) \<and> \<not> bdirty (bufs s ! i)) (rev xs)")
  case None
  with assms show ?thesis
    by (simp add: bget_def bget_loop_def kop_simps scan_next scan_prev del: scan.simps)
next
  case (Some b)
  then have "b \<in> set xs" by (auto dest: find_SomeD)
  then have "b < length (bufs s)" using assms(1) by (auto simp: ring_def)
  with Some assms show ?thesis
    by (simp add: bget_def bget_loop_def kop_simps scan_next scan_prev upd_buf_def updb_def insert_Diff_if
        del: scan.simps)
qed

lemma iderw_read:
  assumes "x = bufs s ! b" and "b < length (bufs s)" and "bbusy x" and "\<not> bvalid x" and "\<not> bdirty x"
    and "bdev x = 1" and "unat (bblockno x) < length (disk s)"
  shows "iderw b s = Done () (s\<lparr>bufs := (bufs s)[b := x\<lparr>bdata := disk s ! unat (bblockno x), bvalid := True\<rparr>]\<rparr>)"
  using assms by (simp add: iderw_def kop_simps upd_buf_def updb_def)

lemma iderw_write:
  assumes "x = bufs s ! b" and "b < length (bufs s)" and "bbusy x" and "bdirty x"
    and "bdev x = 1" and "unat (bblockno x) < length (disk s)"
  shows "iderw b s = Done () (s\<lparr>bufs := (bufs s)[b := x\<lparr>bdirty := False, bvalid := True\<rparr>],
    disk := (disk s)[unat (bblockno x) := bdata x], dtrace := dtrace s @ [(unat (bblockno x), bdata x)]\<rparr>)"
  using assms by (simp add: iderw_def kop_simps upd_buf_def updb_def)

text \<open>The buffer \<^verbatim>\<open>bread\<close> takes for block \<open>n\<close>, as a function of the state.\<close>

definition claimed :: "'z bcst_scheme \<Rightarrow> u32 \<Rightarrow> nat \<Rightarrow> 'z bcst_scheme" where
  "claimed s n b = s\<lparr>bufs := (bufs s)[b := (bufs s ! b)\<lparr>bbusy := True, bvalid := True, bdev := 1,
     bblockno := n, bdata := bview s n\<rparr>]\<rparr>"

definition claimable :: "'z bcst_scheme \<Rightarrow> u32 \<Rightarrow> nat \<Rightarrow> bool" where
  "claimable s n b \<longleftrightarrow> b < NBUF \<and> \<not> bbusy (bufs s ! b) \<and>
     (bdev (bufs s ! b) = 1 \<and> bblockno (bufs s ! b) = n \<or>
      \<not> bdirty (bufs s ! b) \<and> slot (bufs s) n = None)"

lemma bc_invE:
  assumes "bc_inv s"
  obtains xs where "ring (bufs s) xs" "set xs = {..<NBUF}" "length (bufs s) = Suc NBUF"
  using assms by (auto simp: bc_inv_def ring_def)

lemma bc_inv_ok: "bc_inv s \<Longrightarrow> i < NBUF \<Longrightarrow> buf_ok (disk s) (bufs s ! i)"
  by (simp add: bc_inv_def)

lemma bread_run:
  assumes inv: "bc_inv s" and "LBcache \<notin> held s" and n: "unat n < length (disk s)"
    and idle: "n \<notin> ran (handle s)"
    and room: "n \<in> dirties s \<or> (\<exists>i < NBUF. \<not> bbusy (bufs s ! i) \<and> \<not> bdirty (bufs s ! i))"
  shows "\<exists>b. claimable s n b \<and> bread 1 n s = Done b (claimed s n b)"
proof -
  obtain xs where xs: "ring (bufs s) xs" "set xs = {..<NBUF}" and len: "length (bufs s) = Suc NBUF"
    using inv by (rule bc_invE)
  let ?P = "\<lambda>i. bdev (bufs s ! i) = 1 \<and> bblockno (bufs s ! i) = n"
  show ?thesis
  proof (cases "find ?P xs")
    case (Some b)
    then have b: "b < NBUF" "bdev (bufs s ! b) = 1" "bblockno (bufs s ! b) = n"
      using find_SomeD [OF Some] xs(2) by auto
    have "handle s b = Some n" if "bbusy (bufs s ! b)" using that b by (simp add: handle_def)
    then have nb: "\<not> bbusy (bufs s ! b)" using idle by (auto intro: ranI)
    note g = bget_hit [OF xs(1) assms(2) Some nb]
    have v: "bview s n = (if bvalid (bufs s ! b) then bdata (bufs s ! b) else disk s ! unat n)"
      using slot_Some [of "bufs s" b] b inv by (simp add: bview_def bc_inv_def)
    have "bread 1 n s = Done b (claimed s n b)"
    proof (cases "bvalid (bufs s ! b)")
      case True
      then show ?thesis
        using g b v len
        by (cases "bufs s ! b") (simp add: bread_def kop_simps updb_def claimed_def)
    next
      case False
      then have "\<not> bdirty (bufs s ! b)" using bc_inv_ok [OF inv b(1)] by (auto simp: buf_ok_def)
      then show ?thesis
        using False g b v len n
        by (cases "bufs s ! b") (simp add: bread_def kop_simps updb_def claimed_def iderw_read)
    qed
    with b nb show ?thesis by (auto simp: claimable_def)
  next
    case None
    let ?Q = "\<lambda>i. \<not> bbusy (bufs s ! i) \<and> \<not> bdirty (bufs s ! i)"
    have sl: "slot (bufs s) n = None" using None xs(2) by (auto simp: find_None_iff slot_None)
    have "n \<notin> dirties s" using sl bc_inv_ok [OF inv] by (auto simp: dirties_def slot_None buf_ok_def)
    then have "find ?Q (rev xs) \<noteq> None" using room xs(2) by (auto simp: find_None_iff)
    then obtain b where f: "find ?Q (rev xs) = Some b" by auto
    then have b: "b < NBUF" "\<not> bbusy (bufs s ! b)" "\<not> bdirty (bufs s ! b)"
      using find_SomeD [OF f] xs(2) by auto
    have "bread 1 n s = Done b (claimed s n b)"
      using bget_miss [OF xs(1) assms(2) None] f b len n sl
      by (cases "bufs s ! b") (simp add: bread_def kop_simps claimed_def iderw_read bview_def)
    with b sl show ?thesis by (auto simp: claimable_def)
  qed
qed

text \<open>Replacing one buffer keeps the invariant if the new buffer is in order and its block is its own.\<close>

lemma bc_inv_replace:
  assumes inv: "bc_inv s" and b: "b < NBUF" and ok: "buf_ok (disk s) x"
    and links: "bnext x = bnext (bufs s ! b)" "bprev x = bprev (bufs s ! b)"
    and own: "\<And>i. i < NBUF \<Longrightarrow> i \<noteq> b \<Longrightarrow> bdev x = 1 \<Longrightarrow> bdev (bufs s ! i) = 1 \<Longrightarrow>
      bblockno (bufs s ! i) \<noteq> bblockno x"
  shows "bc_inv (s\<lparr>bufs := (bufs s)[b := x]\<rparr>)"
proof -
  obtain xs where xs: "ring (bufs s) xs" "set xs = {..<NBUF}" and len: "length (bufs s) = Suc NBUF"
    using inv by (rule bc_invE)
  have "ring ((bufs s)[b := x]) xs"
    by (rule ring_cong [OF xs(1)]) (use links len b in \<open>auto simp: nth_list_update\<close>)
  moreover have "uniq ((bufs s)[b := x])"
    unfolding uniq_def
  proof (intro allI impI)
    fix i j
    assume ij: "i < NBUF" "j < NBUF" "bdev ((bufs s)[b := x] ! i) = 1" "bdev ((bufs s)[b := x] ! j) = 1"
      "bblockno ((bufs s)[b := x] ! i) = bblockno ((bufs s)[b := x] ! j)"
    have "uniq (bufs s)" using inv by (simp add: bc_inv_def)
    with ij own [of i] own [of j] len b show "i = j"
      by (cases "i = b"; cases "j = b") (auto simp: uniq_def)
  qed
  moreover have "\<forall>i < NBUF. buf_ok (disk s) ((bufs s)[b := x] ! i)"
    using inv ok len b by (simp add: bc_inv_def nth_list_update)
  ultimately show ?thesis using inv xs(2) by (auto simp: bc_inv_def)
qed

lemma handle_replace:
  "b < NBUF \<Longrightarrow> length (bufs s) = Suc NBUF \<Longrightarrow> handle (s\<lparr>bufs := (bufs s)[b := x]\<rparr>) =
    (handle s)(b := if bbusy x then Some (bblockno x) else None)"
  by (auto simp: handle_def)

lemma dirties_replace:
  assumes "b < NBUF" and "length (bufs s) = Suc NBUF" and "bc_inv s"
  shows "dirties (s\<lparr>bufs := (bufs s)[b := x]\<rparr>) =
    (if bdirty (bufs s ! b) then dirties s - {bblockno (bufs s ! b)} else dirties s) \<union>
    (if bdirty x then {bblockno x} else {})"
proof -
  have u: "bblockno (bufs s ! i) \<noteq> bblockno (bufs s ! b)"
    if "i < NBUF" "i \<noteq> b" "bdirty (bufs s ! i)" "bdirty (bufs s ! b)" for i
    using that assms(1,3) bc_inv_ok [OF assms(3)] by (auto simp: bc_inv_def buf_ok_def uniq_def)
  have "n \<in> dirties (s\<lparr>bufs := (bufs s)[b := x]\<rparr>) \<longleftrightarrow>
      (\<exists>i < NBUF. i \<noteq> b \<and> bdirty (bufs s ! i) \<and> bblockno (bufs s ! i) = n) \<or> bdirty x \<and> bblockno x = n" for n
    using assms(1,2) by (auto simp: dirties_def nth_list_update)
  moreover have "n \<in> dirties s \<longleftrightarrow>
      (\<exists>i < NBUF. i \<noteq> b \<and> bdirty (bufs s ! i) \<and> bblockno (bufs s ! i) = n) \<or>
      bdirty (bufs s ! b) \<and> bblockno (bufs s ! b) = n" for n
    using assms(1) by (auto simp: dirties_def)
  ultimately show ?thesis using u by (cases "bdirty (bufs s ! b)"; cases "bdirty x") fastforce+
qed

lemma handle_Some:
  "handle s b = Some n \<longleftrightarrow> b < NBUF \<and> bbusy (bufs s ! b) \<and> bblockno (bufs s ! b) = n"
  by (auto simp: handle_def)

lemma handle_facts:
  assumes "bc_inv s" and "handle s b = Some n"
  shows "b < NBUF" "b < length (bufs s)" "bbusy (bufs s ! b)" "bblockno (bufs s ! b) = n"
    "bvalid (bufs s ! b)" "bdev (bufs s ! b) = 1" "unat n < length (disk s)"
    "bdata (bufs s ! b) = bview s n" "length (bview s n) = BSIZE"
    "\<And>i. i < NBUF \<Longrightarrow> i \<noteq> b \<Longrightarrow> bdev (bufs s ! i) = 1 \<Longrightarrow> bblockno (bufs s ! i) \<noteq> n"
    "bdirty (bufs s ! b) \<longleftrightarrow> n \<in> dirties s"
proof -
  show b: "b < NBUF" "bbusy (bufs s ! b)" "bblockno (bufs s ! b) = n" using assms(2) by (auto simp: handle_Some)
  show "b < length (bufs s)" using b(1) bc_invE [OF assms(1)] by (metis less_SucI)
  have ok: "buf_ok (disk s) (bufs s ! b)" by (rule bc_inv_ok [OF assms(1) b(1)])
  with b show v: "bvalid (bufs s ! b)" and d: "bdev (bufs s ! b) = 1" and "unat n < length (disk s)"
    by (auto simp: buf_ok_def)
  show e: "bdata (bufs s ! b) = bview s n"
    using bview_valid [OF bc_inv_wf [OF assms(1)] b(1) v] b(3) by simp
  show "length (bview s n) = BSIZE" using ok e by (simp add: buf_ok_def)
  show u: "\<And>i. i < NBUF \<Longrightarrow> i \<noteq> b \<Longrightarrow> bdev (bufs s ! i) = 1 \<Longrightarrow> bblockno (bufs s ! i) \<noteq> n"
    using assms(1) b d by (auto simp: bc_inv_def uniq_def)
  show "bdirty (bufs s ! b) \<longleftrightarrow> n \<in> dirties s"
    using b u bc_inv_ok [OF assms(1)] by (auto simp: dirties_def buf_ok_def)
qed

section \<open>The operations on the abstract state\<close>

text \<open>\<open>bc_to s t V H D d tr\<close>: the operation took \<open>s\<close> to \<open>t\<close>, whose abstract state is the given one.\<close>

definition bc_to :: "'z bcst_scheme \<Rightarrow> 'z bcst_scheme \<Rightarrow> (u32 \<Rightarrow> bytes) \<Rightarrow> (nat \<Rightarrow> u32 option) \<Rightarrow>
    u32 set \<Rightarrow> bytes list \<Rightarrow> (nat \<times> bytes) list \<Rightarrow> bool" where
  "bc_to s t V H D d tr \<longleftrightarrow> bc_inv t \<and> cframe s t \<and> bview t = V \<and> handle t = H \<and> dirties t = D \<and>
     disk t = d \<and> dtrace t = tr"

lemma bc_toD:
  assumes "bc_to s t V H D d tr"
  shows "bc_inv t" "cframe s t" "bview t = V" "handle t = H" "dirties t = D" "disk t = d" "dtrace t = tr"
  using assms by (simp_all add: bc_to_def)

lemma bc_to_trans: "bc_to s t V H D d tr \<Longrightarrow> bc_to t u V' H' D' d' tr' \<Longrightarrow> bc_to s u V' H' D' d' tr'"
  by (auto simp: bc_to_def intro: cframe_trans)

lemma bc_to_refl: "bc_inv s \<Longrightarrow> bc_to s s (bview s) (handle s) (dirties s) (disk s) (dtrace s)"
  by (simp add: bc_to_def)

lemma cframe_held:
  assumes "cframe s t"
  shows "held t = held s" and "curproc t = curproc s"
proof -
  have e: "t = s\<lparr>ptable := ptable t, bufs := bufs t, disk := disk t, dtrace := dtrace t\<rparr>"
    using assms unfolding cframe_def by blast
  show "held t = held s" by (subst e) simp
  show "curproc t = curproc s" by (subst e) simp
qed

lemma cframe_bufs: "cframe s (s\<lparr>bufs := bs\<rparr>)"
  by (simp add: cframe_def)

lemma bview_block_length:
  assumes "bc_inv s" and "unat n < length (disk s)"
  shows "length (bview s n) = BSIZE"
proof (cases "\<exists>i < NBUF. bvalid (bufs s ! i) \<and> bblockno (bufs s ! i) = n")
  case True
  then show ?thesis
    using bview_valid [OF bc_inv_wf [OF assms(1)]] bc_inv_ok [OF assms(1)] by (auto simp: buf_ok_def)
next
  case False
  then have "bview s n = disk s ! unat n" by (intro bview_disk) auto
  then show ?thesis using assms by (simp add: bc_inv_def)
qed

lemma claimed_to:
  assumes inv: "bc_inv s" and c: "claimable s n b" and n: "unat n < length (disk s)"
  shows "bc_to s (claimed s n b) (bview s) ((handle s)(b \<mapsto> n)) (dirties s) (disk s) (dtrace s)"
proof -
  define x where "x = (bufs s ! b)\<lparr>bbusy := True, bvalid := True, bdev := 1, bblockno := n, bdata := bview s n\<rparr>"
  have t: "claimed s n b = s\<lparr>bufs := (bufs s)[b := x]\<rparr>" by (simp add: claimed_def x_def)
  have b: "b < NBUF" "\<not> bbusy (bufs s ! b)" using c by (auto simp: claimable_def)
  have len: "length (bufs s) = Suc NBUF" using bc_invE [OF inv] by metis
  have u: "uniq (bufs s)" using inv by (simp add: bc_inv_def)
  have own: "bblockno (bufs s ! i) \<noteq> n" if "i < NBUF" "i \<noteq> b" "bdev (bufs s ! i) = 1" for i
    using c that u b by (auto simp: claimable_def slot_None uniq_def)
  have inv': "bc_inv (claimed s n b)" unfolding t
    by (rule bc_inv_replace [OF inv b(1)])
       (use own n bview_block_length [OF inv n] in \<open>auto simp: x_def buf_ok_def\<close>)
  have "bview (claimed s n b) = (bview s)(n := bdata (bufs (claimed s n b) ! b))"
  proof (rule bview_update [OF bc_inv_wf [OF inv] bc_inv_wf [OF inv'] _ b(1)])
    show "bdata (bufs s ! b) = disk s ! unat (bblockno (bufs s ! b))"
      if "bblockno (bufs s ! b) \<noteq> n" "bvalid (bufs s ! b)"
      using that c bc_inv_ok [OF inv b(1)] by (auto simp: claimable_def buf_ok_def)
  qed (use len b in \<open>auto simp: t x_def\<close>)
  then have v: "bview (claimed s n b) = bview s" using len b by (simp add: t x_def)
  have "handle (claimed s n b) = (handle s)(b \<mapsto> n)"
    unfolding t using b len by (simp add: handle_replace x_def)
  moreover have "dirties (claimed s n b) = dirties s"
    unfolding t dirties_replace [OF b(1) len inv]
    using c b by (auto simp: x_def claimable_def dirties_def)
  ultimately show ?thesis using inv' v by (simp add: bc_to_def) (simp add: t cframe_bufs)
qed

text \<open>A free buffer is there as long as the handles and the dirty blocks are fewer than the buffers.\<close>

lemma bc_room:
  assumes "bc_inv s" and "card (dom (handle s)) + card (dirties s) < NBUF"
  shows "\<exists>i < NBUF. \<not> bbusy (bufs s ! i) \<and> \<not> bdirty (bufs s ! i)"
proof (rule ccontr)
  assume "\<not> ?thesis"
  then have "{..<NBUF} \<subseteq> dom (handle s) \<union> {i. i < NBUF \<and> bdirty (bufs s ! i)}"
    by (auto simp: handle_def dom_def)
  moreover have fin: "finite (dom (handle s))" by (rule finite_subset [of _ "{..<NBUF}"]) (auto simp: handle_def split: if_splits)
  moreover have "card {i. i < NBUF \<and> bdirty (bufs s ! i)} = card (dirties s)"
  proof (rule bij_betw_same_card)
    have "inj_on (\<lambda>i. bblockno (bufs s ! i)) {i. i < NBUF \<and> bdirty (bufs s ! i)}"
      using assms(1) bc_inv_ok [OF assms(1)] by (auto simp: inj_on_def bc_inv_def buf_ok_def uniq_def)
    then show "bij_betw (\<lambda>i. bblockno (bufs s ! i)) {i. i < NBUF \<and> bdirty (bufs s ! i)} (dirties s)"
      by (auto simp: bij_betw_def dirties_def)
  qed
  ultimately have "card {..<NBUF} \<le> card (dom (handle s)) + card (dirties s)"
    using card_mono [of "dom (handle s) \<union> {i. i < NBUF \<and> bdirty (bufs s ! i)}" "{..<NBUF}"]
      card_Un_le [of "dom (handle s)" "{i. i < NBUF \<and> bdirty (bufs s ! i)}"] by simp
  with assms(2) show False by simp
qed

lemma bread_spec:
  assumes inv: "bc_inv s" and "LBcache \<notin> held s" and n: "unat n < length (disk s)"
    and "n \<notin> ran (handle s)"
    and room: "n \<in> dirties s \<or> card (dom (handle s)) + card (dirties s) < NBUF"
  shows "\<exists>b t. bread 1 n s = Done b t \<and> handle s b = None \<and> b < NBUF \<and>
    bc_to s t (bview s) ((handle s)(b \<mapsto> n)) (dirties s) (disk s) (dtrace s)"
proof -
  obtain b where b: "claimable s n b" "bread 1 n s = Done b (claimed s n b)"
    using bread_run [OF assms(1-4)] room bc_room [OF inv] by blast
  moreover from this have "handle s b = None" "b < NBUF" by (auto simp: claimable_def handle_def)
  ultimately show ?thesis using claimed_to [OF inv b(1) n] by blast
qed

text \<open>Reading and assigning the data of a buffer, as \<^verbatim>\<open>memmove\<close> to or from \<^verbatim>\<open>b->data\<close> does.\<close>

definition bpeek :: "nat \<Rightarrow> ('z bcst_scheme, bytes) kop" where
  "bpeek b = gets (\<lambda>s. bdata (bufs s ! b))"

definition bput :: "nat \<Rightarrow> bytes \<Rightarrow> ('z bcst_scheme, unit) kop" where
  "bput b d = modify (upd_buf b (\<lambda>x. x\<lparr>bdata := d\<rparr>))"

definition bmark :: "nat \<Rightarrow> ('z bcst_scheme, unit) kop" where
  "bmark b = modify (upd_buf b (\<lambda>x. x\<lparr>bdirty := True\<rparr>))"

lemma bpeek_spec: "bc_inv s \<Longrightarrow> handle s b = Some n \<Longrightarrow> bpeek b s = Done (bview s n) s"
  by (simp add: bpeek_def handle_facts(8))

lemma bput_spec:
  assumes inv: "bc_inv s" and h: "handle s b = Some n" and len: "length d = BSIZE"
  shows "\<exists>t. bput b d s = Done () t \<and>
    bc_to s t ((bview s)(n := d)) (handle s) (dirties s) (disk s) (dtrace s)"
proof -
  note f = handle_facts [OF inv h]
  define x where "x = (bufs s ! b)\<lparr>bdata := d\<rparr>"
  define t where "t = s\<lparr>bufs := (bufs s)[b := x]\<rparr>"
  have l: "length (bufs s) = Suc NBUF" using bc_invE [OF inv] by metis
  have ok: "buf_ok (disk s) (bufs s ! b)" by (rule bc_inv_ok [OF inv f(1)])
  have inv': "bc_inv t" unfolding t_def
    by (rule bc_inv_replace [OF inv f(1)]) (use f(3,4,5,10) len ok in \<open>auto simp: x_def buf_ok_def\<close>)
  have "bview t = (bview s)(n := bdata (bufs t ! b))"
    by (rule bview_update [OF bc_inv_wf [OF inv] bc_inv_wf [OF inv'] _ f(1), where m = n])
       (use f l in \<open>auto simp: t_def x_def\<close>)
  then have "bview t = (bview s)(n := d)" using l f(1) by (simp add: t_def x_def)
  moreover have "handle t = handle s"
    unfolding t_def handle_replace [OF f(1) l] using f(3,4) h by (auto simp: x_def)
  moreover have "dirties t = dirties s"
    unfolding t_def dirties_replace [OF f(1) l inv] using f(4,11) by (auto simp: x_def)
  moreover have "bput b d s = Done () t" by (simp add: bput_def t_def x_def upd_buf_def updb_def)
  ultimately show ?thesis using inv' by (auto simp: bc_to_def t_def cframe_bufs)
qed

lemma bmark_spec:
  assumes inv: "bc_inv s" and h: "handle s b = Some n"
  shows "\<exists>t. bmark b s = Done () t \<and>
    bc_to s t (bview s) (handle s) (insert n (dirties s)) (disk s) (dtrace s)"
proof -
  note f = handle_facts [OF inv h]
  define x where "x = (bufs s ! b)\<lparr>bdirty := True\<rparr>"
  define t where "t = s\<lparr>bufs := (bufs s)[b := x]\<rparr>"
  have l: "length (bufs s) = Suc NBUF" using bc_invE [OF inv] by metis
  have ok: "buf_ok (disk s) (bufs s ! b)" by (rule bc_inv_ok [OF inv f(1)])
  have inv': "bc_inv t" unfolding t_def
    by (rule bc_inv_replace [OF inv f(1)]) (use f(3,4,5,10) ok in \<open>auto simp: x_def buf_ok_def\<close>)
  have "bview t = (bview s)(n := bdata (bufs t ! b))"
    by (rule bview_update [OF bc_inv_wf [OF inv] bc_inv_wf [OF inv'] _ f(1), where m = n])
       (use f l in \<open>auto simp: t_def x_def\<close>)
  then have "bview t = bview s" using l f(1,8) by (simp add: t_def x_def)
  moreover have "handle t = handle s"
    unfolding t_def handle_replace [OF f(1) l] using f(3,4) h by (auto simp: x_def)
  moreover have "dirties t = insert n (dirties s)"
    unfolding t_def dirties_replace [OF f(1) l inv] using f(4,11) by (auto simp: x_def)
  moreover have "bmark b s = Done () t" by (simp add: bmark_def t_def x_def upd_buf_def updb_def)
  ultimately show ?thesis using inv' by (auto simp: bc_to_def t_def cframe_bufs)
qed

lemma abs_ptable [simp]:
  "bc_inv (s\<lparr>ptable := ps\<rparr>) = bc_inv s" "bview (s\<lparr>ptable := ps\<rparr>) = bview s"
  "handle (s\<lparr>ptable := ps\<rparr>) = handle s" "dirties (s\<lparr>ptable := ps\<rparr>) = dirties s"
  by (auto simp: bc_inv_def bview_def handle_def dirties_def fun_eq_iff split: option.split)

text \<open>Writing the disk block of a busy buffer.\<close>

lemma disk_write_to:
  assumes inv: "bc_inv s" and h: "handle s b = Some n" and len: "length d = BSIZE"
  shows "bc_to s (s\<lparr>disk := (disk s)[unat n := d], dtrace := tr\<rparr>)
    (bview s) (handle s) (dirties s) ((disk s)[unat n := d]) tr"
proof -
  let ?t = "s\<lparr>disk := (disk s)[unat n := d], dtrace := tr\<rparr>"
  note f = handle_facts [OF inv h]
  have "buf_ok ((disk s)[unat n := d]) (bufs s ! i)" if "i < NBUF" for i
  proof (cases "i = b")
    case True
    then show ?thesis using bc_inv_ok [OF inv f(1)] f(3) by (simp add: buf_ok_def)
  next
    case False
    then have "bdev (bufs s ! i) = 1 \<Longrightarrow> unat (bblockno (bufs s ! i)) \<noteq> unat n"
      using f(10) [OF that] by (auto simp: word_unat_eq_iff)
    then show ?thesis using bc_inv_ok [OF inv that] by (auto simp: buf_ok_def)
  qed
  moreover have "\<forall>x \<in> set ((disk s)[unat n := d]). length x = BSIZE"
    using inv len set_update_subset_insert [of "disk s" "unat n" d] by (auto simp: bc_inv_def)
  ultimately have inv': "bc_inv ?t" using inv by (simp add: bc_inv_def)
  have "bview ?t = (bview s)(n := bdata (bufs ?t ! b))"
    by (rule bview_update [OF bc_inv_wf [OF inv] bc_inv_wf [OF inv'] _ f(1), where m = n])
       (use f in \<open>auto simp: word_unat_eq_iff\<close>)
  then have "bview ?t = bview s" using f(8) by simp
  moreover have "handle ?t = handle s" by (rule ext) (simp add: handle_def)
  ultimately show ?thesis using inv' by (simp add: bc_to_def dirties_def cframe_def)
qed

lemma bwrite_spec:
  assumes inv: "bc_inv s" and h: "handle s b = Some n"
  shows "\<exists>t. bwrite b s = Done () t \<and>
    bc_to s t (bview s) (handle s) (dirties s - {n}) ((disk s)[unat n := bview s n])
      (dtrace s @ [(unat n, bview s n)])"
proof -
  note f = handle_facts [OF inv h]
  define x where "x = (bufs s ! b)\<lparr>bdirty := False\<rparr>"
  define t where "t = s\<lparr>bufs := (bufs s)[b := x]\<rparr>"
  define u where "u = t\<lparr>disk := (disk t)[unat n := bview s n], dtrace := dtrace s @ [(unat n, bview s n)]\<rparr>"
  have l: "length (bufs s) = Suc NBUF" using bc_invE [OF inv] by metis
  have ok: "buf_ok (disk s) (bufs s ! b)" by (rule bc_inv_ok [OF inv f(1)])
  have inv': "bc_inv t" unfolding t_def
    by (rule bc_inv_replace [OF inv f(1)]) (use f(3,4,5,10) ok in \<open>auto simp: x_def buf_ok_def\<close>)
  have "bview t = (bview s)(n := bdata (bufs t ! b))"
    by (rule bview_update [OF bc_inv_wf [OF inv] bc_inv_wf [OF inv'] _ f(1), where m = n])
       (use f l in \<open>auto simp: t_def x_def\<close>)
  then have v: "bview t = bview s" using l f(1,8) by (simp add: t_def x_def)
  have hd: "handle t = handle s"
    unfolding t_def handle_replace [OF f(1) l] using f(3,4) h by (auto simp: x_def)
  have dt: "dirties t = dirties s - {n}"
    unfolding t_def dirties_replace [OF f(1) l inv] using f(4,11) by (auto simp: x_def)
  have "bc_to s t (bview s) (handle s) (dirties s - {n}) (disk s) (dtrace s)"
    using inv' v hd dt by (simp add: bc_to_def) (simp add: t_def cframe_bufs)
  moreover have "bc_to t u (bview s) (handle s) (dirties s - {n}) ((disk s)[unat n := bview s n])
      (dtrace s @ [(unat n, bview s n)])"
    using disk_write_to [OF inv', of b n "bview s n" "dtrace s @ [(unat n, bview s n)]"] h f(9)
    unfolding u_def v hd dt by (simp add: t_def)
  moreover have "bwrite b s = Done () u"
    using f l unfolding bwrite_def
    by (cases "bufs s ! b") (simp add: kop_simps upd_buf_def updb_def iderw_write u_def t_def x_def)
  ultimately show ?thesis by (blast intro: bc_to_trans)
qed

lemma links_to:
  assumes inv: "bc_inv s" and same: "same_but_links (bufs s) bs" and r: "ring bs ys" "set ys = {..<NBUF}"
  shows "bc_to s (s\<lparr>bufs := bs\<rparr>) (bview s) (handle s) (dirties s) (disk s) (dtrace s)"
proof -
  have len: "length (bufs s) = Suc NBUF" using bc_invE [OF inv] by metis
  have e: "bbusy (bs ! i) = bbusy (bufs s ! i)" "bvalid (bs ! i) = bvalid (bufs s ! i)"
    "bdirty (bs ! i) = bdirty (bufs s ! i)" "bdev (bs ! i) = bdev (bufs s ! i)"
    "bblockno (bs ! i) = bblockno (bufs s ! i)" "bdata (bs ! i) = bdata (bufs s ! i)"
    if "i < NBUF" for i
  proof -
    have "bs ! i = (bufs s ! i)\<lparr>bprev := bprev (bs ! i), bnext := bnext (bs ! i)\<rparr>"
      using same that len by (simp add: same_but_links_def)
    then obtain p q where "bs ! i = (bufs s ! i)\<lparr>bprev := p, bnext := q\<rparr>" by blast
    then show "bbusy (bs ! i) = bbusy (bufs s ! i)" "bvalid (bs ! i) = bvalid (bufs s ! i)"
      "bdirty (bs ! i) = bdirty (bufs s ! i)" "bdev (bs ! i) = bdev (bufs s ! i)"
      "bblockno (bs ! i) = bblockno (bufs s ! i)" "bdata (bs ! i) = bdata (bufs s ! i)" by simp_all
  qed
  have sl: "slot bs n = slot (bufs s) n" for n
    unfolding slot_def by (rule find_cong) (auto simp: e)
  have "bview (s\<lparr>bufs := bs\<rparr>) = bview s"
    by (rule ext) (auto simp: bview_def sl e split: option.split dest!: slot_SomeD)
  moreover have "handle (s\<lparr>bufs := bs\<rparr>) = handle s" by (rule ext) (auto simp: handle_def e)
  moreover have "dirties (s\<lparr>bufs := bs\<rparr>) = dirties s" by (auto simp: dirties_def e)
  moreover have "bc_inv (s\<lparr>bufs := bs\<rparr>)"
    using inv r by (auto simp: bc_inv_def uniq_def buf_ok_def e)
  ultimately show ?thesis by (simp add: bc_to_def cframe_bufs)
qed

lemma brelse_spec:
  assumes inv: "bc_inv s" and h: "handle s b = Some n" and lk: "LBcache \<notin> held s" "LPtable \<notin> held s"
    and clean: "n \<notin> dirties s \<Longrightarrow> bview s n = disk s ! unat n"
  shows "\<exists>t. brelse b s = Done () t \<and>
    bc_to s t (bview s) ((handle s)(b := None)) (dirties s) (disk s) (dtrace s)"
proof -
  obtain xs where xs: "ring (bufs s) xs" "set xs = {..<NBUF}" using bc_invE [OF inv] by metis
  let ?bs = "push_front b (unlink_buf b (bufs s))"
  define t where "t = s\<lparr>bufs := ?bs\<rparr>"
  note f0 = handle_facts [OF inv h]
  have r: "ring ?bs (b # remove1 b xs)" using xs f0(1) by (intro ring_touch) auto
  have "distinct xs" using xs(1) unfolding ring_def by blast
  then have all: "set (b # remove1 b xs) = {..<NBUF}" using xs(2) f0(1) by auto
  have same: "same_but_links (bufs s) ?bs"
    by (rule same_but_links_trans [OF unlink_buf_same push_front_same])
  have st: "bc_to s t (bview s) (handle s) (dirties s) (disk s) (dtrace s)"
    unfolding t_def by (rule links_to [OF inv same r all])
  note T = bc_toD [OF st]
  have ht: "handle t b = Some n" using T(4) h by simp
  note f = handle_facts [OF T(1) ht]
  have l: "length (bufs t) = Suc NBUF" using bc_invE [OF T(1)] by metis
  define x where "x = (bufs t ! b)\<lparr>bbusy := False\<rparr>"
  define ps where "ps = map (\<lambda>p. if state p = SLEEPING \<and> chan p = Some (ChanBuf b)
      then p\<lparr>state := RUNNABLE\<rparr> else p) (ptable s)"
  define u where "u = t\<lparr>bufs := (bufs t)[b := x]\<rparr>"
  have ok: "buf_ok (disk t) (bufs t ! b)" by (rule bc_inv_ok [OF T(1) f(1)])
  have cl: "\<not> bdirty (bufs t ! b) \<Longrightarrow> bdata (bufs t ! b) = disk t ! unat n"
    using clean f(8,11) T(3,5,6) by simp
  have inv': "bc_inv u" unfolding u_def
    by (rule bc_inv_replace [OF T(1) f(1)]) (use f(3,4,5,10) ok cl in \<open>auto simp: x_def buf_ok_def\<close>)
  have "bview u = (bview t)(n := bdata (bufs u ! b))"
    by (rule bview_update [OF bc_inv_wf [OF T(1)] bc_inv_wf [OF inv'] _ f(1), where m = n])
       (use f l in \<open>auto simp: u_def x_def\<close>)
  then have v: "bview u = bview s" using l f(1,8) T(3) by (simp add: u_def x_def)
  have hu: "handle u = (handle s)(b := None)"
    unfolding u_def handle_replace [OF f(1) l] using T(4) by (simp add: x_def)
  have du: "dirties u = dirties s"
    unfolding u_def dirties_replace [OF f(1) l T(1)] using f(4,11) T(5) by (auto simp: x_def)
  define w where "w = u\<lparr>ptable := ps\<rparr>"
  have "bc_inv w" "bview w = bview s" "handle w = (handle s)(b := None)" "dirties w = dirties s"
    using inv' v hu du by (simp_all add: w_def)
  moreover have w: "w = s\<lparr>ptable := ps, bufs := (bufs t)[b := x]\<rparr>" by (simp add: w_def u_def t_def)
  then have "cframe s w" "disk w = disk s" "dtrace w = dtrace s"
    by (simp_all add: cframe_def ps_def woken_wakeup)
  moreover have "brelse b s = Done () w"
    using f0(3) lk unfolding w
    by (simp add: brelse_def kop_simps upd_buf_def updb_def x_def t_def ps_def insert_Diff_if)
  ultimately show ?thesis unfolding bc_to_def by blast
qed

section \<open>Initialisation\<close>

lemma binit_loop:
  assumes "k \<le> NBUF" and "ring (bufs s) []"
  shows "\<exists>t. foreach [0..<k] binit_slot s = Done () t \<and>
    t = s\<lparr>bufs := bufs t\<rparr> \<and> ring (bufs t) (rev [0..<k]) \<and>
    (\<forall>i < NBUF. bbusy (bufs t ! i) = bbusy (bufs s ! i) \<and> bvalid (bufs t ! i) = bvalid (bufs s ! i) \<and>
       bdirty (bufs t ! i) = bdirty (bufs s ! i) \<and> bdata (bufs t ! i) = bdata (bufs s ! i) \<and>
       (i < k \<longrightarrow> bdev (bufs t ! i) = - 1))"
  using assms(1)
proof (induction k)
  case 0
  then show ?case using assms(2) by simp
next
  case (Suc k)
  then have "k \<le> NBUF" by simp
  from Suc.IH [OF this] obtain t where t: "foreach [0..<k] binit_slot s = Done () t"
    and st: "t = s\<lparr>bufs := bufs t\<rparr>" and r: "ring (bufs t) (rev [0..<k])"
    and f: "\<And>i. i < NBUF \<Longrightarrow> bbusy (bufs t ! i) = bbusy (bufs s ! i) \<and>
       bvalid (bufs t ! i) = bvalid (bufs s ! i) \<and> bdirty (bufs t ! i) = bdirty (bufs s ! i) \<and>
       bdata (bufs t ! i) = bdata (bufs s ! i) \<and> (i < k \<longrightarrow> bdev (bufs t ! i) = - 1)" by auto
  have len: "length (bufs t) = Suc NBUF" using r unfolding ring_def by blast
  define cs where "cs = updb (bufs t) k (\<lambda>x. x\<lparr>bdev := - 1\<rparr>)"
  have "ring cs (rev [0..<k])"
    by (rule ring_cong [OF r]) (use len Suc.prems in \<open>auto simp: cs_def updb_def nth_list_update\<close>)
  then have r': "ring (push_front k cs) (rev [0..<Suc k])"
    using ring_push_front [of cs "rev [0..<k]" k] Suc.prems by simp
  have same: "same_but_links cs (push_front k cs)" by (rule push_front_same)
  define u where "u = t\<lparr>bufs := push_front k cs\<rparr>"
  have "bbusy (bufs u ! i) = bbusy (bufs s ! i) \<and> bvalid (bufs u ! i) = bvalid (bufs s ! i) \<and>
       bdirty (bufs u ! i) = bdirty (bufs s ! i) \<and> bdata (bufs u ! i) = bdata (bufs s ! i) \<and>
       (i < Suc k \<longrightarrow> bdev (bufs u ! i) = - 1)" if i: "i < NBUF" for i
  proof -
    have "push_front k cs ! i = (cs ! i)\<lparr>bprev := bprev (push_front k cs ! i), bnext := bnext (push_front k cs ! i)\<rparr>"
      using same i len by (simp add: same_but_links_def cs_def)
    then obtain p q where "push_front k cs ! i = (cs ! i)\<lparr>bprev := p, bnext := q\<rparr>" by blast
    moreover have "cs ! i = (if i = k then (bufs t ! i)\<lparr>bdev := - 1\<rparr> else bufs t ! i)"
      using Suc.prems len by (simp add: cs_def nth_updb)
    ultimately show ?thesis using f [OF i] by (auto simp: u_def less_Suc_eq)
  qed
  moreover have "u = s\<lparr>bufs := bufs u\<rparr>" unfolding u_def by (subst st) simp
  moreover have "foreach [0..<Suc k] binit_slot s = Done () u"
    using t by (simp add: foreach_append bd_run binit_slot_def u_def cs_def upd_buf_def)
  ultimately show ?case using r' by (auto simp: u_def)
qed

text \<open>The buffers as they are before \<^verbatim>\<open>binit\<close>: static memory, all zero.\<close>

definition zero_bufs :: "'z bcst_scheme \<Rightarrow> bool" where
  "zero_bufs s \<longleftrightarrow> length (bufs s) = Suc NBUF \<and> (\<forall>x \<in> set (bufs s).
     \<not> bbusy x \<and> \<not> bvalid x \<and> \<not> bdirty x \<and> length (bdata x) = BSIZE)"

lemma binit_spec:
  assumes "zero_bufs s" and "\<forall>x \<in> set (disk s). length x = BSIZE"
  shows "\<exists>t. binit s = Done () t \<and> bc_to s t (\<lambda>n. disk s ! unat n) Map.empty {} (disk s) (dtrace s)"
proof -
  define cs where "cs = updb (updb (bufs s) bhead (\<lambda>x. x\<lparr>bprev := bhead\<rparr>)) bhead (\<lambda>x. x\<lparr>bnext := bhead\<rparr>)"
  have len: "length (bufs s) = Suc NBUF" using assms(1) by (simp add: zero_bufs_def)
  have cs: "cs ! i = (if i = bhead then (bufs s ! i)\<lparr>bprev := bhead, bnext := bhead\<rparr> else bufs s ! i)" for i
    using len by (simp add: cs_def nth_updb bhead_def)
  have "ring (bufs (s\<lparr>bufs := cs\<rparr>)) []"
    using cs [of bhead] len by (simp add: ring_def) (simp add: cs_def)
  from binit_loop [OF order_refl this] obtain t where
    t: "foreach [0..<NBUF] binit_slot (s\<lparr>bufs := cs\<rparr>) = Done () t"
    and st: "t = s\<lparr>bufs := cs, bufs := bufs t\<rparr>" and r: "ring (bufs t) (rev [0..<NBUF])"
    and f: "\<And>i. i < NBUF \<Longrightarrow> bbusy (bufs t ! i) = bbusy (cs ! i) \<and>
       bvalid (bufs t ! i) = bvalid (cs ! i) \<and> bdirty (bufs t ! i) = bdirty (cs ! i) \<and>
       bdata (bufs t ! i) = bdata (cs ! i) \<and> bdev (bufs t ! i) = - 1" by auto
  have z: "\<not> bbusy (bufs t ! i) \<and> \<not> bvalid (bufs t ! i) \<and> \<not> bdirty (bufs t ! i) \<and>
      length (bdata (bufs t ! i)) = BSIZE \<and> bdev (bufs t ! i) = - 1" if "i < NBUF" for i
    using f [OF that] assms(1) len that by (auto simp: zero_bufs_def cs bhead_def)
  have d: "disk t = disk s" "dtrace t = dtrace s" by (subst st, simp)+
  have "set (rev [0..<NBUF]) = {..<NBUF}" by auto
  with r have inv: "bc_inv t" unfolding bc_inv_def using assms(2) z by (auto simp: buf_ok_def uniq_def d)
  have "bview t = (\<lambda>n. disk s ! unat n)"
    by (rule ext) (subst bview_disk, use z in \<open>auto simp: d\<close>)
  moreover have "handle t = Map.empty" by (rule ext) (use z in \<open>auto simp: handle_def\<close>)
  moreover have "dirties t = {}" using z by (auto simp: dirties_def)
  moreover have st': "t = s\<lparr>bufs := bufs t\<rparr>" by (subst st) simp
  then have "cframe s t" using cframe_bufs [of s "bufs t"] by simp
  moreover have "binit s = Done () t"
    using t by (simp add: binit_def bd_run upd_buf_def cs_def)
  ultimately show ?thesis using inv d by (auto simp: bc_to_def)
qed

section \<open>The interface of the cache\<close>

text \<open>
  The laws the log and the file system rely on. \<open>to s t V H D d tr\<close> relates two states of the cache by
  the abstract state of the second one; the operations between them are read a block into a buffer,
  look at it, overwrite it, write it to disk and release it.
\<close>

locale block_cache =
  fixes rd :: "u32 \<Rightarrow> ('s, nat) kop"
    and peek :: "nat \<Rightarrow> ('s, bytes) kop"
    and put :: "nat \<Rightarrow> bytes \<Rightarrow> ('s, unit) kop"
    and wr rl :: "nat \<Rightarrow> ('s, unit) kop"
    and ready :: "'s \<Rightarrow> bool"
    and to :: "'s \<Rightarrow> 's \<Rightarrow> (u32 \<Rightarrow> bytes) \<Rightarrow> (nat \<Rightarrow> u32 option) \<Rightarrow> u32 set \<Rightarrow> bytes list \<Rightarrow>
      (nat \<times> bytes) list \<Rightarrow> bool"
    and view :: "'s \<Rightarrow> u32 \<Rightarrow> bytes"
    and hnd :: "'s \<Rightarrow> nat \<Rightarrow> u32 option"
    and drt :: "'s \<Rightarrow> u32 set"
    and dsk :: "'s \<Rightarrow> bytes list"
    and trc :: "'s \<Rightarrow> (nat \<times> bytes) list"
    and nbuf :: nat
  assumes to_abs: "ready s \<Longrightarrow> to s t V H D d tr \<Longrightarrow>
      ready t \<and> view t = V \<and> hnd t = H \<and> drt t = D \<and> dsk t = d \<and> trc t = tr"
    and to_trans: "to s t V H D d tr \<Longrightarrow> to t u V' H' D' d' tr' \<Longrightarrow> to s u V' H' D' d' tr'"
    and rd_law: "ready s \<Longrightarrow> unat n < length (dsk s) \<Longrightarrow> n \<notin> ran (hnd s) \<Longrightarrow>
      n \<in> drt s \<or> card (dom (hnd s)) + card (drt s) < nbuf \<Longrightarrow>
      \<exists>b t. rd n s = Done b t \<and> hnd s b = None \<and> to s t (view s) ((hnd s)(b \<mapsto> n)) (drt s) (dsk s) (trc s)"
    and peek_law: "ready s \<Longrightarrow> hnd s b = Some n \<Longrightarrow> peek b s = Done (view s n) s"
    and put_law: "ready s \<Longrightarrow> hnd s b = Some n \<Longrightarrow> length x = BSIZE \<Longrightarrow>
      \<exists>t. put b x s = Done () t \<and> to s t ((view s)(n := x)) (hnd s) (drt s) (dsk s) (trc s)"
    and wr_law: "ready s \<Longrightarrow> hnd s b = Some n \<Longrightarrow>
      \<exists>t. wr b s = Done () t \<and> to s t (view s) (hnd s) (drt s - {n}) ((dsk s)[unat n := view s n])
        (trc s @ [(unat n, view s n)])"
    and rl_law: "ready s \<Longrightarrow> hnd s b = Some n \<Longrightarrow> (n \<notin> drt s \<Longrightarrow> view s n = dsk s ! unat n) \<Longrightarrow>
      \<exists>t. rl b s = Done () t \<and> to s t (view s) ((hnd s)(b := None)) (drt s) (dsk s) (trc s)"
    and view_length: "ready s \<Longrightarrow> unat n < length (dsk s) \<Longrightarrow> length (view s n) = BSIZE"
    and view_clean: "ready s \<Longrightarrow> n \<notin> drt s \<Longrightarrow> n \<notin> ran (hnd s) \<Longrightarrow> view s n = dsk s ! unat n"
    and hnd_finite: "finite (dom (hnd s))"
    and hnd_range: "ready s \<Longrightarrow> hnd s b = Some n \<Longrightarrow> unat n < length (dsk s)"
begin

text \<open>Looking at one block.\<close>

lemma read_block:
  assumes "ready s" and "unat n < length (dsk s)" and "n \<notin> ran (hnd s)"
    and "n \<in> drt s \<or> card (dom (hnd s)) + card (drt s) < nbuf"
  shows "\<exists>t. bd (rd n) (\<lambda>b. bd (peek b) (\<lambda>x. bd (rl b) (\<lambda>_. ret (f x)))) s = Done (f (view s n)) t \<and>
    to s t (view s) (hnd s) (drt s) (dsk s) (trc s)"
proof -
  obtain b t where t: "rd n s = Done b t" "hnd s b = None"
    and st: "to s t (view s) ((hnd s)(b \<mapsto> n)) (drt s) (dsk s) (trc s)"
    using rd_law [OF assms] by blast
  note T = to_abs [OF assms(1) st]
  have "n \<notin> drt s \<Longrightarrow> view s n = dsk s ! unat n" using view_clean assms by blast
  then obtain u where u: "rl b t = Done () u"
    and tu: "to t u (view t) ((hnd t)(b := None)) (drt t) (dsk t) (trc t)"
    using rl_law [of t b n] T by auto
  have "peek b t = Done (view s n) t" using peek_law [of t b n] T by simp
  with t u have "bd (rd n) (\<lambda>b. bd (peek b) (\<lambda>x. bd (rl b) (\<lambda>_. ret (f x)))) s = Done (f (view s n)) u"
    by (simp add: bd_run)
  moreover have "(hnd t)(b := None) = hnd s" using T t(2) by auto
  ultimately show ?thesis using to_trans [OF st tu] T by auto
qed

text \<open>Replacing one block, in the cache and on disk, by a function of its contents.\<close>

lemma write_block:
  assumes "ready s" and "unat n < length (dsk s)" and "n \<notin> ran (hnd s)"
    and "n \<in> drt s \<or> card (dom (hnd s)) + card (drt s) < nbuf" and "length (f (view s n)) = BSIZE"
  shows "\<exists>t. bd (rd n) (\<lambda>b. bd (peek b) (\<lambda>x. bd (put b (f x)) (\<lambda>_. bd (wr b) (\<lambda>_. rl b)))) s = Done () t \<and>
    to s t ((view s)(n := f (view s n))) (hnd s) (drt s - {n}) ((dsk s)[unat n := f (view s n)])
      (trc s @ [(unat n, f (view s n))])"
proof -
  let ?x = "f (view s n)"
  obtain b t where t: "rd n s = Done b t" "hnd s b = None"
    and st: "to s t (view s) ((hnd s)(b \<mapsto> n)) (drt s) (dsk s) (trc s)"
    using rd_law [OF assms(1-4)] by blast
  note T = to_abs [OF assms(1) st]
  obtain u where u: "put b ?x t = Done () u"
    and tu: "to t u ((view t)(n := ?x)) (hnd t) (drt t) (dsk t) (trc t)"
    using put_law [of t b n ?x] T assms(5) by auto
  note U = to_abs [OF conjunct1 [OF T] tu]
  obtain v where v: "wr b u = Done () v"
    and uv: "to u v (view u) (hnd u) (drt u - {n}) ((dsk u)[unat n := view u n]) (trc u @ [(unat n, view u n)])"
    using wr_law [of u b n] U T by auto
  note V = to_abs [OF conjunct1 [OF U] uv]
  obtain w where w: "rl b v = Done () w"
    and vw: "to v w (view v) ((hnd v)(b := None)) (drt v) (dsk v) (trc v)"
    using rl_law [of v b n] V U T assms(2) by auto
  have "peek b t = Done (view s n) t" using peek_law [of t b n] T by simp
  with t u v w have "bd (rd n) (\<lambda>b. bd (peek b) (\<lambda>x. bd (put b (f x)) (\<lambda>_. bd (wr b) (\<lambda>_. rl b)))) s = Done () w"
    by (simp add: bd_run)
  moreover have "(hnd v)(b := None) = hnd s" using V U T t(2) by auto
  moreover have "to s w (view v) ((hnd v)(b := None)) (drt v) (dsk v) (trc v)"
    by (rule to_trans [OF to_trans [OF to_trans [OF st tu] uv] vw])
  ultimately show ?thesis using V U T by auto
qed

text \<open>Copying one block over another and writing the copy to disk, in the two orders of \<^verbatim>\<open>log.c\<close>.\<close>

lemma copy_tail:
  assumes "ready t" and "hnd t x = Some a" and "hnd t y = Some c" and "a \<noteq> c"
    and "a \<notin> drt t \<Longrightarrow> view t a = dsk t ! unat a"
  shows "\<exists>u. bd (peek x) (\<lambda>d. bd (put y d) (\<lambda>_. bd (wr y) (\<lambda>_. bd (rl x) (\<lambda>_. rl y)))) t = Done () u \<and>
    to t u ((view t)(c := view t a)) ((hnd t)(x := None, y := None)) (drt t - {c})
      ((dsk t)[unat c := view t a]) (trc t @ [(unat c, view t a)])"
proof -
  have xy: "x \<noteq> y" using assms(2,3,4) by auto
  have ac: "unat a \<noteq> unat c" using assms(4) by (simp add: word_unat_eq_iff)
  have cr: "unat c < length (dsk t)" using hnd_range assms(1,3) by blast
  have p: "peek x t = Done (view t a) t" by (rule peek_law [OF assms(1,2)])
  have "length (view t a) = BSIZE" using view_length hnd_range assms(1,2) by blast
  then obtain u where u: "put y (view t a) t = Done () u"
    and tu: "to t u ((view t)(c := view t a)) (hnd t) (drt t) (dsk t) (trc t)"
    using put_law [OF assms(1,3)] by blast
  note U = to_abs [OF assms(1) tu]
  obtain v where v: "wr y u = Done () v"
    and uv: "to u v (view u) (hnd u) (drt u - {c}) ((dsk u)[unat c := view u c]) (trc u @ [(unat c, view u c)])"
    using wr_law [of u y c] U assms(3) by auto
  note V = to_abs [OF conjunct1 [OF U] uv]
  obtain w where w: "rl x v = Done () w"
    and vw: "to v w (view v) ((hnd v)(x := None)) (drt v) (dsk v) (trc v)"
    using rl_law [of v x a] V U assms(2,4,5) ac by auto
  note W = to_abs [OF conjunct1 [OF V] vw]
  obtain z where z: "rl y w = Done () z"
    and wz: "to w z (view w) ((hnd w)(y := None)) (drt w) (dsk w) (trc w)"
    using rl_law [of w y c] W V U assms(3) xy cr by auto
  have "bd (peek x) (\<lambda>d. bd (put y d) (\<lambda>_. bd (wr y) (\<lambda>_. bd (rl x) (\<lambda>_. rl y)))) t = Done () z"
    using p u v w z by (simp add: bd_run)
  moreover have "to t z (view w) ((hnd w)(y := None)) (drt w) (dsk w) (trc w)"
    by (rule to_trans [OF to_trans [OF to_trans [OF tu uv] vw] wz])
  ultimately show ?thesis using W V U by simp
qed

lemma copy_src_first:
  assumes "ready s" and "a \<noteq> c" and "unat a < length (dsk s)" and "unat c < length (dsk s)"
    and "hnd s = Map.empty" and "a \<in> drt s \<or> card (drt s) < nbuf" and "c \<in> drt s \<or> Suc (card (drt s)) < nbuf"
    and g: "\<And>t b. to s t (view s) (Map.empty(b \<mapsto> a)) (drt s) (dsk s) (trc s) \<Longrightarrow> g t = Done c t"
  shows "\<exists>t. bd (rd a) (\<lambda>x. bd g (\<lambda>c. bd (rd c) (\<lambda>y. bd (peek x) (\<lambda>d. bd (put y d) (\<lambda>_.
      bd (wr y) (\<lambda>_. bd (rl x) (\<lambda>_. rl y))))))) s = Done () t \<and>
    to s t ((view s)(c := view s a)) Map.empty (drt s - {c}) ((dsk s)[unat c := view s a])
      (trc s @ [(unat c, view s a)])"
proof -
  obtain x t where t: "rd a s = Done x t"
    and st: "to s t (view s) (Map.empty(x \<mapsto> a)) (drt s) (dsk s) (trc s)"
    using rd_law [of s a] assms(1,3,5,6) by auto
  note T = to_abs [OF assms(1) st]
  obtain y u where u: "rd c t = Done y u" "hnd t y = None"
    and tu: "to t u (view t) ((hnd t)(y \<mapsto> c)) (drt t) (dsk t) (trc t)"
    using rd_law [of t c] T assms(2,4,7) by auto
  note U = to_abs [OF conjunct1 [OF T] tu]
  have "a \<notin> drt u \<Longrightarrow> view u a = dsk u ! unat a"
    using view_clean [OF assms(1), of a] assms(5) T U by simp
  moreover have "x \<noteq> y" using u(2) T by auto
  ultimately obtain v where v: "bd (peek x) (\<lambda>d. bd (put y d) (\<lambda>_. bd (wr y) (\<lambda>_. bd (rl x) (\<lambda>_. rl y)))) u = Done () v"
    and uv: "to u v ((view u)(c := view u a)) ((hnd u)(x := None, y := None)) (drt u - {c})
      ((dsk u)[unat c := view u a]) (trc u @ [(unat c, view u a)])"
    using copy_tail [of u x a y c] T U assms(2) by auto
  have "bd (rd a) (\<lambda>x. bd g (\<lambda>c. bd (rd c) (\<lambda>y. bd (peek x) (\<lambda>d. bd (put y d) (\<lambda>_.
      bd (wr y) (\<lambda>_. bd (rl x) (\<lambda>_. rl y))))))) s = Done () v"
    using t g [OF st] u(1) v by (simp add: bd_run [of "rd _"] bd_run [of g])
  moreover have "(hnd u)(x := None, y := None) = Map.empty" using T U by auto
  ultimately show ?thesis
    using to_trans [OF to_trans [OF st tu] uv] T U by auto
qed

lemma copy_dst_first:
  assumes "ready s" and "a \<noteq> c" and "unat a < length (dsk s)" and "unat c < length (dsk s)"
    and "hnd s = Map.empty" and "c \<in> drt s \<or> card (drt s) < nbuf" and "a \<in> drt s \<or> Suc (card (drt s)) < nbuf"
    and g: "\<And>t b. to s t (view s) (Map.empty(b \<mapsto> c)) (drt s) (dsk s) (trc s) \<Longrightarrow> g t = Done a t"
  shows "\<exists>t. bd (rd c) (\<lambda>y. bd g (\<lambda>a. bd (rd a) (\<lambda>x. bd (peek x) (\<lambda>d. bd (put y d) (\<lambda>_.
      bd (wr y) (\<lambda>_. bd (rl x) (\<lambda>_. rl y))))))) s = Done () t \<and>
    to s t ((view s)(c := view s a)) Map.empty (drt s - {c}) ((dsk s)[unat c := view s a])
      (trc s @ [(unat c, view s a)])"
proof -
  obtain y t where t: "rd c s = Done y t"
    and st: "to s t (view s) (Map.empty(y \<mapsto> c)) (drt s) (dsk s) (trc s)"
    using rd_law [of s c] assms(1,4,5,6) by auto
  note T = to_abs [OF assms(1) st]
  obtain x u where u: "rd a t = Done x u" "hnd t x = None"
    and tu: "to t u (view t) ((hnd t)(x \<mapsto> a)) (drt t) (dsk t) (trc t)"
    using rd_law [of t a] T assms(2,3,7) by auto
  note U = to_abs [OF conjunct1 [OF T] tu]
  have "a \<notin> drt u \<Longrightarrow> view u a = dsk u ! unat a"
    using view_clean [OF assms(1), of a] assms(5) T U by simp
  moreover have "x \<noteq> y" using u(2) T by auto
  ultimately obtain v where v: "bd (peek x) (\<lambda>d. bd (put y d) (\<lambda>_. bd (wr y) (\<lambda>_. bd (rl x) (\<lambda>_. rl y)))) u = Done () v"
    and uv: "to u v ((view u)(c := view u a)) ((hnd u)(x := None, y := None)) (drt u - {c})
      ((dsk u)[unat c := view u a]) (trc u @ [(unat c, view u a)])"
    using copy_tail [of u x a y c] T U assms(2) by auto
  have "bd (rd c) (\<lambda>y. bd g (\<lambda>a. bd (rd a) (\<lambda>x. bd (peek x) (\<lambda>d. bd (put y d) (\<lambda>_.
      bd (wr y) (\<lambda>_. bd (rl x) (\<lambda>_. rl y))))))) s = Done () v"
    using t g [OF st] u(1) v by (simp add: bd_run [of "rd _"] bd_run [of g])
  moreover have "(hnd u)(x := None, y := None) = Map.empty" using T U by auto
  ultimately show ?thesis
    using to_trans [OF to_trans [OF st tu] uv] T U by auto
qed

end

definition bc_ready :: "'z bcst_scheme \<Rightarrow> bool" where
  "bc_ready s \<longleftrightarrow> bc_inv s \<and> LBcache \<notin> held s \<and> LPtable \<notin> held s"

interpretation bc: block_cache "bread 1" bpeek bput bwrite brelse bc_ready bc_to bview handle dirties
  disk dtrace NBUF
proof unfold_locales
  fix s t :: "'z bcst_scheme" and V H D d tr
  assume "bc_ready s" and to: "bc_to s t V H D d tr"
  then show "bc_ready t \<and> bview t = V \<and> handle t = H \<and> dirties t = D \<and> disk t = d \<and> dtrace t = tr"
    using cframe_held [OF bc_toD(2) [OF to]] by (simp add: bc_to_def bc_ready_def)
next
  fix s :: "'z bcst_scheme" and n
  assume "bc_ready s" "unat n < length (disk s)" "n \<notin> ran (handle s)"
    "n \<in> dirties s \<or> card (dom (handle s)) + card (dirties s) < NBUF"
  then show "\<exists>b t. bread 1 n s = Done b t \<and> handle s b = None \<and>
      bc_to s t (bview s) ((handle s)(b \<mapsto> n)) (dirties s) (disk s) (dtrace s)"
    using bread_spec [of s n] by (auto simp: bc_ready_def)
next
  fix s :: "'z bcst_scheme" and n
  assume s: "bc_ready s" "n \<notin> dirties s" "n \<notin> ran (handle s)"
  then have inv: "bc_inv s" by (simp add: bc_ready_def)
  show "bview s n = disk s ! unat n"
  proof (cases "\<exists>i < NBUF. bvalid (bufs s ! i) \<and> bblockno (bufs s ! i) = n")
    case True
    then obtain i where i: "i < NBUF" "bvalid (bufs s ! i)" "bblockno (bufs s ! i) = n" by blast
    then have "\<not> bbusy (bufs s ! i)" "\<not> bdirty (bufs s ! i)"
      using s by (auto simp: dirties_def ran_def handle_def split: if_splits)
    then show ?thesis using bview_valid [OF bc_inv_wf [OF inv] i(1,2)] bc_inv_ok [OF inv i(1)] i
      by (simp add: buf_ok_def)
  qed (intro bview_disk, auto)
next
  fix s :: "'z bcst_scheme"
  show "finite (dom (handle s))"
    by (rule finite_subset [of _ "{..<NBUF}"]) (auto simp: handle_def split: if_splits)
qed (auto simp: bc_ready_def bpeek_spec bput_spec bwrite_spec brelse_spec bview_block_length
    handle_facts(7) intro: bc_to_trans)

section \<open>Properties\<close>

text \<open>A machine with a disk of three blocks, before and after \<^verbatim>\<open>binit\<close>.\<close>

definition zero_buf :: buf where
  "zero_buf = \<lparr>bbusy = False, bvalid = False, bdirty = False, bdev = 0, bblockno = 0, bprev = 0,
     bnext = 0, bqnext = None, bdata = replicate BSIZE 0\<rparr>"

definition boot_bcache :: bcst where
  "boot_bcache = \<lparr>held = {}, ptable = replicate NPROC zero_proc, initproc = None, nextpid = 1,
     curproc = None, cr3 = 0, ts_esp0 = 0, kpgdir = 0,
     kmem_mem = (\<lambda>_. 0), use_lock = False, freelist = 0, kend = 0x8010A000,
     bufs = replicate (Suc NBUF) zero_buf,
     disk = [replicate BSIZE 0, replicate BSIZE 1, replicate BSIZE 2], dtrace = []\<rparr>"

lemma boot_bcache_zero: "zero_bufs boot_bcache" "\<forall>x \<in> set (disk boot_bcache). length x = BSIZE"
  "held boot_bcache = {}"
  by (simp_all add: boot_bcache_def zero_bufs_def zero_buf_def del: replicate_Suc)

text \<open>
  \<^verbatim>\<open>binit\<close> turns the zeroed buffers into a well-formed cache: one ring of all buffers, no buffer
  busy or dirty, and every block reads as it is on the disk.
\<close>

theorem binit_establishes:
  assumes "zero_bufs s" and "\<forall>x \<in> set (disk s). length x = BSIZE"
  shows "\<exists>t. binit s = Done () t \<and> bc_inv t \<and> handle t = Map.empty \<and> dirties t = {} \<and>
    (\<forall>n. bview t n = disk s ! unat n) \<and> disk t = disk s"
  using binit_spec [OF assms] by (auto simp: bc_to_def)

theorem binit_establishes_witness:
  "\<exists>t. binit boot_bcache = Done () t \<and> bc_inv t \<and> bview t 1 = replicate BSIZE 1"
  using binit_establishes [OF boot_bcache_zero(1,2)] by (auto simp: boot_bcache_def)

lemma boot_ready:
  "\<exists>t. binit boot_bcache = Done () t \<and> bc_ready t \<and> handle t = Map.empty \<and> dirties t = {} \<and>
    length (disk t) = 3"
proof -
  obtain t where t: "binit boot_bcache = Done () t"
    "bc_to boot_bcache t (\<lambda>n. disk boot_bcache ! unat n) Map.empty {} (disk boot_bcache) (dtrace boot_bcache)"
    using binit_spec [OF boot_bcache_zero(1,2)] by blast
  note T = bc_toD [OF t(2)]
  have "bc_ready t" using T(1) cframe_held(1) [OF T(2)] boot_bcache_zero(3) by (simp add: bc_ready_def)
  with t(1) T show ?thesis by (auto simp: boot_bcache_def)
qed

text \<open>
  C4: \<^verbatim>\<open>bread\<close> of a block that no process holds returns a buffer that was free and is now the caller's,
  holding the current contents of the block. No block's contents, no other handle, no dirty
  flag and nothing on the disk changes, and the invariant (in particular: at most one buffer per
  block) is kept. It suffices that the handles and dirty blocks are fewer than \<^verbatim>\<open>NBUF\<close>, or that the
  block itself is dirty and hence cached.
\<close>

theorem bread_returns_block:
  assumes "bc_ready s" and "unat n < length (disk s)" and "n \<notin> ran (handle s)"
    and "n \<in> dirties s \<or> card (dom (handle s)) + card (dirties s) < NBUF"
  shows "\<exists>b t. bread 1 n s = Done b t \<and> handle s b = None \<and> bdata (bufs t ! b) = bview s n \<and>
    bc_ready t \<and> bview t = bview s \<and> handle t = (handle s)(b \<mapsto> n) \<and> dirties t = dirties s \<and>
    disk t = disk s \<and> dtrace t = dtrace s"
proof -
  obtain b t where t: "bread 1 n s = Done b t" "handle s b = None"
    and st: "bc_to s t (bview s) ((handle s)(b \<mapsto> n)) (dirties s) (disk s) (dtrace s)"
    using bc.rd_law [OF assms] by blast
  note T = bc.to_abs [OF assms(1) st]
  have "bdata (bufs t ! b) = bview s n"
    using handle_facts(8) [of t b n] T by (simp add: bc_ready_def)
  with t T show ?thesis by blast
qed

theorem bread_returns_block_witness:
  "\<exists>s b t. binit boot_bcache = Done () s \<and> bread 1 2 s = Done b t \<and> handle t b = Some 2"
proof -
  obtain s where s: "binit boot_bcache = Done () s" "bc_ready s" "handle s = Map.empty"
    "dirties s = {}" "length (disk s) = 3" using boot_ready by blast
  with bread_returns_block [of s 2] show ?thesis by (auto simp: NBUF_def MAXOPBLOCKS_def)
qed

text \<open>
  C5: \<^verbatim>\<open>bwrite\<close> of a held buffer writes exactly its block to the disk, with the buffer's contents, and
  leaves the buffer clean; afterwards disk and cache agree on the block.
\<close>

theorem bwrite_writes_through:
  assumes "bc_ready s" and "handle s b = Some n"
  shows "\<exists>t. bwrite b s = Done () t \<and> bc_ready t \<and> disk t = (disk s)[unat n := bdata (bufs s ! b)] \<and>
    dtrace t = dtrace s @ [(unat n, bdata (bufs s ! b))] \<and> bview t = bview s \<and> handle t = handle s \<and>
    dirties t = dirties s - {n} \<and> bview t n = disk t ! unat n"
proof -
  obtain t where t: "bwrite b s = Done () t"
    and st: "bc_to s t (bview s) (handle s) (dirties s - {n}) ((disk s)[unat n := bview s n])
      (dtrace s @ [(unat n, bview s n)])"
    using bc.wr_law [OF assms] by blast
  have "bdata (bufs s ! b) = bview s n" "unat n < length (disk s)"
    using handle_facts(7,8) [of s b n] assms by (simp_all add: bc_ready_def)
  with t bc.to_abs [OF assms(1) st] show ?thesis by auto
qed

theorem bwrite_writes_through_witness:
  "\<exists>s b t u. binit boot_bcache = Done () s \<and> bread 1 2 s = Done b t \<and> bwrite b t = Done () u \<and>
     bview u 2 = disk u ! 2"
proof -
  obtain s where s: "binit boot_bcache = Done () s" "bc_ready s" "handle s = Map.empty"
    "dirties s = {}" "length (disk s) = 3" using boot_ready by blast
  with bc.rd_law [of s 2] obtain b t where t: "bread 1 2 s = Done b t"
    and st: "bc_to s t (bview s) ((handle s)(b \<mapsto> 2)) (dirties s) (disk s) (dtrace s)"
    by (auto simp: NBUF_def MAXOPBLOCKS_def)
  note T = bc.to_abs [OF s(2) st]
  with bwrite_writes_through [of t b 2] s(1) t show ?thesis by auto
qed

text \<open>
  C6: The replacement policy. \<^verbatim>\<open>brelse\<close> moves the buffer to the front of the ring, so the ring is ordered by
  last release; and when \<^verbatim>\<open>bget\<close> has to recycle a buffer, it takes the last one in that order that is
  neither busy nor dirty, and panics exactly if there is none.
\<close>

theorem lru_replacement:
  assumes "ring (bufs s) xs" and "LBcache \<notin> held s" and "LPtable \<notin> held s"
  shows "(\<forall>b \<in> set xs. bbusy (bufs s ! b) \<longrightarrow>
      (\<exists>t. brelse b s = Done () t \<and> ring (bufs t) (b # remove1 b xs) \<and> \<not> bbusy (bufs t ! b))) \<and>
    (\<forall>dev n. (\<forall>i \<in> set xs. \<not> (bdev (bufs s ! i) = dev \<and> bblockno (bufs s ! i) = n)) \<longrightarrow>
      (case find (\<lambda>i. \<not> bbusy (bufs s ! i) \<and> \<not> bdirty (bufs s ! i)) (rev xs) of
         None \<Rightarrow> bget dev n s = Panicked ''bget: no buffers''
       | Some b \<Rightarrow> \<exists>t. bget dev n s = Done b t \<and> ring (bufs t) xs \<and> bbusy (bufs t ! b) \<and>
           bdev (bufs t ! b) = dev \<and> bblockno (bufs t ! b) = n))"
proof (intro conjI ballI allI impI)
  fix b assume b: "b \<in> set xs" "bbusy (bufs s ! b)"
  let ?bs = "push_front b (unlink_buf b (bufs s))"
  have r: "ring ?bs (b # remove1 b xs)" by (rule ring_touch [OF assms(1) b(1)])
  then have len: "length ?bs = Suc NBUF" unfolding ring_def by blast
  have bl: "b < length ?bs" using b(1) assms(1) len by (auto simp: ring_def)
  define t where "t = s\<lparr>ptable := map (\<lambda>p. if state p = SLEEPING \<and> chan p = Some (ChanBuf b)
      then p\<lparr>state := RUNNABLE\<rparr> else p) (ptable s), bufs := ?bs[b := (?bs ! b)\<lparr>bbusy := False\<rparr>]\<rparr>"
  have "brelse b s = Done () t"
    using b(2) assms(2,3) by (simp add: brelse_def kop_simps upd_buf_def updb_def t_def insert_Diff_if)
  moreover have "ring (bufs t) (b # remove1 b xs)"
    by (rule ring_cong [OF r]) (auto simp: t_def nth_list_update bl)
  ultimately show "\<exists>t. brelse b s = Done () t \<and> ring (bufs t) (b # remove1 b xs) \<and> \<not> bbusy (bufs t ! b)"
    using bl by (auto simp: t_def)
next
  fix dev n
  assume "\<forall>i \<in> set xs. \<not> (bdev (bufs s ! i) = dev \<and> bblockno (bufs s ! i) = n)"
  then have "find (\<lambda>i. bdev (bufs s ! i) = dev \<and> bblockno (bufs s ! i) = n) xs = None"
    by (auto simp: find_None_iff)
  note g = bget_miss [OF assms(1,2) this]
  show "case find (\<lambda>i. \<not> bbusy (bufs s ! i) \<and> \<not> bdirty (bufs s ! i)) (rev xs) of
      None \<Rightarrow> bget dev n s = Panicked ''bget: no buffers''
    | Some b \<Rightarrow> \<exists>t. bget dev n s = Done b t \<and> ring (bufs t) xs \<and> bbusy (bufs t ! b) \<and>
        bdev (bufs t ! b) = dev \<and> bblockno (bufs t ! b) = n"
  proof (cases "find (\<lambda>i. \<not> bbusy (bufs s ! i) \<and> \<not> bdirty (bufs s ! i)) (rev xs)")
    case None
    with g show ?thesis by simp
  next
    case (Some b)
    then have "b \<in> set xs" by (auto dest: find_SomeD)
    then have bl: "b < length (bufs s)" using assms(1) by (auto simp: ring_def)
    have "ring ((bufs s)[b := (bufs s ! b)\<lparr>bdev := dev, bblockno := n, bbusy := True,
        bvalid := False, bdirty := False\<rparr>]) xs"
      by (rule ring_cong [OF assms(1)]) (auto simp: nth_list_update bl)
    with g Some bl show ?thesis by simp
  qed
qed

theorem lru_replacement_witness:
  "\<exists>(s :: bcst) xs t. ring (bufs s) xs \<and> bget 7 9 s = Done (last xs) t \<and> bblockno (bufs t ! last xs) = 9"
proof -
  define s where "s = boot_bcache\<lparr>bufs := (replicate (Suc NBUF) zero_buf)
    [0 := zero_buf\<lparr>bnext := bhead, bprev := bhead\<rparr>, bhead := zero_buf\<lparr>bnext := 0, bprev := 0\<rparr>]\<rparr>"
  have nb: "0 < NBUF" by (simp add: NBUF_def MAXOPBLOCKS_def)
  have "bufs s ! 0 = zero_buf\<lparr>bnext := bhead, bprev := bhead\<rparr>"
    "bufs s ! bhead = zero_buf\<lparr>bnext := 0, bprev := 0\<rparr>" "length (bufs s) = Suc NBUF"
    using nb by (simp_all add: s_def bhead_def del: replicate_Suc)
  note f = this
  have r: "ring (bufs s) [0]" using f nb by (simp add: ring_def)
  have "held s = {}" by (simp add: s_def boot_bcache_def)
  then have "LBcache \<notin> held s" "LPtable \<notin> held s" by simp_all
  from conjunct2 [OF lru_replacement [OF r this], rule_format, of 7 9]
  have "\<exists>t. bget 7 9 s = Done 0 t \<and> bblockno (bufs t ! 0) = 9"
    using f(1) by (auto simp: zero_buf_def)
  with r show ?thesis by (metis last.simps)
qed

end
