(* ===== verification/Log.thy ===== *)
theory Log
  imports Bcache
begin

text \<open>
  \<^verbatim>\<open>log.c\<close>: transactions over the buffer cache. \<^verbatim>\<open>readsb\<close> of \<^verbatim>\<open>fs.c\<close> is here because \<^verbatim>\<open>initlog\<close> calls it.
  This theory has the operations and what the pieces of commit and recovery do to the cache and the
  disk; theory \<open>Crash\<close> derives that a crash at any point leaves all or nothing.
\<close>

section \<open>Definitions\<close>

record superblock =
  sb_size :: u32
  sb_nblocks :: u32
  sb_ninodes :: u32
  sb_nlog :: u32
  sb_logstart :: u32
  sb_inodestart :: u32
  sb_bmapstart :: u32

definition sb_of :: "bytes \<Rightarrow> superblock" where
  "sb_of d = \<lparr>sb_size = get32 d 0, sb_nblocks = get32 d 4, sb_ninodes = get32 d 8, sb_nlog = get32 d 12,
     sb_logstart = get32 d 16, sb_inodestart = get32 d 20, sb_bmapstart = get32 d 24\<rparr>"

definition readsb :: "u32 \<Rightarrow> ('z bcst_scheme, superblock) kop" where
  "readsb dev =
     bd (bread dev 1) (\<lambda>bp.
     bd (bpeek bp) (\<lambda>d.
     bd (brelse bp) (\<lambda>_.
     ret (sb_of d))))"

text \<open>\<^verbatim>\<open>struct log\<close>: \<open>lh_n\<close> and \<open>lh_block\<close> are the in-memory header.\<close>

record logst = bcst +
  log_start :: u32
  log_size :: int
  log_outstanding :: int
  log_committing :: bool
  log_dev :: u32
  lh_n :: int
  lh_block :: "u32 list"

text \<open>Access to \<^verbatim>\<open>log.lh.block[i]\<close>; outside the array it is a memory fault.\<close>

definition lh_get :: "nat \<Rightarrow> ('z logst_scheme, u32) kop" where
  "lh_get i s = (if i < LOGSIZE then Done (lh_block s ! i) s else Fault)"

definition lh_set :: "nat \<Rightarrow> u32 \<Rightarrow> ('z logst_scheme, unit) kop" where
  "lh_set i v s = (if i < LOGSIZE then Done () (s\<lparr>lh_block := (lh_block s)[i := v]\<rparr>) else Fault)"

text \<open>The header block: \<^verbatim>\<open>n\<close>, then the array of block numbers.\<close>

definition head_n :: "bytes \<Rightarrow> int" where
  "head_n d = sint (get32 d 0)"

definition head_block :: "bytes \<Rightarrow> nat \<Rightarrow> u32" where
  "head_block d i = get32 d (4 + 4 * i)"

definition put_head :: "int \<Rightarrow> u32 list \<Rightarrow> bytes \<Rightarrow> bytes" where
  "put_head n bs d = fold (\<lambda>i d. put32 d (4 + 4 * i) (bs ! i)) [0..<nat n] (put32 d 0 (word_of_int n))"

definition install_one :: "nat \<Rightarrow> ('z logst_scheme, unit) kop" where
  "install_one tail =
     bd (gets log_dev) (\<lambda>dev.
     bd (gets log_start) (\<lambda>start.
     bd (bread dev (start + of_nat tail + 1)) (\<lambda>lbuf.
     bd (lh_get tail) (\<lambda>dst.
     bd (bread dev dst) (\<lambda>dbuf.
     bd (bpeek lbuf) (\<lambda>d.
     bd (bput dbuf d) (\<lambda>_.
     bd (bwrite dbuf) (\<lambda>_.
     bd (brelse lbuf) (\<lambda>_.
     brelse dbuf)))))))))"

definition install_trans :: "('z logst_scheme, unit) kop" where
  "install_trans = bd (gets lh_n) (\<lambda>n. foreach [0..<nat n] install_one)"

definition read_head :: "('z logst_scheme, unit) kop" where
  "read_head =
     bd (gets log_dev) (\<lambda>dev.
     bd (gets log_start) (\<lambda>start.
     bd (bread dev start) (\<lambda>buf.
     bd (bpeek buf) (\<lambda>d.
     bd (modify (\<lambda>s. s\<lparr>lh_n := head_n d\<rparr>)) (\<lambda>_.
     bd (foreach [0..<nat (head_n d)] (\<lambda>i. lh_set i (head_block d i))) (\<lambda>_.
     brelse buf))))))"

definition write_head :: "('z logst_scheme, unit) kop" where
  "write_head =
     bd (gets log_dev) (\<lambda>dev.
     bd (gets log_start) (\<lambda>start.
     bd (gets lh_n) (\<lambda>n.
     bd (gets lh_block) (\<lambda>bs.
     if LOGSIZE < nat n then (\<lambda>_. Fault)
     else
       bd (bread dev start) (\<lambda>buf.
       bd (bpeek buf) (\<lambda>d.
       bd (bput buf (put_head n bs d)) (\<lambda>_.
       bd (bwrite buf) (\<lambda>_.
       brelse buf))))))))"

definition recover_from_log :: "('z logst_scheme, unit) kop" where
  "recover_from_log =
     bd read_head (\<lambda>_.
     bd install_trans (\<lambda>_.
     bd (modify (\<lambda>s. s\<lparr>lh_n := 0\<rparr>)) (\<lambda>_.
     write_head)))"

definition sizeof_logheader :: nat where
  "sizeof_logheader = 4 + 4 * LOGSIZE"

definition initlog :: "u32 \<Rightarrow> ('z logst_scheme, unit) kop" where
  "initlog dev =
     (if sizeof_logheader \<ge> BSIZE then panic ''initlog: too big logheader''
      else
        bd (readsb dev) (\<lambda>sb.
        bd (modify (\<lambda>s. s\<lparr>log_start := sb_logstart sb, log_size := sint (sb_nlog sb), log_dev := dev\<rparr>)) (\<lambda>_.
        recover_from_log)))"

text \<open>
  \<^verbatim>\<open>begin_op\<close> behind its first \<^verbatim>\<open>acquire\<close>: one pass of the loop, which either admits the call or puts the
  process to sleep; \<open>begin_op_resume\<close> is what it does when it runs again.
\<close>

definition begin_op_loop :: "('z logst_scheme, unit) kop" where
  "begin_op_loop =
     bd (gets log_committing) (\<lambda>committing.
     bd (gets (\<lambda>s. lh_n s + (log_outstanding s + 1) * int MAXOPBLOCKS)) (\<lambda>need.
     if committing then sleep ChanLog LLog
     else if need > int LOGSIZE then sleep ChanLog LLog
     else
       bd (modify (\<lambda>s. s\<lparr>log_outstanding := log_outstanding s + 1\<rparr>)) (\<lambda>_.
       release LLog)))"

definition begin_op :: "('z logst_scheme, unit) kop" where
  "begin_op = bd (acquire LLog) (\<lambda>_. begin_op_loop)"

definition begin_op_resume :: "('z logst_scheme, unit) kop" where
  "begin_op_resume = bd (sleep_resume LLog) (\<lambda>_. begin_op_loop)"

definition write_log_one :: "nat \<Rightarrow> ('z logst_scheme, unit) kop" where
  "write_log_one tail =
     bd (gets log_dev) (\<lambda>dev.
     bd (gets log_start) (\<lambda>start.
     bd (bread dev (start + of_nat tail + 1)) (\<lambda>to.
     bd (lh_get tail) (\<lambda>home.
     bd (bread dev home) (\<lambda>from.
     bd (bpeek from) (\<lambda>d.
     bd (bput to d) (\<lambda>_.
     bd (bwrite to) (\<lambda>_.
     bd (brelse from) (\<lambda>_.
     brelse to)))))))))"

definition write_log :: "('z logst_scheme, unit) kop" where
  "write_log = bd (gets lh_n) (\<lambda>n. foreach [0..<nat n] write_log_one)"

definition commit :: "('z logst_scheme, unit) kop" where
  "commit =
     bd (gets lh_n) (\<lambda>n.
     whenk (n > 0)
       (bd write_log (\<lambda>_.
        bd write_head (\<lambda>_.
        bd install_trans (\<lambda>_.
        bd (modify (\<lambda>s. s\<lparr>lh_n := 0\<rparr>)) (\<lambda>_.
        write_head))))))"

definition end_op :: "('z logst_scheme, unit) kop" where
  "end_op =
     bd (acquire LLog) (\<lambda>_.
     bd (modify (\<lambda>s. s\<lparr>log_outstanding := log_outstanding s - 1\<rparr>)) (\<lambda>_.
     bd (gets log_committing) (\<lambda>committing.
     if committing then panic ''log.committing''
     else
       bd (gets log_outstanding) (\<lambda>outstanding.
       bd (if outstanding = 0 then modify (\<lambda>s. s\<lparr>log_committing := True\<rparr>) else wakeup ChanLog) (\<lambda>_.
       bd (release LLog) (\<lambda>_.
       whenk (outstanding = 0)
         (bd commit (\<lambda>_.
          bd (acquire LLog) (\<lambda>_.
          bd (modify (\<lambda>s. s\<lparr>log_committing := False\<rparr>)) (\<lambda>_.
          bd (wakeup ChanLog) (\<lambda>_.
          release LLog)))))))))))"

text \<open>The index the search loop of \<^verbatim>\<open>log_write\<close> ends with.\<close>

fun absorb_index :: "u32 list \<Rightarrow> u32 \<Rightarrow> nat \<Rightarrow> nat \<Rightarrow> nat" where
  "absorb_index bs blockno i 0 = i"
| "absorb_index bs blockno i (Suc k) =
     (if bs ! i = blockno then i else absorb_index bs blockno (Suc i) k)"

definition log_write :: "nat \<Rightarrow> ('z logst_scheme, unit) kop" where
  "log_write b =
     bd (gets lh_n) (\<lambda>n.
     bd (gets log_size) (\<lambda>size.
     bd (gets log_outstanding) (\<lambda>outstanding.
     if n \<ge> int LOGSIZE \<or> n \<ge> size - 1 then panic ''too big a transaction''
     else if outstanding < 1 then panic ''log_write outside of trans''
     else
       bd (acquire LLog) (\<lambda>_.
       bd (gets (\<lambda>s. bblockno (bufs s ! b))) (\<lambda>blockno.
       bd (gets (\<lambda>s. absorb_index (lh_block s) blockno 0 (nat n))) (\<lambda>i.
       bd (lh_set i blockno) (\<lambda>_.
       bd (whenk (int i = n) (modify (\<lambda>s. s\<lparr>lh_n := n + 1\<rparr>))) (\<lambda>_.
       bd (bmark b) (\<lambda>_.
       release LLog)))))))))"

end
