(* ===== verification/Ring.thy ===== *)
theory Ring
  imports Xv6_Prelude
begin

text \<open>
  Ring buffers indexed by free-running 32-bit counters, as the pipes and the console input
  use them: the element for counter value \<open>k\<close> is at \<open>k mod N\<close>, and the counters wrap around
  with the word. Because \<open>N\<close> divides \<open>2 ^ 32\<close> the wrap-around is harmless.
\<close>

definition ring_contents :: "'a list \<Rightarrow> u32 \<Rightarrow> u32 \<Rightarrow> 'a list" where
  "ring_contents d r w = map (\<lambda>i. d ! (unat (r + of_nat i) mod length d)) [0..<unat (w - r)]"

lemma length_ring_contents [simp]: "length (ring_contents d r w) = unat (w - r)"
  by (simp add: ring_contents_def)

lemma ring_contents_empty [simp]: "ring_contents d r r = []"
  by (simp add: ring_contents_def)

lemma ring_empty_iff: "ring_contents d r w = [] \<longleftrightarrow> r = w"
proof -
  have "ring_contents d r w = [] \<longleftrightarrow> unat (w - r) = 0"
    by (simp add: ring_contents_def)
  then show ?thesis by (auto simp: unat_eq_0)
qed

lemma unat_Suc_diff: "unat ((w :: u32) - r) < 2 ^ 32 - 1 \<Longrightarrow> unat (w + 1 - r) = Suc (unat (w - r))"
proof -
  assume "unat (w - r) < 2 ^ 32 - 1"
  then have "unat ((w - r) + 1) = Suc (unat (w - r))" using unat_add_small [of "w - r" 1] by simp
  moreover have "w + 1 - r = (w - r) + 1" by simp
  ultimately show ?thesis by (simp only:)
qed

lemma unat_pred_diff: "(w :: u32) \<noteq> r \<Longrightarrow> unat (w - (r + 1)) = unat (w - r) - 1 \<and> 0 < unat (w - r)"
proof -
  assume "w \<noteq> r"
  then have "w - r \<noteq> 0" by simp
  then have "unat (w - r - 1) = unat (w - r) - 1" "0 < unat (w - r)"
    using unat_minus_one unat_gt_0 by blast+
  moreover have "w - (r + 1) = w - r - 1" by simp
  ultimately show ?thesis by (simp only: simp_thms)
qed

lemma mod_shift_inj:
  assumes "(a + i) mod n = (a + j) mod n" and "i < n" and "j < n"
  shows "i = (j :: nat)"
proof -
  have "x = y" if "x \<le> y" "y < n" "(a + y) mod n = (a + x) mod n" for x y
  proof -
    have "n dvd (a + y) - (a + x)" using that(1,3) mod_eq_dvd_iff_nat [of "a + x" "a + y" n] by simp
    then have "n dvd y - x" by simp
    moreover have "y - x < n" using that by simp
    ultimately have "y - x = 0" using nat_dvd_not_less by blast
    then show ?thesis using that(1) by simp
  qed
  from this [of i j] this [of j i] assms show ?thesis by (cases "i \<le> j") simp_all
qed

lemma ring_index_less:
  assumes "length d dvd 2 ^ 32" and "0 < length d" and "i < length d" and "j < length d"
    and "unat ((r :: u32) + of_nat i) mod length d = unat (r + of_nat j) mod length d"
  shows "i = j"
proof -
  have u: "unat (r + of_nat k) mod length d = (unat r + k) mod length d" if "k < length d" for k
  proof -
    have "length d \<le> 2 ^ 32" using assms(1) by (simp add: dvd_imp_le)
    then have "unat (of_nat k :: u32) = k"
      using that by (simp add: unat_of_nat)
    then have "unat (r + of_nat k) = (unat r + k) mod 2 ^ 32"
      by (simp add: unat_word_ariths take_bit_eq_mod)
    then show ?thesis by (simp only: mod_mod_cancel [OF assms(1)])
  qed
  have "(unat r + i) mod length d = (unat r + j) mod length d" using assms(5) u assms(3,4) by simp
  then show ?thesis using mod_shift_inj assms(3,4) by blast
qed

text \<open>The three moves: append at \<open>w\<close>, take from \<open>r\<close>, and take back the last element.\<close>

lemma ring_push:
  assumes "length d dvd 2 ^ 32" and "unat (w - r) < length d" and "length d < 2 ^ 32"
  shows "ring_contents (d[unat w mod length d := b]) r (w + 1) = ring_contents d r w @ [b]"
proof -
  have pos: "0 < length d" using assms(2) by linarith
  define n where "n = unat (w - r)"
  have w: "r + of_nat n = w" by (simp add: n_def)
  have other: "unat (r + of_nat i) mod length d \<noteq> unat w mod length d" if "i < n" for i
    using ring_index_less [OF assms(1) pos, of i n r] that assms(2) w by (auto simp: n_def)
  have "unat (w + 1 - r) = Suc n"
    using unat_Suc_diff [of w r] assms(2,3) by (simp add: n_def)
  moreover have "map (\<lambda>i. d[unat w mod length d := b] ! (unat (r + of_nat i) mod length d)) [0..<n] =
      map (\<lambda>i. d ! (unat (r + of_nat i) mod length d)) [0..<n]"
    by (rule map_cong [OF refl]) (simp add: nth_list_update_neq [OF other [symmetric]])
  moreover have "d[unat w mod length d := b] ! (unat w mod length d) = b" using pos by simp
  ultimately show ?thesis by (simp add: ring_contents_def n_def [symmetric] w)
qed

lemma ring_pop:
  assumes "r \<noteq> w"
  shows "ring_contents d r w = d ! (unat r mod length d) # ring_contents d (r + 1) w"
proof -
  have n: "unat (w - r) = Suc (unat (w - (r + 1)))"
    using unat_pred_diff [of w r] assms by auto
  have "map (\<lambda>i. d ! (unat (r + of_nat i) mod length d)) [Suc 0..<Suc m] =
      map (\<lambda>i. d ! (unat (r + 1 + of_nat i) mod length d)) [0..<m]" for m
    by (simp add: map_Suc_upt [symmetric] add.assoc del: upt_Suc)
  then show ?thesis
    by (simp add: ring_contents_def n upt_conv_Cons del: upt_Suc)
qed

lemma ring_unpush:
  assumes "r \<noteq> w"
  shows "ring_contents d r (w - 1) = butlast (ring_contents d r w)"
    and "last (ring_contents d r w) = d ! (unat (w - 1) mod length d)"
proof -
  have "w - r \<noteq> 0" using assms by simp
  then have "unat (w - r - 1) = unat (w - r) - 1" "0 < unat (w - r)"
    using unat_minus_one unat_gt_0 by blast+
  moreover have "w - 1 - r = w - r - 1" by simp
  ultimately have n: "unat (w - r) = Suc (unat (w - 1 - r))" by (simp only: Suc_pred')
  have "r + of_nat (unat (w - 1 - r)) = w - 1" by simp
  then show "ring_contents d r (w - 1) = butlast (ring_contents d r w)"
    "last (ring_contents d r w) = d ! (unat (w - 1) mod length d)"
    by (simp_all add: ring_contents_def n)
qed

lemma ring_take_drop:
  assumes "n \<le> unat (w - r)"
  shows "ring_contents d (r + of_nat n) w = drop n (ring_contents d r w)"
  using assms
proof (induction n arbitrary: r)
  case (Suc n)
  then have ne: "r \<noteq> w" by auto
  then have "n \<le> unat (w - (r + 1))" using Suc.prems unat_pred_diff [of w r] by auto
  from Suc.IH [OF this] show ?case using ring_pop [OF ne, of d] by (simp add: add.assoc)
qed simp

text \<open>A middle counter splits the contents.\<close>

lemma unat_diff_split:
  assumes "unat (w - r) \<le> unat (e - r :: u32)"
  shows "unat (e - r) = unat (w - r) + unat (e - w)"
proof -
  have "e - w = (e - r) - (w - r)" by simp
  moreover have "w - r \<le> e - r" using assms by (simp add: word_le_nat_alt)
  ultimately have "unat (e - w) = unat (e - r) - unat (w - r)" by (simp only: unat_sub)
  with assms show ?thesis by simp
qed

lemma ring_split:
  assumes "unat (w - r) \<le> unat (e - r)"
  shows "ring_contents d r e = ring_contents d r w @ ring_contents d w e"
proof (rule nth_equalityI)
  show "length (ring_contents d r e) = length (ring_contents d r w @ ring_contents d w e)"
    using unat_diff_split [OF assms] by simp
  fix i assume "i < length (ring_contents d r e)"
  then have i: "i < unat (w - r) + unat (e - w)" using unat_diff_split [OF assms] by simp
  show "ring_contents d r e ! i = (ring_contents d r w @ ring_contents d w e) ! i"
  proof (cases "i < unat (w - r)")
    case True
    with i show ?thesis using unat_diff_split [OF assms] by (simp add: ring_contents_def nth_append)
  next
    case False
    have "r + of_nat i = w + of_nat (i - unat (w - r))"
    proof -
      have "(of_nat i :: u32) = of_nat (unat (w - r)) + of_nat (i - unat (w - r))"
        using False by (metis le_add_diff_inverse not_less of_nat_add)
      then show ?thesis by simp
    qed
    with False i show ?thesis
      using unat_diff_split [OF assms] by (simp add: ring_contents_def nth_append add.commute)
  qed
qed

end
