(* ===== verification/Console.thy ===== *)
theory Console
  imports Log Ring
begin

text \<open>
  \<^verbatim>\<open>console.c\<close>: the screen, the output routines, the line discipline of the input buffer, and
  \<^verbatim>\<open>procdump\<close> of \<^verbatim>\<open>proc.c\<close>, which prints to the console. Bytes sent to the serial port are collected in
  \<open>uart_out\<close>; characters are their ASCII codes. \<^verbatim>\<open>consoleread\<close> and \<^verbatim>\<open>consolewrite\<close>, which also lock an
  inode, are in theory \<open>Fs\<close> over the parts given here.
\<close>

section \<open>Definitions\<close>

definition INPUT_BUF :: nat where "INPUT_BUF = 128"
definition BACKSPACE :: u32 where "BACKSPACE = 0x100"

definition NL :: u8 where "NL = 10"
definition CR :: u8 where "CR = 13"

text \<open>\<open>crt\<close> is the display memory, \<open>crt_pos\<close> the cursor registers of the CRT controller.\<close>

record consst = logst +
  cons_locking :: bool
  con_panicked :: bool
  crt :: "u16 list"
  crt_pos :: nat
  uart :: bool
  uart_out :: bytes
  in_buf :: bytes
  in_r :: u32
  in_w :: u32
  in_e :: u32

definition uartputc :: "u32 \<Rightarrow> ('z consst_scheme, unit) kop" where
  "uartputc c = modify (\<lambda>s. if uart s then s\<lparr>uart_out := uart_out s @ [ucast c]\<rparr> else s)"

definition crt_store :: "nat \<Rightarrow> u16 \<Rightarrow> ('z consst_scheme, unit) kop" where
  "crt_store i v s = (if i < length (crt s) then Done () (s\<lparr>crt := (crt s)[i := v]\<rparr>) else Fault)"

text \<open>Scrolling: \<^verbatim>\<open>memmove\<close> up by one row, then clear from the new position to the end of row 23.\<close>

definition crt_scroll :: "nat \<Rightarrow> ('z consst_scheme, nat) kop" where
  "crt_scroll pos s =
     (if 24 * 80 < pos - 80 \<or> length (crt s) < 24 * 80 then Fault
      else
        let d = blit (crt s) 0 (slice (crt s) 80 (23 * 80));
            pos = pos - 80
        in Done pos (s\<lparr>crt := blit d pos (replicate (24 * 80 - pos) 0)\<rparr>))"

definition cga_move :: "u32 \<Rightarrow> nat \<Rightarrow> ('z consst_scheme, nat) kop" where
  "cga_move c pos =
     (if c = ucast NL then ret (pos + (80 - pos mod 80))
      else if c = BACKSPACE then ret (if 0 < pos then pos - 1 else pos)
      else bd (crt_store pos (ucast (c AND 0xFF) OR 0x0700)) (\<lambda>_. ret (pos + 1)))"

definition cga_place :: "nat \<Rightarrow> ('z consst_scheme, unit) kop" where
  "cga_place pos =
     bd (if 24 \<le> pos div 80 then crt_scroll pos else ret pos) (\<lambda>pos.
     bd (modify (\<lambda>s. s\<lparr>crt_pos := pos mod 65536\<rparr>)) (\<lambda>_.
     crt_store pos (0x20 OR 0x0700)))"

definition cgaputc :: "u32 \<Rightarrow> ('z consst_scheme, unit) kop" where
  "cgaputc c = bd (gets crt_pos) (\<lambda>pos. bd (cga_move c pos) cga_place)"

text \<open>A CPU that finds \<^verbatim>\<open>panicked\<close> set spins forever; the outcome records that it is frozen.\<close>

definition consputc :: "u32 \<Rightarrow> ('z consst_scheme, unit) kop" where
  "consputc c =
     bd (gets con_panicked) (\<lambda>p.
     if p then (\<lambda>_. Panicked ''frozen'')
     else
       bd (if c = BACKSPACE
           then bd (uartputc 8) (\<lambda>_. bd (uartputc 0x20) (\<lambda>_. uartputc 8))
           else uartputc c) (\<lambda>_.
       cgaputc c))"

text \<open>
  \<^verbatim>\<open>printint\<close>: the digits in the order the loop produces them, least significant first. The
  base is 10 or 16; the test for a base below 2 only makes the recursion total.
\<close>

function digits_rev :: "nat \<Rightarrow> nat \<Rightarrow> nat list" where
  "digits_rev base x =
     (x mod base) # (if x div base = 0 \<or> base < 2 then [] else digits_rev base (x div base))"
  by pat_completeness auto
termination
  by (relation "measure snd") (auto simp: div_greater_zero_iff)

declare digits_rev.simps [simp del]

definition digit_char :: "nat \<Rightarrow> u8" where
  "digit_char d = (if d < 10 then 0x30 + of_nat d else 0x61 + of_nat (d - 10))"

definition printint_bytes :: "u32 \<Rightarrow> nat \<Rightarrow> bool \<Rightarrow> bytes" where
  "printint_bytes xx base sign =
     (let neg = (sign \<and> sint xx < 0);
          x = (if neg then - xx else xx)
      in (if neg then [0x2D] else []) @ rev (map digit_char (digits_rev base (unat x))))"

definition printint :: "u32 \<Rightarrow> nat \<Rightarrow> bool \<Rightarrow> ('z consst_scheme, unit) kop" where
  "printint xx base sign = foreach (printint_bytes xx base sign) (\<lambda>c. consputc (ucast c))"

text \<open>
  \<^verbatim>\<open>cprintf\<close>: the variable arguments are a list; taking an argument that is not there or
  of the wrong kind is undefined and gives \<open>None\<close>.
\<close>

datatype cparg = ArgInt u32 | ArgStr "bytes option"

fun cfmt :: "bytes \<Rightarrow> cparg list \<Rightarrow> bytes option" where
  "cfmt [] args = Some []"
| "cfmt (c # cs) args =
     (if c = 0 then Some []
      else if c \<noteq> 0x25 then map_option ((#) c) (cfmt cs args)
      else case cs of
        [] \<Rightarrow> Some []
      | k # ks \<Rightarrow>
          if k = 0 then Some []
          else if k = 0x64 then
            (case args of ArgInt x # rest \<Rightarrow> map_option ((@) (printint_bytes x 10 True)) (cfmt ks rest)
             | _ \<Rightarrow> None)
          else if k = 0x78 \<or> k = 0x70 then
            (case args of ArgInt x # rest \<Rightarrow> map_option ((@) (printint_bytes x 16 False)) (cfmt ks rest)
             | _ \<Rightarrow> None)
          else if k = 0x73 then
            (case args of
               ArgStr (Some t) # rest \<Rightarrow> map_option ((@) t) (cfmt ks rest)
             | ArgStr None # rest \<Rightarrow>
                 map_option ((@) [0x28, 0x6E, 0x75, 0x6C, 0x6C, 0x29]) (cfmt ks rest)
             | _ \<Rightarrow> None)
          else if k = 0x25 then map_option ((#) 0x25) (cfmt ks args)
          else map_option (\<lambda>r. 0x25 # k # r) (cfmt ks args))"

definition cprintf :: "bytes option \<Rightarrow> cparg list \<Rightarrow> ('z consst_scheme, unit) kop" where
  "cprintf fmt args =
     bd (gets cons_locking) (\<lambda>locking.
     bd (whenk locking (acquire LCons)) (\<lambda>_.
     case fmt of
       None \<Rightarrow> panic ''null fmt''
     | Some f \<Rightarrow>
         bd (case cfmt f args of
               None \<Rightarrow> (\<lambda>_. Fault)
             | Some out \<Rightarrow> foreach out (\<lambda>c. consputc (ucast c))) (\<lambda>_.
         whenk locking (release LCons))))"

text \<open>The line discipline: one character of \<^verbatim>\<open>consoleintr\<close>.\<close>

definition in_at :: "'z consst_scheme \<Rightarrow> u32 \<Rightarrow> u8" where
  "in_at s i = in_buf s ! (unat i mod INPUT_BUF)"

text \<open>
  The kill-line loop; its count bounds the recursion, and when it is used up the line
  is empty, so the loop would stop there.
\<close>

fun kill_line :: "nat \<Rightarrow> ('z consst_scheme, unit) kop" where
  "kill_line 0 = ret ()"
| "kill_line (Suc k) =
     bd (gets (\<lambda>s. in_e s \<noteq> in_w s \<and> in_at s (in_e s - 1) \<noteq> NL)) (\<lambda>more.
     if more then
       bd (modify (\<lambda>s. s\<lparr>in_e := in_e s - 1\<rparr>)) (\<lambda>_.
       bd (consputc BACKSPACE) (\<lambda>_.
       kill_line k))
     else ret ())"

text \<open>\<^verbatim>\<open>getcallerpcs\<close> of \<^verbatim>\<open>spinlock.c\<close>: follow the chain of saved frame pointers in memory.\<close>

fun callerpcs :: "mem \<Rightarrow> u32 \<Rightarrow> nat \<Rightarrow> u32 list" where
  "callerpcs m ebp 0 = []"
| "callerpcs m ebp (Suc n) =
     (if ebp = 0 \<or> ebp < KERNBASE \<or> ebp = 0xFFFFFFFF then replicate (Suc n) 0
      else load32 m (ebp + 4) # callerpcs m (load32 m ebp) n)"

definition getcallerpcs :: "mem \<Rightarrow> u32 \<Rightarrow> u32 list" where
  "getcallerpcs m v = callerpcs m (v - 8) 10"

text \<open>\<^verbatim>\<open>procdump\<close> of \<^verbatim>\<open>proc.c\<close>; the string constants are written as character codes.\<close>

definition ascii :: "string \<Rightarrow> bytes" where
  "ascii cs = map of_char cs"

definition state_name :: "procstate \<Rightarrow> bytes" where
  "state_name st = ascii (case st of
     UNUSED \<Rightarrow> ''unused'' | EMBRYO \<Rightarrow> ''embryo'' | SLEEPING \<Rightarrow> ''sleep ''
   | RUNNABLE \<Rightarrow> ''runble'' | RUNNING \<Rightarrow> ''run   '' | ZOMBIE \<Rightarrow> ''zombie'')"

definition procdump_one :: "proc \<Rightarrow> ('z consst_scheme, unit) kop" where
  "procdump_one p =
     (if state p = UNUSED then ret ()
      else
        bd (cprintf (Some (ascii ''%d %s %s''))
             [ArgInt (word_of_int (pid p)), ArgStr (Some (state_name (state p))),
              ArgStr (Some (takeWhile (\<lambda>c. c \<noteq> 0) (pname p)))]) (\<lambda>_.
        bd (if state p = SLEEPING then
              bd (gets kmem_mem) (\<lambda>m.
              foreach (takeWhile (\<lambda>pc. pc \<noteq> 0) (getcallerpcs m (cx_ebp (ctx p) + 8)))
                (\<lambda>pc. cprintf (Some (ascii '' %p'')) [ArgInt pc]))
            else ret ()) (\<lambda>_.
        cprintf (Some [NL]) [])))"

definition procdump :: "('z consst_scheme, unit) kop" where
  "procdump = bd (gets ptable) (\<lambda>ps. foreach ps procdump_one)"

definition cons_char :: "u32 \<Rightarrow> ('z consst_scheme, unit) kop" where
  "cons_char c =
     (if c = 0x10 then procdump
      else if c = 0x15 then bd (gets (\<lambda>s. unat (in_e s - in_w s))) kill_line
      else if c = 8 \<or> c = 0x7F then
        bd (gets (\<lambda>s. in_e s \<noteq> in_w s)) (\<lambda>b.
        whenk b (bd (modify (\<lambda>s. s\<lparr>in_e := in_e s - 1\<rparr>)) (\<lambda>_. consputc BACKSPACE)))
      else
        bd (gets (\<lambda>s. c \<noteq> 0 \<and> unat (in_e s - in_r s) < INPUT_BUF)) (\<lambda>fits.
        whenk fits
          (let c = (if c = ucast CR then ucast NL else c) in
           bd (modify (\<lambda>s. s\<lparr>in_buf := (in_buf s)[unat (in_e s) mod INPUT_BUF := ucast c]\<rparr>)) (\<lambda>_.
           bd (modify (\<lambda>s. s\<lparr>in_e := in_e s + 1\<rparr>)) (\<lambda>_.
           bd (consputc c) (\<lambda>_.
           bd (gets (\<lambda>s. c = ucast NL \<or> c = 4 \<or> in_e s = in_r s + of_nat INPUT_BUF)) (\<lambda>commit_line.
           whenk commit_line
             (bd (modify (\<lambda>s. s\<lparr>in_w := in_e s\<rparr>)) (\<lambda>_. wakeup ChanInput)))))))))"

text \<open>\<^verbatim>\<open>consoleintr\<close>: \<open>cs\<close> are the values \<^verbatim>\<open>getc\<close> returns before the first negative one.\<close>

definition consoleintr :: "u32 list \<Rightarrow> ('z consst_scheme, unit) kop" where
  "consoleintr cs =
     bd (acquire LInput) (\<lambda>_.
     bd (foreach cs cons_char) (\<lambda>_.
     release LInput))"

text \<open>
  The loop of \<^verbatim>\<open>consoleread\<close> with \<open>n\<close> bytes to go and \<open>acc\<close> read so far, entered with the input
  lock held. The result is \<open>None\<close> if the process has been killed. On an empty buffer it
  sleeps, and \<open>cons_take_resume\<close> goes on from there.
\<close>

definition cur_killed :: "'z ptst_scheme \<Rightarrow> bool" where
  "cur_killed s = (case curproc s of None \<Rightarrow> False | Some i \<Rightarrow> killed (ptable s ! i))"

fun cons_take :: "nat \<Rightarrow> nat \<Rightarrow> bytes \<Rightarrow> ('z consst_scheme, bytes option) kop" where
  "cons_take target 0 acc = ret (Some acc)"
| "cons_take target (Suc n) acc =
     bd (gets (\<lambda>s. in_r s = in_w s)) (\<lambda>empty.
     if empty then
       bd (gets cur_killed) (\<lambda>k.
       if k then ret None
       else bd (sleep ChanInput LInput) (\<lambda>_ _. Fault))
     else
       bd (gets (\<lambda>s. in_at s (in_r s))) (\<lambda>c.
       bd (modify (\<lambda>s. s\<lparr>in_r := in_r s + 1\<rparr>)) (\<lambda>_.
       if c = 4 then
         bd (whenk (Suc n < target) (modify (\<lambda>s. s\<lparr>in_r := in_r s - 1\<rparr>))) (\<lambda>_.
         ret (Some acc))
       else if c = NL then ret (Some (acc @ [c]))
       else cons_take target n (acc @ [c]))))"

definition cons_take_resume :: "nat \<Rightarrow> nat \<Rightarrow> bytes \<Rightarrow> ('z consst_scheme, bytes option) kop" where
  "cons_take_resume target n acc = bd (sleep_resume LInput) (\<lambda>_. cons_take target n acc)"

section \<open>The screen\<close>

text \<open>The cursor is on one of the first 24 rows of a screen of 25 rows of 80 characters.\<close>

definition screen_ok :: "'z consst_scheme \<Rightarrow> bool" where
  "screen_ok s \<longleftrightarrow> length (crt s) = 25 * 80 \<and> crt_pos s < 24 * 80"

lemma crt_store_run: "i < length (crt s) \<Longrightarrow> crt_store i v s = Done () (s\<lparr>crt := (crt s)[i := v]\<rparr>)"
  by (simp add: crt_store_def)

lemma cga_place_ok:
  assumes "length (crt s) = 25 * 80" and "pos \<le> 24 * 80"
  shows "\<exists>t. cga_place pos s = Done () t \<and> screen_ok t \<and> t = s\<lparr>crt := crt t, crt_pos := crt_pos t\<rparr>"
proof (cases "24 \<le> pos div 80")
  case True
  then have pos: "pos = 24 * 80" using assms(2) by simp
  have len: "length (blit (blit (crt s) 0 (slice (crt s) 80 (23 * 80))) (pos - 80) (replicate (24 * 80 - (pos - 80)) 0)) = 25 * 80"
    using assms pos by simp
  show ?thesis
    using True assms pos len
    by (simp add: cga_place_def bd_run crt_scroll_def Let_def crt_store_def screen_ok_def)
next
  case False
  then have "pos < 24 * 80" by simp
  then show ?thesis using False assms by (simp add: cga_place_def bd_run crt_store_def screen_ok_def)
qed

lemma cgaputc_ok:
  assumes "screen_ok s"
  shows "\<exists>t. cgaputc c s = Done () t \<and> screen_ok t \<and> t = s\<lparr>crt := crt t, crt_pos := crt_pos t\<rparr>"
proof -
  have len: "length (crt s) = 25 * 80" and pos: "crt_pos s < 24 * 80"
    using assms by (simp_all add: screen_ok_def)
  define p where "p = (if c = ucast NL then crt_pos s + (80 - crt_pos s mod 80)
      else if c = BACKSPACE then (if 0 < crt_pos s then crt_pos s - 1 else crt_pos s) else crt_pos s + 1)"
  define u where "u = (if c = ucast NL \<or> c = BACKSPACE then s
      else s\<lparr>crt := (crt s)[crt_pos s := ucast (c AND 0xFF) OR 0x0700]\<rparr>)"
  have p: "p \<le> 24 * 80"
  proof -
    define q r where "q = crt_pos s div 80" and "r = crt_pos s mod 80"
    have "crt_pos s = q * 80 + r" "r < 80" by (simp_all add: q_def r_def)
    moreover from this pos have "q < 24" by simp
    ultimately have "crt_pos s + (80 - r) \<le> 24 * 80" by simp
    then have "crt_pos s + (80 - crt_pos s mod 80) \<le> 24 * 80" by (simp add: r_def)
    moreover have "crt_pos s - 1 \<le> 24 * 80" "crt_pos s + 1 \<le> 24 * 80" using pos by linarith+
    ultimately show ?thesis by (simp add: p_def)
  qed
  have lu: "length (crt u) = 25 * 80" using len by (simp add: u_def)
  obtain t where t: "cga_place p u = Done () t" "screen_ok t"
    and ut: "t = u\<lparr>crt := crt t, crt_pos := crt_pos t\<rparr>"
    using cga_place_ok [OF lu p] by blast
  have "cga_move c (crt_pos s) s = Done p u"
    using len pos by (cases "c = ucast NL"; cases "c = BACKSPACE")
      (simp_all add: cga_move_def bd_run crt_store_run p_def u_def)
  then have "cgaputc c s = Done () t" using t(1) by (simp add: cgaputc_def bd_run)
  moreover have "t = s\<lparr>crt := crt t, crt_pos := crt_pos t\<rparr>" by (subst ut) (simp add: u_def)
  ultimately show ?thesis using t(2) by blast
qed

text \<open>What output changes: the screen and the serial port only.\<close>

definition out_frame :: "'z consst_scheme \<Rightarrow> 'z consst_scheme \<Rightarrow> bool" where
  "out_frame s t \<longleftrightarrow> t = s\<lparr>crt := crt t, crt_pos := crt_pos t, uart_out := uart_out t\<rparr>"

lemma out_frame_fields:
  assumes "out_frame s t"
  shows "held t = held s" "in_buf t = in_buf s" "in_r t = in_r s" "in_w t = in_w s" "in_e t = in_e s"
    "con_panicked t = con_panicked s" "ptable t = ptable s" "curproc t = curproc s" "uart t = uart s"
proof -
  have e: "t = s\<lparr>crt := crt t, crt_pos := crt_pos t, uart_out := uart_out t\<rparr>"
    using assms by (simp only: out_frame_def)
  show "held t = held s" "in_buf t = in_buf s" "in_r t = in_r s" "in_w t = in_w s" "in_e t = in_e s"
    "con_panicked t = con_panicked s" "ptable t = ptable s" "curproc t = curproc s" "uart t = uart s"
    by (subst e, simp)+
qed

lemma consputc_ok:
  assumes "screen_ok s" and "\<not> con_panicked s"
  shows "\<exists>t. consputc c s = Done () t \<and> screen_ok t \<and> out_frame s t \<and>
    (c \<noteq> BACKSPACE \<longrightarrow> uart_out t = uart_out s @ (if uart s then [ucast c] else []))"
proof -
  define u where "u = (if uart s then s\<lparr>uart_out := uart_out s @ (if c = BACKSPACE then [8, 0x20, 8] else [ucast c])\<rparr> else s)"
  have "screen_ok u" using assms(1) by (simp add: u_def screen_ok_def)
  then obtain t where t: "cgaputc c u = Done () t" "screen_ok t" and ut: "t = u\<lparr>crt := crt t, crt_pos := crt_pos t\<rparr>"
    using cgaputc_ok by blast
  have "(if c = BACKSPACE then bd (uartputc 8) (\<lambda>_. bd (uartputc 0x20) (\<lambda>_. uartputc 8)) else uartputc c) s = Done () u"
    by (cases "c = BACKSPACE") (simp_all add: bd_run uartputc_def u_def)
  then have "consputc c s = Done () t"
    using t(1) assms(2) by (simp add: consputc_def bd_run)
  moreover have o: "uart_out t = uart_out u" by (subst ut) simp
  have us: "u = s\<lparr>uart_out := uart_out u\<rparr>" by (simp add: u_def)
  have "out_frame s t" unfolding out_frame_def o by (subst ut, subst us) simp
  moreover have "c \<noteq> BACKSPACE \<longrightarrow> uart_out t = uart_out s @ (if uart s then [ucast c] else [])"
    unfolding o by (simp add: u_def)
  ultimately show ?thesis using t(2) by blast
qed

lemma out_frame_trans: "out_frame s t \<Longrightarrow> out_frame t u \<Longrightarrow> out_frame s u"
proof -
  assume "out_frame s t" and "out_frame t u"
  then have st: "t = s\<lparr>crt := crt t, crt_pos := crt_pos t, uart_out := uart_out t\<rparr>"
    and tu: "u = t\<lparr>crt := crt u, crt_pos := crt_pos u, uart_out := uart_out u\<rparr>"
    by (simp_all only: out_frame_def)
  show "out_frame s u" unfolding out_frame_def by (subst tu, subst st) simp
qed

lemma ucast_u8_u32 [simp]: "(ucast (ucast (b :: u8) :: u32) :: u8) = b" "(ucast b :: u32) \<noteq> BACKSPACE"
proof -
  show "(ucast (ucast (b :: u8) :: u32) :: u8) = b" by (simp add: unsigned_ucast_eq take_bit_word_eq_self)
  have "unat (ucast b :: u32) < 256" 
    using le_less_trans [OF take_bit_nat_less_eq_self, of "unat b" 256 32] unsigned_less [of b, where 'a = nat]
    by (simp add: unsigned_ucast_eq)
  then show "(ucast b :: u32) \<noteq> BACKSPACE" by (auto simp: BACKSPACE_def)
qed

lemma puts_ok:
  assumes "screen_ok s" and "\<not> con_panicked s"
  shows "\<exists>t. foreach out (\<lambda>c. consputc (ucast c)) s = Done () t \<and> screen_ok t \<and> out_frame s t \<and>
    uart_out t = uart_out s @ (if uart s then out else [])"
  using assms
proof (induction out arbitrary: s)
  case Nil
  then show ?case by (simp add: out_frame_def)
next
  case (Cons c out)
  obtain u where u: "consputc (ucast c) s = Done () u" "screen_ok u" "out_frame s u"
    "uart_out u = uart_out s @ (if uart s then [c] else [])"
    using consputc_ok [OF Cons.prems, of "ucast c"] by auto
  note U = out_frame_fields [OF u(3)]
  obtain t where t: "foreach out (\<lambda>c. consputc (ucast c)) u = Done () t" "screen_ok t" "out_frame u t"
    "uart_out t = uart_out u @ (if uart u then out else [])"
    using Cons.IH [OF u(2)] Cons.prems(2) U(6) by blast
  show ?case
    using out_frame_trans [OF u(3) t(3)] u(1,4) t U(9) by (intro exI [of _ t]) (simp add: bd_run)
qed

section \<open>The line discipline\<close>

text \<open>What a reader can take, and what is still being edited.\<close>

definition pending :: "'z consst_scheme \<Rightarrow> bytes" where
  "pending s = ring_contents (in_buf s) (in_r s) (in_w s)"

definition typed :: "'z consst_scheme \<Rightarrow> bytes" where
  "typed s = ring_contents (in_buf s) (in_w s) (in_e s)"

definition input_ok :: "'z consst_scheme \<Rightarrow> bool" where
  "input_ok s \<longleftrightarrow> length (in_buf s) = INPUT_BUF \<and> unat (in_w s - in_r s) \<le> unat (in_e s - in_r s) \<and>
     unat (in_e s - in_r s) \<le> INPUT_BUF"

lemma INPUT_BUF_dvd: "INPUT_BUF dvd 2 ^ 32" "INPUT_BUF < 2 ^ 32" "0 < INPUT_BUF"
  by (simp_all add: INPUT_BUF_def)

lemma input_length: "input_ok s \<Longrightarrow> unat (in_e s - in_r s) = length (pending s) + length (typed s)"
  using unat_diff_split [of "in_w s" "in_r s" "in_e s"] by (simp add: input_ok_def pending_def typed_def)

lemma typed_push:
  assumes "input_ok s" and "length (pending s) + length (typed s) < INPUT_BUF"
    and t_def: "t = s\<lparr>in_buf := (in_buf s)[unat (in_e s) mod INPUT_BUF := b], in_e := in_e s + 1\<rparr>"
  shows "input_ok t" and "pending t = pending s" and "typed t = typed s @ [b]"
proof -
  let ?d = "(in_buf s)[unat (in_e s) mod INPUT_BUF := b]"
  have len: "length (in_buf s) = INPUT_BUF" and le: "unat (in_w s - in_r s) \<le> unat (in_e s - in_r s)"
    and sm: "unat (in_e s - in_r s) < INPUT_BUF"
    using assms(1,2) input_length [OF assms(1)] by (simp_all add: input_ok_def)
  have n: "unat (in_e s + 1 - in_r s) = Suc (unat (in_e s - in_r s))"
    by (rule unat_Suc_diff) (use sm in \<open>simp add: INPUT_BUF_def\<close>)
  have le': "unat (in_w s - in_r s) \<le> unat (in_e s + 1 - in_r s)" unfolding n using le by (rule le_SucI)
  show "input_ok t" using len le' n sm by (simp only: input_ok_def t_def) (simp add: n)
  have "ring_contents ?d (in_r s) (in_e s + 1) = ring_contents (in_buf s) (in_r s) (in_e s) @ [b]"
    using ring_push [of "in_buf s" "in_e s" "in_r s" b] len sm INPUT_BUF_dvd by simp
  also have "\<dots> = pending s @ typed s @ [b]"
    using ring_split [OF le] by (simp add: pending_def typed_def)
  finally have "ring_contents ?d (in_r s) (in_w s) @ ring_contents ?d (in_w s) (in_e s + 1) = pending s @ typed s @ [b]"
    using ring_split [OF le', of ?d] by simp
  then have "ring_contents ?d (in_r s) (in_w s) = pending s \<and> ring_contents ?d (in_w s) (in_e s + 1) = typed s @ [b]"
    by (subst (asm) append_eq_append_conv) (simp_all add: pending_def)
  then show "pending t = pending s" "typed t = typed s @ [b]" by (simp_all add: pending_def typed_def t_def)
qed

lemma typed_pop:
  assumes "input_ok s" and "in_e s \<noteq> in_w s"
  shows "input_ok (s\<lparr>in_e := in_e s - 1\<rparr>)" and "typed (s\<lparr>in_e := in_e s - 1\<rparr>) = butlast (typed s)"
    and "last (typed s) = in_at s (in_e s - 1)" and "typed s \<noteq> []"
    and "unat (in_e s - 1 - in_w s) < unat (in_e s - in_w s)"
proof -
  have le: "unat (in_w s - in_r s) \<le> unat (in_e s - in_r s)" and len: "length (in_buf s) = INPUT_BUF"
    and mx: "unat (in_e s - in_r s) \<le> INPUT_BUF"
    using assms(1) by (simp_all add: input_ok_def)
  have s: "unat (in_e s - in_r s) = unat (in_w s - in_r s) + unat (in_e s - in_w s)"
    by (rule unat_diff_split [OF le])
  have "in_e s - in_w s \<noteq> 0" using assms(2) by simp
  then have p: "0 < unat (in_e s - in_w s)" "unat (in_e s - in_w s - 1) = unat (in_e s - in_w s) - 1"
    using unat_gt_0 unat_minus_one by blast+
  have "in_e s - in_r s \<noteq> 0" using s p(1) unat_gt_0 by force
  then have "unat (in_e s - in_r s - 1) = unat (in_e s - in_r s) - 1" by (rule unat_minus_one)
  moreover have "in_e s - in_r s - 1 = in_e s - 1 - in_r s" "in_e s - in_w s - 1 = in_e s - 1 - in_w s" by simp_all
  ultimately have q: "unat (in_e s - 1 - in_r s) = unat (in_e s - in_r s) - 1"
    "unat (in_e s - 1 - in_w s) = unat (in_e s - in_w s) - 1" using p(2) by (simp_all only:)
  have "unat (in_e s - in_w s) - 1 < unat (in_e s - in_w s)" using p(1) by simp
  then show "unat (in_e s - 1 - in_w s) < unat (in_e s - in_w s)" by (simp only: q(2))
  have "unat (in_w s - in_r s) \<le> unat (in_e s - in_r s) - 1" using s p(1) by linarith
  then have "unat (in_w s - in_r s) \<le> unat (in_e s - 1 - in_r s)" "unat (in_e s - 1 - in_r s) \<le> INPUT_BUF"
    using mx unfolding q(1) by linarith+
  then show "input_ok (s\<lparr>in_e := in_e s - 1\<rparr>)" using len by (simp add: input_ok_def)
  have ne: "in_w s \<noteq> in_e s" using assms(2) by simp
  show "typed (s\<lparr>in_e := in_e s - 1\<rparr>) = butlast (typed s)" "last (typed s) = in_at s (in_e s - 1)"
    using ring_unpush [OF ne, of "in_buf s"] len by (simp_all add: typed_def in_at_def)
  show "typed s \<noteq> []" using ne by (simp add: typed_def ring_empty_iff)
qed

text \<open>The specification: editing a line in a queue of finished input and an unfinished line.\<close>

definition cooked :: "u32 \<Rightarrow> u8" where
  "cooked c = (if c = ucast CR then NL else ucast c)"

definition line_step :: "u32 \<Rightarrow> bytes \<times> bytes \<Rightarrow> bytes \<times> bytes" where
  "line_step c QL = (case QL of (Q, L) \<Rightarrow>
     if c = 0x15 then (Q, rev (dropWhile (\<lambda>b. b \<noteq> NL) (rev L)))
     else if c = 8 \<or> c = 0x7F then (Q, butlast L)
     else if c \<noteq> 0 \<and> length Q + length L < INPUT_BUF then
       (if cooked c = NL \<or> cooked c = 4 \<or> length Q + length L + 1 = INPUT_BUF
        then (Q @ L @ [cooked c], []) else (Q, L @ [cooked c]))
     else (Q, L))"

lemma input_frame:
  assumes "out_frame s t"
  shows "input_ok t = input_ok s" "pending t = pending s" "typed t = typed s" "in_at t = in_at s"
  using out_frame_fields [OF assms] by (simp_all add: input_ok_def pending_def typed_def in_at_def fun_eq_iff)

lemma screen_in_e [simp]: "screen_ok (s\<lparr>in_e := x\<rparr>) = screen_ok s" "screen_ok (s\<lparr>in_buf := y\<rparr>) = screen_ok s"
  "screen_ok (s\<lparr>in_w := x\<rparr>) = screen_ok s" "screen_ok (s\<lparr>ptable := ps\<rparr>) = screen_ok s"
  by (simp_all add: screen_ok_def)

lemma kill_line_spec:
  assumes "input_ok s" and "screen_ok s" and "\<not> con_panicked s" and "unat (in_e s - in_w s) \<le> k"
  shows "\<exists>t. kill_line k s = Done () t \<and> input_ok t \<and> screen_ok t \<and> pending t = pending s \<and>
    typed t = rev (dropWhile (\<lambda>b. b \<noteq> NL) (rev (typed s)))"
  using assms
proof (induction k arbitrary: s)
  case 0
  then have "typed s = []" by (simp add: typed_def ring_empty_iff unat_eq_0)
  with 0 show ?case by simp
next
  case (Suc k)
  show ?case
  proof (cases "in_e s \<noteq> in_w s \<and> in_at s (in_e s - 1) \<noteq> NL")
    case True
    note p = typed_pop [OF Suc.prems(1)]
    define u where "u = s\<lparr>in_e := in_e s - 1\<rparr>"
    have u: "input_ok u" "typed u = butlast (typed s)" "screen_ok u" "\<not> con_panicked u" "pending u = pending s"
      using p True Suc.prems by (simp_all add: u_def pending_def)
    obtain v where v: "consputc BACKSPACE u = Done () v" "screen_ok v" "out_frame u v"
      using consputc_ok [OF u(3,4)] by blast
    note f = input_frame [OF v(3)] out_frame_fields [OF v(3)]
    have "unat (in_e v - in_w v) \<le> k"
      using p(5) True Suc.prems(4) f by (simp add: u_def)
    then obtain t where t: "kill_line k v = Done () t" "input_ok t" "screen_ok t" "pending t = pending s"
      "typed t = rev (dropWhile (\<lambda>b. b \<noteq> NL) (rev (butlast (typed s))))"
      using Suc.IH [of v] u f v(2) by auto
    have "kill_line (Suc k) s = Done () t" using True v(1) t(1) by (simp add: bd_run u_def)
    moreover have "typed s = butlast (typed s) @ [in_at s (in_e s - 1)]"
      using p(3,4) True by (metis append_butlast_last_id)
    then have "rev (typed s) = in_at s (in_e s - 1) # rev (butlast (typed s))"
      by (metis rev_eq_Cons_iff rev_rev_ident)
    then have "dropWhile (\<lambda>b. b \<noteq> NL) (rev (typed s)) = dropWhile (\<lambda>b. b \<noteq> NL) (rev (butlast (typed s)))"
      using True by (simp only: dropWhile.simps) simp
    ultimately show ?thesis using t(2-5) by (intro exI [of _ t]) simp
  next
    case False
    have "typed s = [] \<or> (typed s \<noteq> [] \<and> last (typed s) = NL)"
      using False typed_pop(3,4) [OF Suc.prems(1)] by (cases "in_e s = in_w s") (auto simp: typed_def)
    then have "rev (dropWhile (\<lambda>b. b \<noteq> NL) (rev (typed s))) = typed s"
      by (cases "typed s" rule: rev_cases) auto
    with False Suc.prems show ?thesis by (auto simp: bd_run)
  qed
qed

lemma cons_char_insert:
  assumes inv: "input_ok s" "screen_ok s" "\<not> con_panicked s" "LPtable \<notin> held s" and c: "unat c < 256" "c \<noteq> 0"
    and ctl: "c \<notin> {0x10, 0x15, 8, 0x7F}" and room: "length (pending s) + length (typed s) < INPUT_BUF"
  shows "\<exists>t. cons_char c s = Done () t \<and> input_ok t \<and> screen_ok t \<and>
    (pending t, typed t) = line_step c (pending s, typed s)"
proof -
  define d where "d = (if c = ucast CR then ucast NL else c)"
  have d: "ucast d = cooked c" "d = ucast NL \<longleftrightarrow> cooked c = NL" "d = 4 \<longleftrightarrow> cooked c = 4"
  proof -
    have inj: "(ucast x :: u8) = ucast y \<longleftrightarrow> x = y" if "unat x < 256" "unat y < 256" for x y :: u32
      using that by (auto simp: word_unat_eq_iff unsigned_ucast_eq take_bit_eq_mod)
    have "unat d < 256" using c(1) by (simp add: d_def NL_def)
    then show "ucast d = cooked c" "d = ucast NL \<longleftrightarrow> cooked c = NL" "d = 4 \<longleftrightarrow> cooked c = 4"
      using inj [of d "ucast NL"] inj [of d 4]
      by (auto simp: d_def cooked_def NL_def CR_def)
  qed
  define u where "u = s\<lparr>in_buf := (in_buf s)[unat (in_e s) mod INPUT_BUF := ucast d], in_e := in_e s + 1\<rparr>"
  note U = typed_push [OF inv(1) room u_def]
  obtain v where v: "consputc d u = Done () v" "screen_ok v" "out_frame u v"
    using consputc_ok [of u d] inv by (auto simp: u_def screen_ok_def)
  note V = input_frame [OF v(3)] out_frame_fields [OF v(3)]
  have len: "unat (in_e s - in_r s) = length (pending s) + length (typed s)" by (rule input_length [OF inv(1)])
  have full: "in_e v = in_r v + of_nat INPUT_BUF \<longleftrightarrow> length (pending s) + length (typed s) + 1 = INPUT_BUF"
  proof -
    have "in_e v = in_r v + of_nat INPUT_BUF \<longleftrightarrow> in_e s + 1 - in_r s = of_nat INPUT_BUF"
      using V by (auto simp: u_def algebra_simps)
    also have "\<dots> \<longleftrightarrow> unat (in_e s + 1 - in_r s) = INPUT_BUF"
      by (auto simp: word_unat_eq_iff INPUT_BUF_def)
    also have "unat (in_e s + 1 - in_r s) = Suc (unat (in_e s - in_r s))"
      by (rule unat_Suc_diff) (use room len in \<open>simp add: INPUT_BUF_def\<close>)
    finally show ?thesis using len by simp
  qed
  define com where "com \<longleftrightarrow> d = ucast NL \<or> d = 4 \<or> in_e v = in_r v + of_nat INPUT_BUF"
  define t where "t = (if com then v\<lparr>in_w := in_e v, ptable := map (\<lambda>p. if state p = SLEEPING \<and>
      chan p = Some ChanInput then p\<lparr>state := RUNNABLE\<rparr> else p) (ptable v)\<rparr> else v)"
  have "cons_char c s = Done () t"
    using ctl room c(2) len v(1) inv(4) V
    by (simp add: cons_char_def bd_run u_def d_def [symmetric] Let_def com_def wakeup_run t_def)
  moreover have "input_ok t \<and> screen_ok t \<and> (pending t, typed t) = line_step c (pending s, typed s)"
  proof (cases com)
    case True
    have io: "input_ok v" using V U by simp
    then have le: "unat (in_w v - in_r v) \<le> unat (in_e v - in_r v)" by (simp add: input_ok_def)
    have "pending t = ring_contents (in_buf v) (in_r v) (in_e v)" using True by (simp add: t_def pending_def)
    also have "\<dots> = pending v @ typed v" using ring_split [OF le] by (simp add: pending_def typed_def)
    finally have "pending t = pending s @ typed s @ [cooked c]" "typed t = []"
      using V U d(1) True by (simp_all add: t_def typed_def)
    moreover have "input_ok t" using io True by (simp add: t_def input_ok_def)
    moreover have "screen_ok t" using v(2) True by (simp add: t_def)
    ultimately show ?thesis using True ctl room c(2) d full by (auto simp: line_step_def com_def)
  next
    case False
    then have "pending t = pending s" "typed t = typed s @ [cooked c]" "input_ok t" "screen_ok t"
      using V U d(1) v(2) by (simp_all add: t_def)
    then show ?thesis using False ctl room c(2) d full by (auto simp: line_step_def com_def)
  qed
  ultimately show ?thesis by blast
qed

section \<open>Properties\<close>

text \<open>
  C37: The line discipline. For every character but the process-listing key, \<^verbatim>\<open>consoleintr\<close>'s body
  refines line editing: an ordinary character is appended to the unfinished line if the buffer has
  room, a newline, control-D or a full buffer hands the line over to the readers, backspace removes the
  last character of the line only, and control-U the whole line back to the last newline. The ring indices stay
  consistent across the wrap-around of the 32-bit counters.
\<close>

theorem cons_char_edits:
  assumes "input_ok s" and "screen_ok s" and "\<not> con_panicked s" and "LPtable \<notin> held s"
    and "unat c < 256" and "c \<noteq> 0x10"
  shows "\<exists>t. cons_char c s = Done () t \<and> input_ok t \<and> screen_ok t \<and>
    (pending t, typed t) = line_step c (pending s, typed s)"
proof -
  consider "c = 0x15" | "c = 8 \<or> c = 0x7F"
    | "c \<notin> {0x10, 0x15, 8, 0x7F}" "c \<noteq> 0" "length (pending s) + length (typed s) < INPUT_BUF"
    | "c \<notin> {0x10, 0x15, 8, 0x7F}" "c = 0 \<or> \<not> length (pending s) + length (typed s) < INPUT_BUF"
    using assms(6) by auto
  then show ?thesis
  proof cases
    case 1
    then show ?thesis
      using kill_line_spec [OF assms(1-3) order_refl] by (simp add: cons_char_def bd_run line_step_def)
  next
    case 2
    show ?thesis
    proof (cases "in_e s = in_w s")
      case True
      then have "typed s = []" by (simp add: typed_def)
      with 2 True assms show ?thesis by (auto simp: cons_char_def bd_run line_step_def)
    next
      case False
      define u where "u = s\<lparr>in_e := in_e s - 1\<rparr>"
      have u: "input_ok u" "typed u = butlast (typed s)" "pending u = pending s"
        using typed_pop [OF assms(1) False] by (simp_all add: u_def pending_def)
      obtain v where v: "consputc BACKSPACE u = Done () v" "screen_ok v" "out_frame u v"
        using consputc_ok [of u] assms(2,3) by (auto simp: u_def)
      have "cons_char c s = Done () v" using 2 False v(1) by (auto simp: cons_char_def bd_run u_def)
      with v(2) u input_frame [OF v(3)] 2 show ?thesis by (auto simp: line_step_def)
    qed
  next
    case 3
    then show ?thesis using cons_char_insert [OF assms(1-5)] by blast
  next
    case 4
    then show ?thesis
      using assms(1,2) input_length [OF assms(1)] by (auto simp: cons_char_def bd_run line_step_def Let_def)
  qed
qed

text \<open>A console with the cursor at the top, an empty input buffer and the indices about to wrap around.\<close>

definition boot_console :: consst where
  "boot_console = \<lparr>held = {}, ptable = [], initproc = None, nextpid = 1, curproc = None, cr3 = 0, ts_esp0 = 0,
     kpgdir = 0, kmem_mem = (\<lambda>_. 0), use_lock = True, freelist = 0, kend = 0x8010A000, bufs = [], disk = [],
     dtrace = [], log_start = 0, log_size = 0, log_outstanding = 0, log_committing = False, log_dev = 0,
     lh_n = 0, lh_block = [], cons_locking = True, con_panicked = False, crt = replicate (25 * 80) 0,
     crt_pos = 0, uart = True, uart_out = [], in_buf = replicate INPUT_BUF 0,
     in_r = 0xFFFFFFFF, in_w = 0xFFFFFFFF, in_e = 0xFFFFFFFF\<rparr>"

lemma boot_console_ok:
  "input_ok boot_console" "screen_ok boot_console" "\<not> con_panicked boot_console" "held boot_console = {}"
  "cons_locking boot_console" "uart boot_console" "uart_out boot_console = []"
  "pending boot_console = []" "typed boot_console = []"
  by (simp_all add: boot_console_def input_ok_def screen_ok_def pending_def typed_def ring_empty_iff del: replicate_Suc)

theorem cons_char_edits_witness:
  "\<exists>t. cons_char 0x41 boot_console = Done () t \<and> typed t = [0x41] \<and> pending t = []"
  using cons_char_edits [of boot_console "0x41"]
  by (auto simp: boot_console_ok line_step_def cooked_def CR_def NL_def INPUT_BUF_def)

section \<open>What formatted output should print\<close>

text \<open>
  The specification of \<^verbatim>\<open>cprintf\<close> reads a format as a sequence of pieces, each with its argument: how a piece is written
  in the format, what it takes from the argument list, and the text that stands for it in the output.
\<close>

text \<open>The usual numeral, without leading zeros, of a number in base 10 or 16.\<close>

fun numeral_text :: "nat \<Rightarrow> nat \<Rightarrow> bytes" where
  "numeral_text b n =
     (if n < b \<or> b < 2 then [] else numeral_text b (n div b)) @ [ascii ''0123456789abcdef'' ! (n mod b)]"

declare numeral_text.simps [simp del]

datatype piece =
    Literal u8
  | Decimal u32
  | Hexadecimal u32
  | Pointer u32
  | CStr "bytes option"
  | Percent
  | Unknown u8

fun piece_ok :: "piece \<Rightarrow> bool" where
  "piece_ok (Literal c) = (c \<notin> set (0 # ascii ''%''))"
| "piece_ok (Unknown c) = (c \<notin> set (0 # ascii ''%dxps''))"
| "piece_ok p = True"

fun piece_format :: "piece \<Rightarrow> bytes" where
  "piece_format (Literal c) = [c]"
| "piece_format (Decimal x) = ascii ''%d''"
| "piece_format (Hexadecimal x) = ascii ''%x''"
| "piece_format (Pointer x) = ascii ''%p''"
| "piece_format (CStr t) = ascii ''%s''"
| "piece_format Percent = ascii ''%%''"
| "piece_format (Unknown c) = ascii ''%'' @ [c]"

fun piece_args :: "piece \<Rightarrow> cparg list" where
  "piece_args (Decimal x) = [ArgInt x]"
| "piece_args (Hexadecimal x) = [ArgInt x]"
| "piece_args (Pointer x) = [ArgInt x]"
| "piece_args (CStr t) = [ArgStr t]"
| "piece_args p = []"

fun piece_text :: "piece \<Rightarrow> bytes" where
  "piece_text (Literal c) = [c]"
| "piece_text (Decimal x) = (if sint x < 0 then ascii ''-'' else []) @ numeral_text 10 (nat \<bar>sint x\<bar>)"
| "piece_text (Hexadecimal x) = numeral_text 16 (unat x)"
| "piece_text (Pointer x) = numeral_text 16 (unat x)"
| "piece_text (CStr (Some t)) = t"
| "piece_text (CStr None) = ascii ''(null)''"
| "piece_text Percent = ascii ''%''"
| "piece_text (Unknown c) = ascii ''%'' @ [c]"

text \<open>Where a format ends: at its end, at a null byte, or at a percent sign followed by one of them.\<close>

definition format_end :: "bytes \<Rightarrow> bool" where
  "format_end f \<longleftrightarrow> f = [] \<or> hd f = 0 \<or> hd f = hd (ascii ''%'') \<and> (tl f = [] \<or> hd (tl f) = 0)"

lemma digit_char_ascii: "d < 16 \<Longrightarrow> digit_char d = ascii ''0123456789abcdef'' ! d"
  by (auto simp: less_Suc_eq numeral_eq_Suc digit_char_def ascii_def)

lemma digits_rev_numeral:
  assumes "1 < b" and "b \<le> 16"
  shows "rev (map digit_char (digits_rev b n)) = numeral_text b n"
  using assms
proof (induction b n rule: digits_rev.induct)
  case (1 b n)
  have d: "n div b = 0 \<longleftrightarrow> n < b" using 1(2) by (simp add: div_eq_0_iff)
  have "n mod b < 16" using 1(2,3) by (meson le_trans less_le_trans mod_less_divisor not_less not_one_less_zero zero_less_iff_neq_zero)
  with 1 d show ?case by (subst digits_rev.simps, subst numeral_text.simps) (auto simp: digit_char_ascii)
qed

lemma abs_sint_u32: "nat \<bar>sint (x :: u32)\<bar> = unat (if sint x < 0 then - x else x)"
proof (cases "unat x < 2 ^ 31")
  case True
  then have s: "sint x = int (unat x)" using sint_u32 [of x] by (simp only: if_True)
  then have "\<not> sint x < 0" by simp
  with s show ?thesis by (simp only: if_False abs_of_nat nat_int)
next
  case False
  then have s: "sint x = int (unat x) - 2 ^ 32" using sint_u32 [of x] by (simp only: if_False)
  have l: "int (unat x) < 2 ^ 32" using unat_less_u32 [of x] by (metis of_nat_less_iff of_nat_numeral of_nat_power)
  have nz: "0 < int (unat x)" using False by (cases "unat x") simp_all
  have "int (unat (- x)) = (- int (unat x)) mod 2 ^ 32" by (simp add: uint_word_ariths(4) take_bit_eq_mod)
  also have "\<dots> = 2 ^ 32 - int (unat x)"
    using l nz by (subst zmod_zminus1_eq_if) (simp only: mod_pos_pos_trivial order_less_imp_le if_False nz [THEN less_imp_neq, symmetric])
  finally have "int (unat (- x)) = - sint x" using s by linarith
  moreover have "sint x < 0" using s l by linarith
  ultimately show ?thesis by (simp only: if_True abs_of_neg)
qed

lemma printint_bytes_text:
  "printint_bytes x 10 True = piece_text (Decimal x)" "printint_bytes x 16 False = piece_text (Hexadecimal x)"
proof -
  show "printint_bytes x 10 True = piece_text (Decimal x)"
    by (simp add: printint_bytes_def digits_rev_numeral abs_sint_u32 ascii_def Let_def)
  show "printint_bytes x 16 False = piece_text (Hexadecimal x)"
    by (simp add: printint_bytes_def digits_rev_numeral)
qed

lemma cfmt_piece:
  "piece_ok p \<Longrightarrow> cfmt (piece_format p @ f) (piece_args p @ args) = map_option ((@) (piece_text p)) (cfmt f args)"
proof (cases p)
  case (CStr t)
  then show ?thesis by (cases t) (simp_all add: ascii_def)
qed (auto simp: ascii_def printint_bytes_text option.map_comp comp_def simp del: piece_text.simps(2,3),
  auto simp: ascii_def map_option_case split: option.splits)

lemma cfmt_pieces:
  assumes "list_all piece_ok ps" and "format_end f"
  shows "cfmt (concat (map piece_format ps) @ f) (concat (map piece_args ps) @ args) = Some (concat (map piece_text ps))"
  using assms(1)
proof (induction ps)
  case Nil
  show ?case using assms(2) by (cases f) (auto simp: format_end_def ascii_def split: list.splits)
next
  case (Cons p ps)
  then show ?case by (simp add: cfmt_piece)
qed

text \<open>
  C38: Formatted output. For every format, whatever its pieces and where it ends, with the arguments it asks
  for, \<^verbatim>\<open>cprintf\<close> returns and sends to the serial port exactly the text of the pieces: the signed decimal numeral for
  \<^verbatim>\<open>%d\<close>, the smallest number included, the hexadecimal one for \<^verbatim>\<open>%x\<close> and \<^verbatim>\<open>%p\<close>, the string or \<^verbatim>\<open>(null)\<close> for \<^verbatim>\<open>%s\<close>, a percent sign for
  \<^verbatim>\<open>%%\<close>, and an unknown sequence as it stands. It never writes outside the 80 by 25 display whatever it
  prints and wherever the cursor was, keeps the cursor above the last row, gives its lock back and
  leaves the input buffer alone.
\<close>

theorem cprintf_prints:
  assumes "screen_ok s" and "\<not> con_panicked s" and "LCons \<notin> held s" and "list_all piece_ok ps" and "format_end f"
  shows "\<exists>t. cprintf (Some (concat (map piece_format ps) @ f)) (concat (map piece_args ps) @ args) s = Done () t \<and>
    uart_out t = uart_out s @ (if uart s then concat (map piece_text ps) else []) \<and>
    screen_ok t \<and> held t = held s \<and> (pending t, typed t) = (pending s, typed s)"
proof -
  define u where "u = (if cons_locking s then s\<lparr>held := insert LCons (held s)\<rparr> else s)"
  have "screen_ok u" "\<not> con_panicked u" using assms by (simp_all add: u_def screen_ok_def)
  then obtain v where v: "foreach (concat (map piece_text ps)) (\<lambda>c. consputc (ucast c)) u = Done () v" "screen_ok v" "out_frame u v"
    "uart_out v = uart_out u @ (if uart u then concat (map piece_text ps) else [])"
    using puts_ok by blast
  note V = out_frame_fields [OF v(3)]
  define t where "t = (if cons_locking s then v\<lparr>held := held v - {LCons}\<rparr> else v)"
  have "cprintf (Some (concat (map piece_format ps) @ f)) (concat (map piece_args ps) @ args) s = Done () t"
    using assms(3) cfmt_pieces [OF assms(4,5)] v(1) V(1)
    by (cases "cons_locking s") (simp_all add: cprintf_def kop_simps u_def t_def)
  moreover have "held t = held s" using V(1) assms(3) by (simp add: t_def u_def)
  moreover have "uart_out t = uart_out s @ (if uart s then concat (map piece_text ps) else [])" using v(4) by (simp add: t_def u_def)
  moreover have "screen_ok t" using v(2) by (simp add: t_def screen_ok_def)
  moreover have "pending t = pending s" "typed t = typed s"
    using V by (simp_all add: pending_def typed_def t_def u_def)
  ultimately show ?thesis by blast
qed

theorem cprintf_prints_witness:
  "\<exists>t. cprintf (Some (ascii ''x%x %d%%%s%s%q%'')) [ArgInt 0x1F, ArgInt 0x80000000, ArgStr (Some (ascii ''ab'')), ArgStr None] boot_console = Done () t \<and>
     uart_out t = ascii ''x1f -2147483648%ab(null)%q''"
proof -
  let ?ps = "[Literal 0x78, Hexadecimal 0x1F, Literal 0x20, Decimal 0x80000000, Percent, CStr (Some (ascii ''ab'')), CStr None, Unknown 0x71]"
  have "list_all piece_ok ?ps" "format_end (ascii ''%'')" by (simp_all add: ascii_def format_end_def)
  moreover have "concat (map piece_format ?ps) @ ascii ''%'' = ascii ''x%x %d%%%s%s%q%''" by (simp add: ascii_def)
  moreover have "concat (map piece_text ?ps) = ascii ''x1f -2147483648%ab(null)%q''"
    by (simp add: ascii_def numeral_text.simps)
  ultimately show ?thesis
    using cprintf_prints [OF boot_console_ok(2,3), of ?ps "ascii ''%''" "[]"] by (auto simp: boot_console_ok)
qed

end
