(* ===== verification/Kbd.thy ===== *)
theory Kbd
  imports Console
begin

text \<open>
  \<^verbatim>\<open>kbd.c\<close> and \<^verbatim>\<open>kbd.h\<close>: from scan codes to characters, and the keyboard and serial interrupt
  handlers, which feed the characters to the line discipline of theory \<open>Console\<close>. The keyboard
  controller is the sequence of scan codes it delivers.
\<close>

section \<open>Definitions\<close>

definition SHIFT :: u32 where "SHIFT = 1"
definition CTL :: u32 where "CTL = 2"
definition ALT :: u32 where "ALT = 4"
definition CAPSLOCK :: u32 where "CAPSLOCK = 8"
definition NUMLOCK :: u32 where "NUMLOCK = 16"
definition SCROLLLOCK :: u32 where "SCROLLLOCK = 32"
definition E0ESC :: u32 where "E0ESC = 64"

text \<open>An array of 256 bytes: leading entries, designated entries, and zero elsewhere.\<close>

definition table256 :: "bytes \<Rightarrow> (nat \<times> u8) list \<Rightarrow> nat \<Rightarrow> u8" where
  "table256 front special i =
     (case map_of special i of
        Some v \<Rightarrow> v
      | None \<Rightarrow> if i < length front then front ! i else 0)"

definition shiftcode :: "nat \<Rightarrow> u32" where
  "shiftcode i = (if i = 0x1D then CTL else if i = 0x2A then SHIFT else if i = 0x36 then SHIFT
     else if i = 0x38 then ALT else if i = 0x9D then CTL else if i = 0xB8 then ALT else 0)"

definition togglecode :: "nat \<Rightarrow> u32" where
  "togglecode i = (if i = 0x3A then CAPSLOCK else if i = 0x45 then NUMLOCK
     else if i = 0x46 then SCROLLLOCK else 0)"

text \<open>The keypad and cursor keys, the same in the first two maps.\<close>

definition cursor_keys :: "(nat \<times> u8) list" where
  "cursor_keys =
     [(0xC8, 0xE2), (0xD0, 0xE3), (0xC9, 0xE6), (0xD1, 0xE7), (0xCB, 0xE4), (0xCD, 0xE5),
      (0x97, 0xE0), (0xCF, 0xE1), (0xD2, 0xE8), (0xD3, 0xE9)]"

definition normalmap :: "nat \<Rightarrow> u8" where
  "normalmap = table256
     ([0, 0x1B] @ ascii ''1234567890-='' @ [8, 9] @ ascii ''qwertyuiop[]'' @ [0x0A, 0] @
      ascii ''asdfghjkl;'' @ [0x27, 0x60, 0, 0x5C] @ ascii ''zxcvbnm,./'' @ [0] @ ascii ''*'' @ [0, 0x20] @
      replicate 13 0 @ ascii ''789-456+1230.'' @ replicate 4 0)
     ([(0x9C, 0x0A), (0xB5, 0x2F)] @ cursor_keys)"

definition shiftmap :: "nat \<Rightarrow> u8" where
  "shiftmap = table256
     ([0, 0x1B] @ ascii ''!@#$%^&*()_+'' @ [8, 9] @ ascii ''QWERTYUIOP{}'' @ [0x0A, 0] @
      ascii ''ASDFGHJKL:'' @ [0x22, 0x7E, 0, 0x7C] @ ascii ''ZXCVBNM<>?'' @ [0] @ ascii ''*'' @ [0, 0x20] @
      replicate 13 0 @ ascii ''789-456+1230.'' @ replicate 4 0)
     ([(0x9C, 0x0A), (0xB5, 0x2F)] @ cursor_keys)"

definition ctl_of :: "u8 \<Rightarrow> u8" where
  "ctl_of x = x - 0x40"

definition ctlmap :: "nat \<Rightarrow> u8" where
  "ctlmap = table256
     (replicate 16 0 @ map ctl_of (ascii ''QWERTYUIOP'') @ [0, 0, 0x0D, 0] @
      map ctl_of (ascii ''ASDFGHJKL'') @ [0, 0, 0, 0, ctl_of 0x5C] @ map ctl_of (ascii ''ZXCVBNM'') @
      [0, 0, ctl_of 0x2F, 0, 0])
     ([(0x9C, 0x0D), (0xB5, ctl_of 0x2F)] @ cursor_keys)"

definition charcode :: "nat \<Rightarrow> nat \<Rightarrow> u8" where
  "charcode m = (if m = 0 then normalmap else if m = 1 then shiftmap else ctlmap)"

text \<open>
  \<^verbatim>\<open>kbdgetc\<close> with the static variable \<^verbatim>\<open>shift\<close>: \<open>None\<close> as input is an empty controller, and \<open>None\<close> as
  result is the value -1.
\<close>

definition kbd_key :: "u32 \<Rightarrow> nat \<Rightarrow> u32 \<times> u32" where
  "kbd_key shift data =
     (let shift = shift OR shiftcode data;
          shift = shift XOR togglecode data;
          c = ucast (charcode (unat (shift AND (CTL OR SHIFT))) data) :: u32;
          c = (if shift AND CAPSLOCK \<noteq> 0
               then (if 0x61 \<le> c \<and> c \<le> 0x7A then c + (0x41 - 0x61)
                     else if 0x41 \<le> c \<and> c \<le> 0x5A then c + (0x61 - 0x41) else c)
               else c)
      in (c, shift))"

definition kbdgetc :: "u32 \<Rightarrow> u8 option \<Rightarrow> u32 option \<times> u32" where
  "kbdgetc shift port =
     (case port of
        None \<Rightarrow> (None, shift)
      | Some data \<Rightarrow>
          if data = 0xE0 then (Some 0, shift OR E0ESC)
          else if data AND 0x80 \<noteq> 0 then
            let data = (if shift AND E0ESC \<noteq> 0 then data else data AND 0x7F)
            in (Some 0, shift AND NOT (shiftcode (unat data) OR E0ESC))
          else
            let (data, shift) =
                  (if shift AND E0ESC \<noteq> 0 then (data OR 0x80, shift AND NOT E0ESC) else (data, shift));
                (c, shift) = kbd_key shift (unat data)
            in (Some c, shift))"

text \<open>The characters of the scan codes in the controller, until it is empty.\<close>

fun kbd_chars :: "u32 \<Rightarrow> u8 list \<Rightarrow> u32 list \<times> u32" where
  "kbd_chars shift [] = ([], snd (kbdgetc shift None))"
| "kbd_chars shift (d # ds) =
     (case kbdgetc shift (Some d) of
        (None, shift) \<Rightarrow> ([], shift)
      | (Some c, shift) \<Rightarrow> (let (cs, shift) = kbd_chars shift ds in (c # cs, shift)))"

definition kbdintr :: "u32 \<Rightarrow> u8 list \<Rightarrow> ('z consst_scheme, u32) kop" where
  "kbdintr shift ds = (let (cs, shift) = kbd_chars shift ds in bd (consoleintr cs) (\<lambda>_. ret shift))"

definition uartgetc :: "bool \<Rightarrow> u8 option \<Rightarrow> u32 option" where
  "uartgetc present port = (if present then map_option ucast port else None)"

fun uart_chars :: "bool \<Rightarrow> u8 list \<Rightarrow> u32 list" where
  "uart_chars present [] = []"
| "uart_chars present (d # ds) =
     (case uartgetc present (Some d) of None \<Rightarrow> [] | Some c \<Rightarrow> c # uart_chars present ds)"

definition uartintr :: "u8 list \<Rightarrow> ('z consst_scheme, unit) kop" where
  "uartintr ds = bd (gets uart) (\<lambda>present. consoleintr (uart_chars present ds))"

section \<open>Properties\<close>

text \<open>The scan codes of the letters, in the order of the keyboard rows.\<close>

definition letter_keys :: "(nat \<times> u8) list" where
  "letter_keys = zip ([0x10..<0x1A] @ [0x1E..<0x27] @ [0x2C..<0x33]) (ascii ''qwertyuiopasdfghjklzxcvbnm'')"

lemma table256_front: "map_of sp i = None \<Longrightarrow> i < length fr \<Longrightarrow> table256 fr sp i = fr ! i"
  by (simp add: table256_def)

lemma letter_maps:
  "list_all (\<lambda>(d, l). normalmap d = l \<and> shiftmap d = l - 0x20 \<and> ctlmap d = l - 0x60 \<and>
     0x61 \<le> l \<and> l \<le> 0x7A \<and> shiftcode d = 0 \<and> togglecode d = 0 \<and> d < 0x80) letter_keys"
  by (simp add: letter_keys_def ascii_def normalmap_def shiftmap_def ctlmap_def ctl_of_def table256_def
    cursor_keys_def shiftcode_def togglecode_def upt_rec_numeral nth_append)

lemma letter_key_maps:
  assumes "(d, l) \<in> set letter_keys"
  shows "normalmap d = l" "shiftmap d = l - 0x20" "ctlmap d = l - 0x60" "0x61 \<le> l" "l \<le> 0x7A"
    "shiftcode d = 0" "togglecode d = 0" "d < 0x80"
  using assms letter_maps by (auto simp: list_all_iff)

lemma two_bits:
  "shift AND 3 \<in> {0, 1, 2, 3 :: u32}" "(shift AND 1 \<noteq> 0) = odd (unat (shift AND 3 :: u32))"
  "(shift AND 2 \<noteq> 0) = (2 \<le> unat (shift AND 3 :: u32))"
proof -
  have m: "shift AND 3 = take_bit 2 shift" by (simp add: take_bit_eq_mask mask_numeral)
  have "unat (shift AND 3) < 4" unfolding m by (simp add: unat_take_bit)
  then consider "unat (shift AND 3) = 0" | "unat (shift AND 3) = 1" | "unat (shift AND 3) = 2" | "unat (shift AND 3) = 3"
    by linarith
  then show c: "shift AND 3 \<in> {0, 1, 2, 3 :: u32}" by cases (simp_all add: word_unat_eq_iff)
  have "shift AND 1 = (shift AND 3) AND 1" "shift AND 2 = (shift AND 3) AND 2" by (simp_all add: and.assoc)
  with c show "(shift AND 1 \<noteq> 0) = odd (unat (shift AND 3 :: u32))"
    "(shift AND 2 \<noteq> 0) = (2 \<le> unat (shift AND 3 :: u32))"
    by (auto)
qed

lemma letter_cases:
  assumes "0x61 \<le> l" and "l \<le> (0x7A :: u8)"
  shows "unat (ucast l :: u32) = unat l" "unat (ucast (l - 0x20) :: u32) = unat l - 0x20"
    "unat (ucast (l - 0x60) :: u32) = unat l - 0x60" "0x61 \<le> unat l" "unat l \<le> 0x7A"
proof -
  show b: "0x61 \<le> unat l" "unat l \<le> 0x7A" using assms by (simp_all add: word_le_nat_alt)
  have "unat (ucast (x :: u8) :: u32) = unat x" for x
    by (simp add: unsigned_ucast_eq take_bit_nat_eq_self order_less_trans [OF unsigned_less])
  with b show "unat (ucast l :: u32) = unat l" "unat (ucast (l - 0x20) :: u32) = unat l - 0x20"
    "unat (ucast (l - 0x60) :: u32) = unat l - 0x60"
    by (simp_all add: unat_sub word_le_nat_alt)
qed

text \<open>
  Letter keys. Whatever other modifiers are down, the scan code of a letter gives its control
  character with Control, the upper-case letter with exactly one of Shift and Caps Lock, and the
  lower-case letter otherwise, and leaves the modifiers as they are.
\<close>

theorem kbd_letter:
  assumes "(d, l) \<in> set letter_keys" and "shift AND E0ESC = 0"
  shows "kbdgetc shift (Some (of_nat d)) =
    (Some (if shift AND CTL \<noteq> 0 then ucast (l - 0x60)
           else if (shift AND SHIFT \<noteq> 0) \<noteq> (shift AND CAPSLOCK \<noteq> 0) then ucast (l - 0x20)
           else ucast l), shift)"
proof -
  note L = letter_key_maps [OF assms(1)]
  note C = letter_cases [OF L(4,5)]
  have u: "unat (of_nat d :: u8) = d" using L(8) by (simp add: unat_of_nat)
  have "(of_nat d :: u8) AND 0x80 = 0"
  proof -
    have "(of_nat d :: u8) = take_bit 7 (of_nat d)"
      using u L(8) by (simp only: word_unat_eq_iff unsigned_take_bit_eq) (simp add: take_bit_nat_eq_self)
    then have "(of_nat d :: u8) AND 0x80 = take_bit 7 (of_nat d) AND 0x80" by simp
    also have "\<dots> = 0" by (simp add: take_bit_eq_mask mask_numeral and.assoc)
    finally show ?thesis .
  qed
  moreover have "(of_nat d :: u8) \<noteq> 0xE0" using u L(8) by auto
  ultimately have "kbdgetc shift (Some (of_nat d)) = (case kbd_key shift d of (c, shift) \<Rightarrow> (Some c, shift))"
    using assms(2) u by (simp add: kbdgetc_def)
  moreover have "kbd_key shift d = ((if shift AND CTL \<noteq> 0 then ucast (l - 0x60)
           else if (shift AND SHIFT \<noteq> 0) \<noteq> (shift AND CAPSLOCK \<noteq> 0) then ucast (l - 0x20)
           else ucast l), shift)"
  proof -
    define m where "m = unat (shift AND 3)"
    have m: "m \<in> {0, 1, 2, 3}" "(shift AND 1 \<noteq> 0) = odd m" "(shift AND 2 \<noteq> 0) = (2 \<le> m)"
      using two_bits [of shift] by (auto simp: m_def)
    have cc: "charcode m d = (if m = 0 then l else if m = 1 then l - 0x20 else l - 0x60)"
      using m(1) L by (auto simp: charcode_def)
    have up: "ucast l - 0x20 = (ucast (l - 0x20) :: u32)" "ucast (l - 0x20) + 0x20 = (ucast l :: u32)"
    proof -
      have "unat (ucast l - 0x20 :: u32) = unat (ucast l :: u32) - unat (0x20 :: u32)"
        by (rule unat_sub) (use C in \<open>simp add: word_le_nat_alt\<close>)
      then show e: "ucast l - 0x20 = (ucast (l - 0x20) :: u32)" using C by (simp add: word_unat_eq_iff)
      show "ucast (l - 0x20) + 0x20 = (ucast l :: u32)" unfolding e [symmetric] by simp
    qed
    have r: "0x61 \<le> (ucast l :: u32)" "ucast l \<le> (0x7A :: u32)" "\<not> 0x61 \<le> (ucast (l - 0x20) :: u32)"
      "0x41 \<le> (ucast (l - 0x20) :: u32)" "ucast (l - 0x20) \<le> (0x5A :: u32)" "\<not> 0x41 \<le> (ucast (l - 0x60) :: u32)"
      "\<not> 0x61 \<le> (ucast (l - 0x60) :: u32)"
      using C by (simp_all add: word_le_nat_alt)
    have "kbd_key shift d = (let c = ucast (charcode m d) :: u32 in
      (if shift AND CAPSLOCK \<noteq> 0
               then (if 0x61 \<le> c \<and> c \<le> 0x7A then c + (0x41 - 0x61)
                     else if 0x41 \<le> c \<and> c \<le> 0x5A then c + (0x61 - 0x41) else c)
               else c, shift))"
      unfolding kbd_key_def L(6,7) Let_def by (simp add: m_def CTL_def SHIFT_def)
    with m(1) show ?thesis unfolding cc CTL_def SHIFT_def m(2,3) by (auto simp: r up Let_def)
  qed
  ultimately show ?thesis by simp
qed

theorem kbd_letter_witness: "kbdgetc 1 (Some 0x1E) = (Some 0x41, 1)"
  using kbd_letter [of "0x1E" "0x61" 1]
  by (simp add: letter_keys_def ascii_def upt_rec_numeral E0ESC_def CTL_def SHIFT_def CAPSLOCK_def)

end
