(* ===== verification/Fs.thy ===== *)
theory Fs
  imports Kbd
begin

text \<open>
  \<^verbatim>\<open>fs.c\<close>, \<^verbatim>\<open>fs.h\<close>, \<^verbatim>\<open>file.h\<close> and \<^verbatim>\<open>stat.h\<close>: the block allocator, inodes, file contents, directories and path
  names, with the device switch and the console's device functions. An inode pointer is an index into
  the inode cache. Data that moves between a file and memory is a list of bytes; the end of a list
  that stands for a C string is its terminating zero.
\<close>

section \<open>Layout\<close>

definition ROOTINO :: u32 where "ROOTINO = 1"
definition NDIRECT :: nat where "NDIRECT = 12"
definition NINDIRECT :: nat where "NINDIRECT = BSIZE div 4"
definition MAXFILE :: nat where "MAXFILE = NDIRECT + NINDIRECT"
definition IPB :: nat where "IPB = BSIZE div 64"
definition BPB :: nat where "BPB = BSIZE * 8"
definition DIRSIZ :: nat where "DIRSIZ = 14"

definition T_DIR :: u16 where "T_DIR = 1"
definition T_FILE :: u16 where "T_FILE = 2"
definition T_DEV :: u16 where "T_DEV = 3"

definition IBLOCK :: "u32 \<Rightarrow> superblock \<Rightarrow> u32" where
  "IBLOCK i sb = of_nat (unat i div IPB) + sb_inodestart sb"

definition BBLOCK :: "nat \<Rightarrow> superblock \<Rightarrow> u32" where
  "BBLOCK b sb = of_nat (b div BPB) + sb_bmapstart sb"

record dinode =
  d_type :: u16
  d_major :: u16
  d_minor :: u16
  d_nlink :: u16
  d_size :: u32
  d_addrs :: "u32 list"

record inode =
  i_dev :: u32
  i_inum :: u32
  i_ref :: int
  i_busy :: bool
  i_valid :: bool
  i_type :: u16
  i_major :: u16
  i_minor :: u16
  i_nlink :: u16
  i_size :: u32
  i_addrs :: "u32 list"

record stat =
  st_type :: u16
  st_dev :: u32
  st_ino :: u32
  st_nlink :: u16
  st_size :: u32

record dirent =
  de_inum :: u16
  de_name :: bytes

text \<open>The device functions a slot of \<^verbatim>\<open>devsw\<close> can point to.\<close>

datatype devfn = Dev_consoleread | Dev_consolewrite

record fsst = consst +
  icache :: "inode list"
  sb :: superblock
  devsw_read :: "devfn option list"
  devsw_write :: "devfn option list"

text \<open>A \<^verbatim>\<open>struct dinode\<close> at byte offset \<open>k\<close> of a block.\<close>

definition get_dinode :: "bytes \<Rightarrow> nat \<Rightarrow> dinode" where
  "get_dinode d k =
     \<lparr>d_type = get16 d k, d_major = get16 d (k + 2), d_minor = get16 d (k + 4), d_nlink = get16 d (k + 6),
      d_size = get32 d (k + 8), d_addrs = map (\<lambda>i. get32 d (k + 12 + 4 * i)) [0..<Suc NDIRECT]\<rparr>"

definition put_dinode :: "bytes \<Rightarrow> nat \<Rightarrow> dinode \<Rightarrow> bytes" where
  "put_dinode d k x =
     fold (\<lambda>i d. put32 d (k + 12 + 4 * i) (d_addrs x ! i)) [0..<Suc NDIRECT]
       (put32 (put16 (put16 (put16 (put16 d k (d_type x)) (k + 2) (d_major x)) (k + 4) (d_minor x))
         (k + 6) (d_nlink x)) (k + 8) (d_size x))"

definition dinode_off :: "u32 \<Rightarrow> nat" where
  "dinode_off inum = 64 * (unat inum mod IPB)"

definition get_dirent :: "bytes \<Rightarrow> dirent" where
  "get_dirent d = \<lparr>de_inum = get16 d 0, de_name = slice d 2 DIRSIZ\<rparr>"

definition put_dirent :: "dirent \<Rightarrow> bytes" where
  "put_dirent de = le16 (de_inum de) @ de_name de"

section \<open>Block allocation\<close>

definition bzero :: "u32 \<Rightarrow> u32 \<Rightarrow> ('z logst_scheme, unit) kop" where
  "bzero dev bno =
     bd (bread dev bno) (\<lambda>bp.
     bd (bput bp (replicate BSIZE 0)) (\<lambda>_.
     bd (log_write bp) (\<lambda>_.
     brelse bp)))"

definition bm_used :: "bytes \<Rightarrow> nat \<Rightarrow> bool" where
  "bm_used d bi = bit (d ! (bi div 8)) (bi mod 8)"

definition bm_set :: "bytes \<Rightarrow> nat \<Rightarrow> bytes" where
  "bm_set d bi = d[bi div 8 := d ! (bi div 8) OR push_bit (bi mod 8) 1]"

definition bm_clear :: "bytes \<Rightarrow> nat \<Rightarrow> bytes" where
  "bm_clear d bi = d[bi div 8 := d ! (bi div 8) AND NOT (push_bit (bi mod 8) 1)]"

text \<open>\<open>b\<close> is the first block of the part of the map that is searched next; sizes are below \<open>2 ^ 31\<close>.\<close>

function balloc_loop :: "u32 \<Rightarrow> superblock \<Rightarrow> nat \<Rightarrow> ('z logst_scheme, u32) kop" where
  "balloc_loop dev x b =
     (if b < unat (sb_size x) then
        bd (bread dev (BBLOCK b x)) (\<lambda>bp.
        bd (bpeek bp) (\<lambda>d.
        case find (\<lambda>bi. \<not> bm_used d bi) [0..<min BPB (unat (sb_size x) - b)] of
          Some bi \<Rightarrow>
            bd (bput bp (bm_set d bi)) (\<lambda>_.
            bd (log_write bp) (\<lambda>_.
            bd (brelse bp) (\<lambda>_.
            bd (bzero dev (of_nat (b + bi))) (\<lambda>_.
            ret (of_nat (b + bi))))))
        | None \<Rightarrow> bd (brelse bp) (\<lambda>_. balloc_loop dev x (b + BPB))))
      else panic ''balloc: out of blocks'')"
  by pat_completeness auto
termination
  by (relation "measure (\<lambda>(dev, x, b). unat (sb_size x) - b)") (auto simp: BPB_def BSIZE_def)

definition balloc :: "u32 \<Rightarrow> ('z fsst_scheme, u32) kop" where
  "balloc dev = bd (gets sb) (\<lambda>x. balloc_loop dev x 0)"

definition bfree :: "u32 \<Rightarrow> u32 \<Rightarrow> ('z fsst_scheme, unit) kop" where
  "bfree dev b =
     bd (readsb dev) (\<lambda>x.
     bd (modify (\<lambda>s. s\<lparr>sb := x\<rparr>)) (\<lambda>_.
     bd (bread dev (BBLOCK (unat b) x)) (\<lambda>bp.
     bd (bpeek bp) (\<lambda>d.
     if \<not> bm_used d (unat b mod BPB) then panic ''freeing free block''
     else
       bd (bput bp (bm_clear d (unat b mod BPB))) (\<lambda>_.
       bd (log_write bp) (\<lambda>_.
       brelse bp))))))"

section \<open>Inodes\<close>

text \<open>Access through an inode pointer.\<close>

definition igets :: "nat \<Rightarrow> (inode \<Rightarrow> 'a) \<Rightarrow> ('z fsst_scheme, 'a) kop" where
  "igets ip f s = (if ip < length (icache s) then Done (f (icache s ! ip)) s else Fault)"

definition imod :: "nat \<Rightarrow> (inode \<Rightarrow> inode) \<Rightarrow> ('z fsst_scheme, unit) kop" where
  "imod ip f s =
     (if ip < length (icache s) then Done () (s\<lparr>icache := (icache s)[ip := f (icache s ! ip)]\<rparr>) else Fault)"

definition sb_message :: "superblock \<Rightarrow> ('z consst_scheme, unit) kop" where
  "sb_message x = cprintf (Some (ascii (''sb: size %d nblocks %d ninodes %d nlog %d '' @
       ''logstart %d inodestart %d bmap start %d'') @ [NL]))
     (map ArgInt [sb_size x, sb_nblocks x, sb_ninodes x, sb_nlog x, sb_logstart x, sb_inodestart x, sb_bmapstart x])"

definition iinit :: "u32 \<Rightarrow> ('z fsst_scheme, unit) kop" where
  "iinit dev = bd (readsb dev) (\<lambda>x. bd (modify (\<lambda>s. s\<lparr>sb := x\<rparr>)) (\<lambda>_. sb_message x))"

text \<open>The scan of \<^verbatim>\<open>iget\<close>: the cached inode if there is one, otherwise the first empty slot.\<close>

definition ic_match :: "u32 \<Rightarrow> u32 \<Rightarrow> inode \<Rightarrow> bool" where
  "ic_match dev inum x \<longleftrightarrow> 0 < i_ref x \<and> i_dev x = dev \<and> i_inum x = inum"

definition iget :: "u32 \<Rightarrow> u32 \<Rightarrow> ('z fsst_scheme, nat) kop" where
  "iget dev inum =
     bd (acquire LIcache) (\<lambda>_.
     bd (gets icache) (\<lambda>ic.
     case find (\<lambda>i. ic_match dev inum (ic ! i)) [0..<length ic] of
       Some ip \<Rightarrow>
         bd (imod ip (\<lambda>x. x\<lparr>i_ref := i_ref x + 1\<rparr>)) (\<lambda>_.
         bd (release LIcache) (\<lambda>_.
         ret ip))
     | None \<Rightarrow>
         (case find (\<lambda>i. i_ref (ic ! i) = 0) [0..<length ic] of
            None \<Rightarrow> panic ''iget: no inodes''
          | Some ip \<Rightarrow>
              bd (imod ip (\<lambda>x. x\<lparr>i_dev := dev, i_inum := inum, i_ref := 1, i_busy := False, i_valid := False\<rparr>)) (\<lambda>_.
              bd (release LIcache) (\<lambda>_.
              ret ip)))))"

text \<open>\<open>k\<close> is the number of inodes not yet looked at.\<close>

fun ialloc_loop :: "u32 \<Rightarrow> u16 \<Rightarrow> superblock \<Rightarrow> nat \<Rightarrow> nat \<Rightarrow> ('z fsst_scheme, nat) kop" where
  "ialloc_loop dev type x inum 0 = panic ''ialloc: no inodes''"
| "ialloc_loop dev type x inum (Suc k) =
     bd (bread dev (IBLOCK (of_nat inum) x)) (\<lambda>bp.
     bd (bpeek bp) (\<lambda>d.
     let off = dinode_off (of_nat inum) in
     if d_type (get_dinode d off) = 0 then
       bd (bput bp (put16 (blit d off (replicate 64 0)) off type)) (\<lambda>_.
       bd (log_write bp) (\<lambda>_.
       bd (brelse bp) (\<lambda>_.
       iget dev (of_nat inum))))
     else
       bd (brelse bp) (\<lambda>_.
       ialloc_loop dev type x (Suc inum) k)))"

definition ialloc :: "u32 \<Rightarrow> u16 \<Rightarrow> ('z fsst_scheme, nat) kop" where
  "ialloc dev type = bd (gets sb) (\<lambda>x. ialloc_loop dev type x 1 (unat (sb_ninodes x) - 1))"

definition dinode_of :: "inode \<Rightarrow> dinode" where
  "dinode_of x = \<lparr>d_type = i_type x, d_major = i_major x, d_minor = i_minor x, d_nlink = i_nlink x,
     d_size = i_size x, d_addrs = i_addrs x\<rparr>"

definition load_dinode :: "dinode \<Rightarrow> inode \<Rightarrow> inode" where
  "load_dinode d x = x\<lparr>i_type := d_type d, i_major := d_major d, i_minor := d_minor d, i_nlink := d_nlink d,
     i_size := d_size d, i_addrs := d_addrs d\<rparr>"

definition iupdate :: "nat \<Rightarrow> ('z fsst_scheme, unit) kop" where
  "iupdate ip =
     bd (igets ip id) (\<lambda>x.
     bd (gets sb) (\<lambda>y.
     bd (bread (i_dev x) (IBLOCK (i_inum x) y)) (\<lambda>bp.
     bd (bpeek bp) (\<lambda>d.
     bd (bput bp (put_dinode d (dinode_off (i_inum x)) (dinode_of x))) (\<lambda>_.
     bd (log_write bp) (\<lambda>_.
     brelse bp))))))"

definition idup :: "nat \<Rightarrow> ('z fsst_scheme, nat) kop" where
  "idup ip =
     bd (acquire LIcache) (\<lambda>_.
     bd (imod ip (\<lambda>x. x\<lparr>i_ref := i_ref x + 1\<rparr>)) (\<lambda>_.
     bd (release LIcache) (\<lambda>_.
     ret ip)))"

text \<open>\<^verbatim>\<open>ilock\<close> behind its first \<^verbatim>\<open>acquire\<close>; a null pointer is a case of its callers.\<close>

definition ilock_loop :: "nat \<Rightarrow> ('z fsst_scheme, unit) kop" where
  "ilock_loop ip =
     bd (igets ip i_busy) (\<lambda>busy.
     if busy then bd (sleep (ChanInode ip) LIcache) (\<lambda>_ _. Fault)
     else
       bd (imod ip (\<lambda>x. x\<lparr>i_busy := True\<rparr>)) (\<lambda>_.
       bd (release LIcache) (\<lambda>_.
       bd (igets ip id) (\<lambda>x.
       if i_valid x then ret ()
       else
         bd (gets sb) (\<lambda>y.
         bd (bread (i_dev x) (IBLOCK (i_inum x) y)) (\<lambda>bp.
         bd (bpeek bp) (\<lambda>d.
         bd (imod ip (\<lambda>x. load_dinode (get_dinode d (dinode_off (i_inum x))) x)) (\<lambda>_.
         bd (brelse bp) (\<lambda>_.
         bd (imod ip (\<lambda>x. x\<lparr>i_valid := True\<rparr>)) (\<lambda>_.
         bd (igets ip i_type) (\<lambda>ty.
         if ty = 0 then panic ''ilock: no type'' else ret ())))))))))))"

definition ilock :: "nat \<Rightarrow> ('z fsst_scheme, unit) kop" where
  "ilock ip =
     bd (igets ip i_ref) (\<lambda>r.
     if r < 1 then panic ''ilock''
     else bd (acquire LIcache) (\<lambda>_. ilock_loop ip))"

definition ilock_resume :: "nat \<Rightarrow> ('z fsst_scheme, unit) kop" where
  "ilock_resume ip = bd (sleep_resume LIcache) (\<lambda>_. ilock_loop ip)"

definition iunlock :: "nat \<Rightarrow> ('z fsst_scheme, unit) kop" where
  "iunlock ip =
     bd (igets ip id) (\<lambda>x.
     if \<not> i_busy x \<or> i_ref x < 1 then panic ''iunlock''
     else
       bd (acquire LIcache) (\<lambda>_.
       bd (imod ip (\<lambda>x. x\<lparr>i_busy := False\<rparr>)) (\<lambda>_.
       bd (wakeup (ChanInode ip)) (\<lambda>_.
       release LIcache))))"

section \<open>File contents\<close>

text \<open>
  \<^verbatim>\<open>bmap\<close>. The indirect block is kept across the allocation of a data block, which is how the code
  writes it: \<open>bpeek\<close> after the allocation reads the buffer the pointer \<^verbatim>\<open>a\<close> refers to.
\<close>

definition bmap :: "nat \<Rightarrow> nat \<Rightarrow> ('z fsst_scheme, u32) kop" where
  "bmap ip bn =
     bd (igets ip id) (\<lambda>x.
     if bn < NDIRECT then
       (if i_addrs x ! bn = 0 then
          bd (balloc (i_dev x)) (\<lambda>addr.
          bd (imod ip (\<lambda>x. x\<lparr>i_addrs := (i_addrs x)[bn := addr]\<rparr>)) (\<lambda>_.
          ret addr))
        else ret (i_addrs x ! bn))
     else if bn - NDIRECT < NINDIRECT then
       bd (if i_addrs x ! NDIRECT = 0 then
             bd (balloc (i_dev x)) (\<lambda>addr.
             bd (imod ip (\<lambda>x. x\<lparr>i_addrs := (i_addrs x)[NDIRECT := addr]\<rparr>)) (\<lambda>_.
             ret addr))
           else ret (i_addrs x ! NDIRECT)) (\<lambda>ind.
       bd (bread (i_dev x) ind) (\<lambda>bp.
       bd (bpeek bp) (\<lambda>d.
       bd (if get32 d (4 * (bn - NDIRECT)) = 0 then
             bd (balloc (i_dev x)) (\<lambda>addr.
             bd (bpeek bp) (\<lambda>d.
             bd (bput bp (put32 d (4 * (bn - NDIRECT)) addr)) (\<lambda>_.
             bd (log_write bp) (\<lambda>_.
             ret addr))))
           else ret (get32 d (4 * (bn - NDIRECT)))) (\<lambda>addr.
       bd (brelse bp) (\<lambda>_.
       ret addr)))))
     else panic ''bmap: out of range'')"

definition itrunc_direct :: "nat \<Rightarrow> nat \<Rightarrow> ('z fsst_scheme, unit) kop" where
  "itrunc_direct ip i =
     bd (igets ip id) (\<lambda>x.
     whenk (i_addrs x ! i \<noteq> 0)
       (bd (bfree (i_dev x) (i_addrs x ! i)) (\<lambda>_.
        imod ip (\<lambda>x. x\<lparr>i_addrs := (i_addrs x)[i := 0]\<rparr>))))"

definition itrunc_indirect :: "nat \<Rightarrow> ('z fsst_scheme, unit) kop" where
  "itrunc_indirect ip =
     bd (igets ip id) (\<lambda>x.
     whenk (i_addrs x ! NDIRECT \<noteq> 0)
       (bd (bread (i_dev x) (i_addrs x ! NDIRECT)) (\<lambda>bp.
        bd (foreach [0..<NINDIRECT] (\<lambda>j.
              bd (bpeek bp) (\<lambda>d.
              whenk (get32 d (4 * j) \<noteq> 0) (bfree (i_dev x) (get32 d (4 * j)))))) (\<lambda>_.
        bd (brelse bp) (\<lambda>_.
        bd (bfree (i_dev x) (i_addrs x ! NDIRECT)) (\<lambda>_.
        imod ip (\<lambda>x. x\<lparr>i_addrs := (i_addrs x)[NDIRECT := 0]\<rparr>)))))))"

definition itrunc :: "nat \<Rightarrow> ('z fsst_scheme, unit) kop" where
  "itrunc ip =
     bd (foreach [0..<NDIRECT] (itrunc_direct ip)) (\<lambda>_.
     bd (itrunc_indirect ip) (\<lambda>_.
     bd (imod ip (\<lambda>x. x\<lparr>i_size := 0\<rparr>)) (\<lambda>_.
     iupdate ip)))"

definition iput :: "nat \<Rightarrow> ('z fsst_scheme, unit) kop" where
  "iput ip =
     bd (acquire LIcache) (\<lambda>_.
     bd (igets ip id) (\<lambda>x.
     bd (if i_ref x = 1 \<and> i_valid x \<and> i_nlink x = 0 then
           (if i_busy x then panic ''iput busy''
            else
              bd (imod ip (\<lambda>x. x\<lparr>i_busy := True\<rparr>)) (\<lambda>_.
              bd (release LIcache) (\<lambda>_.
              bd (itrunc ip) (\<lambda>_.
              bd (imod ip (\<lambda>x. x\<lparr>i_type := 0\<rparr>)) (\<lambda>_.
              bd (iupdate ip) (\<lambda>_.
              bd (acquire LIcache) (\<lambda>_.
              bd (imod ip (\<lambda>x. x\<lparr>i_busy := False, i_valid := False\<rparr>)) (\<lambda>_.
              wakeup (ChanInode ip)))))))))
         else ret ()) (\<lambda>_.
     bd (imod ip (\<lambda>x. x\<lparr>i_ref := i_ref x - 1\<rparr>)) (\<lambda>_.
     release LIcache))))"

definition iunlockput :: "nat \<Rightarrow> ('z fsst_scheme, unit) kop" where
  "iunlockput ip = bd (iunlock ip) (\<lambda>_. iput ip)"

definition stati :: "nat \<Rightarrow> ('z fsst_scheme, stat) kop" where
  "stati ip = igets ip (\<lambda>x. \<lparr>st_type = i_type x, st_dev = i_dev x, st_ino = i_inum x,
     st_nlink = i_nlink x, st_size = i_size x\<rparr>)"

text \<open>
  The console as a device (\<^verbatim>\<open>console.c\<close>); a count that is negative as a signed integer
  reads nothing. \<open>consoleread_resume\<close> goes on after a sleep with \<open>n\<close> bytes to go.
\<close>

definition consoleread_end :: "nat \<Rightarrow> bytes option \<Rightarrow> ('z fsst_scheme, bytes option) kop" where
  "consoleread_end ip r =
     bd (release LInput) (\<lambda>_.
     bd (ilock ip) (\<lambda>_.
     ret r))"

definition consoleread :: "nat \<Rightarrow> u32 \<Rightarrow> ('z fsst_scheme, bytes option) kop" where
  "consoleread ip n =
     bd (iunlock ip) (\<lambda>_.
     bd (acquire LInput) (\<lambda>_.
     bd (cons_take (unat n) (nat (sint n)) []) (\<lambda>r.
     consoleread_end ip r)))"

definition consoleread_resume :: "nat \<Rightarrow> nat \<Rightarrow> nat \<Rightarrow> bytes \<Rightarrow> ('z fsst_scheme, bytes option) kop" where
  "consoleread_resume ip target n acc =
     bd (cons_take_resume target n acc) (\<lambda>r. consoleread_end ip r)"

definition consolewrite :: "nat \<Rightarrow> bytes \<Rightarrow> ('z fsst_scheme, int) kop" where
  "consolewrite ip src =
     bd (iunlock ip) (\<lambda>_.
     bd (acquire LCons) (\<lambda>_.
     bd (foreach src (\<lambda>c. consputc (ucast c))) (\<lambda>_.
     bd (release LCons) (\<lambda>_.
     bd (ilock ip) (\<lambda>_.
     ret (int (length src)))))))"

definition CONSOLE :: nat where "CONSOLE = 1"

definition consoleinit :: "('z fsst_scheme, unit) kop" where
  "consoleinit = modify (\<lambda>s. s\<lparr>devsw_write := (devsw_write s)[CONSOLE := Some Dev_consolewrite],
     devsw_read := (devsw_read s)[CONSOLE := Some Dev_consoleread], cons_locking := True\<rparr>)"

definition dev_slot :: "'a option list \<Rightarrow> u16 \<Rightarrow> 'a option" where
  "dev_slot sw major = (if sint major < 0 \<or> int NDEV \<le> sint major then None else sw ! unat major)"

text \<open>The copying loops; \<open>n\<close> is \<^verbatim>\<open>n - tot\<close>.\<close>

function readi_loop :: "nat \<Rightarrow> u32 \<Rightarrow> nat \<Rightarrow> bytes \<Rightarrow> ('z fsst_scheme, bytes) kop" where
  "readi_loop ip off n acc =
     (if n = 0 then ret acc
      else
        bd (bmap ip (unat off div BSIZE)) (\<lambda>blk.
        bd (igets ip i_dev) (\<lambda>dev.
        bd (bread dev blk) (\<lambda>bp.
        bd (bpeek bp) (\<lambda>d.
        let m = min n (BSIZE - unat off mod BSIZE) in
        bd (brelse bp) (\<lambda>_.
        readi_loop ip (off + of_nat m) (n - m) (acc @ slice d (unat off mod BSIZE) m)))))))"
  by pat_completeness auto
termination
  by (relation "measure (\<lambda>(ip, off, n, acc). n)") (auto simp: BSIZE_def)

definition readi :: "nat \<Rightarrow> u32 \<Rightarrow> u32 \<Rightarrow> ('z fsst_scheme, bytes option) kop" where
  "readi ip off n =
     bd (igets ip id) (\<lambda>x.
     if i_type x = T_DEV then
       bd (gets devsw_read) (\<lambda>sw.
       case dev_slot sw (i_major x) of
         Some Dev_consoleread \<Rightarrow> consoleread ip n
       | _ \<Rightarrow> ret None)
     else if off > i_size x \<or> off + n < off then ret None
     else
       let n = (if off + n > i_size x then i_size x - off else n)
       in bd (readi_loop ip off (unat n) []) (\<lambda>r. ret (Some r)))"

function writei_loop :: "nat \<Rightarrow> u32 \<Rightarrow> bytes \<Rightarrow> ('z fsst_scheme, u32) kop" where
  "writei_loop ip off src =
     (if src = [] then ret off
      else
        bd (bmap ip (unat off div BSIZE)) (\<lambda>blk.
        bd (igets ip i_dev) (\<lambda>dev.
        bd (bread dev blk) (\<lambda>bp.
        bd (bpeek bp) (\<lambda>d.
        let m = min (length src) (BSIZE - unat off mod BSIZE) in
        bd (bput bp (blit d (unat off mod BSIZE) (take m src))) (\<lambda>_.
        bd (log_write bp) (\<lambda>_.
        bd (brelse bp) (\<lambda>_.
        writei_loop ip (off + of_nat m) (drop m src)))))))))"
  by pat_completeness auto
termination
  by (relation "measure (\<lambda>(ip, off, src). length src)") (auto simp: BSIZE_def)

definition writei :: "nat \<Rightarrow> bytes \<Rightarrow> u32 \<Rightarrow> ('z fsst_scheme, int) kop" where
  "writei ip src off =
     bd (igets ip id) (\<lambda>x.
     let n = of_nat (length src) :: u32 in
     if i_type x = T_DEV then
       bd (gets devsw_write) (\<lambda>sw.
       case dev_slot sw (i_major x) of
         Some Dev_consolewrite \<Rightarrow> consolewrite ip src
       | _ \<Rightarrow> ret (- 1))
     else if off > i_size x \<or> off + n < off then ret (- 1)
     else if off + n > of_nat (MAXFILE * BSIZE) then ret (- 1)
     else
       bd (writei_loop ip off src) (\<lambda>off'.
       bd (igets ip i_size) (\<lambda>fsize.
       bd (whenk (n > 0 \<and> off' > fsize)
            (bd (imod ip (\<lambda>x. x\<lparr>i_size := off'\<rparr>)) (\<lambda>_. iupdate ip))) (\<lambda>_.
       ret (int (length src))))))"

declare balloc_loop.simps [simp del] readi_loop.simps [simp del] writei_loop.simps [simp del]

section \<open>Directories\<close>

text \<open>\<^verbatim>\<open>strncmp\<close> on two strings; past its end a list reads as zero.\<close>

definition hd0 :: "bytes \<Rightarrow> u8" where
  "hd0 s = (case s of [] \<Rightarrow> 0 | c # _ \<Rightarrow> c)"

fun strncmp_list :: "nat \<Rightarrow> bytes \<Rightarrow> bytes \<Rightarrow> int" where
  "strncmp_list 0 s t = 0"
| "strncmp_list (Suc n) s t =
     (if hd0 s \<noteq> 0 \<and> hd0 s = hd0 t then strncmp_list n (tl s) (tl t) else uint (hd0 s) - uint (hd0 t))"

definition namecmp :: "bytes \<Rightarrow> bytes \<Rightarrow> int" where
  "namecmp s t = strncmp_list DIRSIZ s t"

definition read_dirent :: "nat \<Rightarrow> nat \<Rightarrow> string \<Rightarrow> ('z fsst_scheme, dirent) kop" where
  "read_dirent dp off msg =
     bd (readi dp (of_nat off) 16) (\<lambda>r.
     case r of
       None \<Rightarrow> panic msg
     | Some d \<Rightarrow> if length d \<noteq> 16 then panic msg else ret (get_dirent d))"

function dirlookup_loop :: "nat \<Rightarrow> bytes \<Rightarrow> nat \<Rightarrow> nat \<Rightarrow> ('z fsst_scheme, (nat \<times> u32) option) kop" where
  "dirlookup_loop dp name fsize off =
     (if off < fsize then
        bd (read_dirent dp off ''dirlink read'') (\<lambda>de.
        if de_inum de \<noteq> 0 \<and> namecmp name (de_name de) = 0 then
          bd (igets dp i_dev) (\<lambda>dev.
          bd (iget dev (ucast (de_inum de))) (\<lambda>ip.
          ret (Some (ip, of_nat off))))
        else dirlookup_loop dp name fsize (off + 16))
      else ret None)"
  by pat_completeness auto
termination
  by (relation "measure (\<lambda>(dp, name, fsize, off). fsize - off)") auto

definition dirlookup :: "nat \<Rightarrow> bytes \<Rightarrow> ('z fsst_scheme, (nat \<times> u32) option) kop" where
  "dirlookup dp name =
     bd (igets dp id) (\<lambda>x.
     if i_type x \<noteq> T_DIR then panic ''dirlookup not DIR''
     else dirlookup_loop dp name (unat (i_size x)) 0)"

text \<open>The first offset whose entry is free, or the size rounded up to a whole entry.\<close>

function dirlink_slot :: "nat \<Rightarrow> nat \<Rightarrow> nat \<Rightarrow> ('z fsst_scheme, nat) kop" where
  "dirlink_slot dp fsize off =
     (if off < fsize then
        bd (read_dirent dp off ''dirlink read'') (\<lambda>de.
        if de_inum de = 0 then ret off else dirlink_slot dp fsize (off + 16))
      else ret off)"
  by pat_completeness auto
termination
  by (relation "measure (\<lambda>(dp, fsize, off). fsize - off)") auto

declare dirlookup_loop.simps [simp del] dirlink_slot.simps [simp del]

definition strncpy_list :: "bytes \<Rightarrow> nat \<Rightarrow> bytes" where
  "strncpy_list s n = take n (takeWhile (\<lambda>c. c \<noteq> 0) s @ replicate n 0)"

definition dirlink :: "nat \<Rightarrow> bytes \<Rightarrow> u32 \<Rightarrow> ('z fsst_scheme, int) kop" where
  "dirlink dp name inum =
     bd (dirlookup dp name) (\<lambda>r.
     case r of
       Some (ip, _) \<Rightarrow> bd (iput ip) (\<lambda>_. ret (- 1))
     | None \<Rightarrow>
         bd (igets dp i_size) (\<lambda>fsize.
         bd (dirlink_slot dp (unat fsize) 0) (\<lambda>off.
         bd (writei dp (put_dirent \<lparr>de_inum = ucast inum, de_name = strncpy_list name DIRSIZ\<rparr>) (of_nat off)) (\<lambda>w.
         if w \<noteq> 16 then panic ''dirlink'' else ret 0))))"

section \<open>Path names\<close>

definition SLASH :: u8 where "SLASH = 0x2F"

text \<open>The name of the element and the rest of the path; an element of \<open>DIRSIZ\<close> bytes or more is cut off.\<close>

definition skipelem :: "bytes \<Rightarrow> (bytes \<times> bytes) option" where
  "skipelem path =
     (let p = dropWhile (\<lambda>c. c = SLASH) path in
      if hd0 p = 0 then None
      else
        let e = takeWhile (\<lambda>c. c \<noteq> SLASH \<and> c \<noteq> 0) p;
            r = dropWhile (\<lambda>c. c \<noteq> SLASH \<and> c \<noteq> 0) p
        in Some (take DIRSIZ e, dropWhile (\<lambda>c. c = SLASH) r))"

lemma skipelem_shorter:
  assumes "skipelem path = Some (name, rest)"
  shows "length rest < length path"
proof -
  define Q where "Q = (\<lambda>c. c \<noteq> SLASH \<and> c \<noteq> (0 :: u8))"
  define p where "p = dropWhile (\<lambda>c. c = SLASH) path"
  have h: "hd0 p \<noteq> 0" and r: "rest = dropWhile (\<lambda>c. c = SLASH) (dropWhile Q p)"
    using assms by (auto simp: skipelem_def Let_def Q_def p_def split: if_splits)
  obtain c cs where c: "p = c # cs" using h by (cases p) (simp_all add: hd0_def)
  have "c \<noteq> SLASH" using hd_dropWhile [of "\<lambda>c. c = SLASH" path] c unfolding p_def by simp
  then have "dropWhile Q p = dropWhile Q cs" using c h by (simp add: Q_def hd0_def)
  then have "length (dropWhile Q p) \<le> length cs" by (simp add: length_dropWhile_le)
  moreover have "length rest \<le> length (dropWhile Q p)" unfolding r by (rule length_dropWhile_le)
  moreover have "length p \<le> length path" unfolding p_def by (rule length_dropWhile_le)
  ultimately show ?thesis using c by simp
qed

function namex_loop :: "bool \<Rightarrow> bytes \<Rightarrow> nat \<Rightarrow> ('z fsst_scheme, (nat \<times> bytes) option) kop" where
  "namex_loop nameiparent path ip =
     (case skipelem path of
        None \<Rightarrow>
          if nameiparent then bd (iput ip) (\<lambda>_. ret None) else ret (Some (ip, []))
      | Some (name, rest) \<Rightarrow>
          bd (ilock ip) (\<lambda>_.
          bd (igets ip i_type) (\<lambda>ty.
          if ty \<noteq> T_DIR then bd (iunlockput ip) (\<lambda>_. ret None)
          else if nameiparent \<and> hd0 rest = 0 then bd (iunlock ip) (\<lambda>_. ret (Some (ip, name)))
          else
            bd (dirlookup ip name) (\<lambda>r.
            case r of
              None \<Rightarrow> bd (iunlockput ip) (\<lambda>_. ret None)
            | Some (nxt, _) \<Rightarrow>
                bd (iunlockput ip) (\<lambda>_.
                namex_loop nameiparent rest nxt)))))"
  by pat_completeness auto
termination
  by (relation "measure (\<lambda>(nameiparent, path, ip). length path)") (auto dest: skipelem_shorter)

declare namex_loop.simps [simp del]

definition cur_cwd :: "('z ptst_scheme, nat) kop" where
  "cur_cwd s = (case curproc s of
     None \<Rightarrow> Fault
   | Some p \<Rightarrow> (case cwd (ptable s ! p) of None \<Rightarrow> Fault | Some ip \<Rightarrow> Done ip s))"

definition namex :: "bytes \<Rightarrow> bool \<Rightarrow> ('z fsst_scheme, (nat \<times> bytes) option) kop" where
  "namex path nameiparent =
     bd (if hd0 path = SLASH then iget ROOTDEV ROOTINO else bd cur_cwd idup) (\<lambda>ip.
     namex_loop nameiparent path ip)"

definition namei :: "bytes \<Rightarrow> ('z fsst_scheme, nat option) kop" where
  "namei path = bd (namex path False) (\<lambda>r. ret (map_option fst r))"

definition nameiparent :: "bytes \<Rightarrow> ('z fsst_scheme, (nat \<times> bytes) option) kop" where
  "nameiparent path = namex path True"

section \<open>A machine at rest\<close>

text \<open>Empty inode cache, no block read, a running process 0 and the console as the only device.\<close>

definition zero_inode :: inode where
  "zero_inode = \<lparr>i_dev = 0, i_inum = 0, i_ref = 0, i_busy = False, i_valid = False, i_type = 0, i_major = 0,
     i_minor = 0, i_nlink = 0, i_size = 0, i_addrs = replicate (Suc NDIRECT) 0\<rparr>"

definition boot_fs :: fsst where
  "boot_fs = consst.extend (boot_console\<lparr>ptable := [zero_proc\<lparr>state := RUNNING, pid := 1\<rparr>], curproc := Some 0\<rparr>)
     (fsst.fields (replicate NINODE zero_inode) (sb_of []) (replicate NDEV None) (replicate NDEV None))"

lemma boot_fs_fields:
  "held boot_fs = {}" "ptable boot_fs = [zero_proc\<lparr>state := RUNNING, pid := 1\<rparr>]" "curproc boot_fs = Some 0"
  "icache boot_fs = replicate NINODE zero_inode"
  by (simp_all add: boot_fs_def consst.defs fsst.defs boot_console_def)

end
