(* ===== verification/Pipe.thy ===== *)
theory Pipe
  imports Fs
begin

text \<open>
  \<^verbatim>\<open>pipe.c\<close> without \<^verbatim>\<open>pipealloc\<close>, which is in theory \<open>File\<close>: a pipe is a ring buffer of 512 bytes in a page of
  its own, with running 32-bit counters of the bytes written and read. The pipes are a map from
  page addresses; using a freed pipe is a memory fault. What a caller does when it runs again after
  a sleep is given by the \<open>_resume\<close> operations.
\<close>

section \<open>Definitions\<close>

definition PIPESIZE :: nat where "PIPESIZE = 512"

record pipe =
  pdata :: bytes
  nread :: u32
  nwrite :: u32
  readopen :: bool
  writeopen :: bool

record pipest = fsst +
  pipes :: "u32 \<Rightarrow> pipe option"

definition pgets :: "u32 \<Rightarrow> (pipe \<Rightarrow> 'a) \<Rightarrow> ('z pipest_scheme, 'a) kop" where
  "pgets p f s = (case pipes s p of None \<Rightarrow> Fault | Some x \<Rightarrow> Done (f x) s)"

definition set_pipe :: "u32 \<Rightarrow> pipe \<Rightarrow> 'z pipest_scheme \<Rightarrow> 'z pipest_scheme" where
  "set_pipe p x s = s\<lparr>pipes := (pipes s)(p \<mapsto> x)\<rparr>"

definition pmod :: "u32 \<Rightarrow> (pipe \<Rightarrow> pipe) \<Rightarrow> ('z pipest_scheme, unit) kop" where
  "pmod p f s = (case pipes s p of None \<Rightarrow> Fault | Some x \<Rightarrow> Done () (set_pipe p (f x) s))"

text \<open>The fields a new pipe gets; its data are the bytes behind the lock in the page it was given.\<close>

definition pipe_init :: "u32 \<Rightarrow> ('z pipest_scheme, unit) kop" where
  "pipe_init p = modify (\<lambda>s. s\<lparr>pipes := (pipes s)(p \<mapsto>
     \<lparr>pdata = map (\<lambda>i. kmem_mem s (p + 52 + of_nat i)) [0..<PIPESIZE],
      nread = 0, nwrite = 0, readopen = True, writeopen = True\<rparr>)\<rparr>)"

definition pipeclose :: "u32 \<Rightarrow> bool \<Rightarrow> ('z pipest_scheme, unit) kop" where
  "pipeclose p writable =
     bd (acquire (LPipe p)) (\<lambda>_.
     bd (if writable
         then bd (pmod p (\<lambda>x. x\<lparr>writeopen := False\<rparr>)) (\<lambda>_. wakeup (ChanPipeRead p))
         else bd (pmod p (\<lambda>x. x\<lparr>readopen := False\<rparr>)) (\<lambda>_. wakeup (ChanPipeWrite p))) (\<lambda>_.
     bd (pgets p (\<lambda>x. \<not> readopen x \<and> \<not> writeopen x)) (\<lambda>unused.
     if unused then
       bd (release (LPipe p)) (\<lambda>_.
       bd (modify (\<lambda>s. s\<lparr>pipes := (pipes s)(p := None)\<rparr>)) (\<lambda>_.
       kfree p))
     else release (LPipe p))))"

text \<open>
  The loop of \<^verbatim>\<open>pipewrite\<close> over the bytes still to be written; \<open>n\<close> is the count the caller gave,
  and \<open>addr\<close> has as many bytes, none if it is negative.
\<close>

fun pipewrite_loop :: "u32 \<Rightarrow> int \<Rightarrow> bytes \<Rightarrow> ('z pipest_scheme, int) kop" where
  "pipewrite_loop p n [] =
     bd (wakeup (ChanPipeRead p)) (\<lambda>_.
     bd (release (LPipe p)) (\<lambda>_.
     ret n))"
| "pipewrite_loop p n (c # cs) =
     bd (pgets p (\<lambda>x. nwrite x = nread x + of_nat PIPESIZE)) (\<lambda>full.
     if full then
       bd (pgets p readopen) (\<lambda>ro.
       bd (gets cur_killed) (\<lambda>k.
       if \<not> ro \<or> k then bd (release (LPipe p)) (\<lambda>_. ret (- 1))
       else
         bd (wakeup (ChanPipeRead p)) (\<lambda>_.
         bd (sleep (ChanPipeWrite p) (LPipe p)) (\<lambda>_ _. Fault))))
     else
       bd (pmod p (\<lambda>x. x\<lparr>pdata := (pdata x)[unat (nwrite x) mod PIPESIZE := c], nwrite := nwrite x + 1\<rparr>)) (\<lambda>_.
       pipewrite_loop p n cs))"

definition pipewrite :: "u32 \<Rightarrow> bytes \<Rightarrow> int \<Rightarrow> ('z pipest_scheme, int) kop" where
  "pipewrite p addr n = bd (acquire (LPipe p)) (\<lambda>_. pipewrite_loop p n addr)"

definition pipewrite_resume :: "u32 \<Rightarrow> int \<Rightarrow> bytes \<Rightarrow> ('z pipest_scheme, int) kop" where
  "pipewrite_resume p n rest = bd (sleep_resume (LPipe p)) (\<lambda>_. pipewrite_loop p n rest)"

text \<open>The copying loop of \<^verbatim>\<open>piperead\<close>, then the loop that waits for data.\<close>

fun piperead_copy :: "u32 \<Rightarrow> nat \<Rightarrow> bytes \<Rightarrow> ('z pipest_scheme, bytes) kop" where
  "piperead_copy p 0 acc = ret acc"
| "piperead_copy p (Suc n) acc =
     bd (pgets p id) (\<lambda>x.
     if nread x = nwrite x then ret acc
     else
       bd (pmod p (\<lambda>x. x\<lparr>nread := nread x + 1\<rparr>)) (\<lambda>_.
       piperead_copy p n (acc @ [pdata x ! (unat (nread x) mod PIPESIZE)])))"

definition piperead_loop :: "u32 \<Rightarrow> nat \<Rightarrow> ('z pipest_scheme, bytes option) kop" where
  "piperead_loop p n =
     bd (pgets p (\<lambda>x. nread x = nwrite x \<and> writeopen x)) (\<lambda>wait.
     if wait then
       bd (gets cur_killed) (\<lambda>k.
       if k then bd (release (LPipe p)) (\<lambda>_. ret None)
       else bd (sleep (ChanPipeRead p) (LPipe p)) (\<lambda>_ _. Fault))
     else
       bd (piperead_copy p n []) (\<lambda>r.
       bd (wakeup (ChanPipeWrite p)) (\<lambda>_.
       bd (release (LPipe p)) (\<lambda>_.
       ret (Some r)))))"

definition piperead :: "u32 \<Rightarrow> nat \<Rightarrow> ('z pipest_scheme, bytes option) kop" where
  "piperead p n = bd (acquire (LPipe p)) (\<lambda>_. piperead_loop p n)"

definition piperead_resume :: "u32 \<Rightarrow> nat \<Rightarrow> ('z pipest_scheme, bytes option) kop" where
  "piperead_resume p n = bd (sleep_resume (LPipe p)) (\<lambda>_. piperead_loop p n)"

section \<open>A pipe as a queue\<close>

text \<open>The bytes in the pipe, oldest first.\<close>

definition queue :: "pipe \<Rightarrow> bytes" where
  "queue x = ring_contents (pdata x) (nread x) (nwrite x)"

definition pipe_ok :: "pipe \<Rightarrow> bool" where
  "pipe_ok x \<longleftrightarrow> length (pdata x) = PIPESIZE \<and> length (queue x) \<le> PIPESIZE"

lemma PIPESIZE_dvd: "PIPESIZE dvd 2 ^ 32" "PIPESIZE < 2 ^ 32" "0 < PIPESIZE"
  by (simp_all add: PIPESIZE_def)

lemma pipe_full_iff: "pipe_ok x \<Longrightarrow> nwrite x = nread x + of_nat PIPESIZE \<longleftrightarrow> length (queue x) = PIPESIZE"
proof -
  have "nwrite x = nread x + of_nat PIPESIZE \<longleftrightarrow> nwrite x - nread x = of_nat PIPESIZE"
    by (auto simp: algebra_simps)
  also have "\<dots> \<longleftrightarrow> unat (nwrite x - nread x) = PIPESIZE"
    by (auto simp: word_unat_eq_iff PIPESIZE_def)
  finally show ?thesis by (simp add: queue_def)
qed

lemma pipe_push:
  assumes "pipe_ok x" and "length (queue x) < PIPESIZE"
  shows "pipe_ok (x\<lparr>pdata := (pdata x)[unat (nwrite x) mod PIPESIZE := c], nwrite := nwrite x + 1\<rparr>)"
    and "queue (x\<lparr>pdata := (pdata x)[unat (nwrite x) mod PIPESIZE := c], nwrite := nwrite x + 1\<rparr>) = queue x @ [c]"
proof -
  have len: "length (pdata x) = PIPESIZE" using assms(1) by (simp add: pipe_ok_def)
  have "unat (nwrite x - nread x) < length (pdata x)" using assms(2) len by (simp add: queue_def)
  from ring_push [of "pdata x", OF _ this] show q: "queue (x\<lparr>pdata := (pdata x)[unat (nwrite x) mod PIPESIZE := c], nwrite := nwrite x + 1\<rparr>) = queue x @ [c]"
    using len PIPESIZE_dvd by (simp add: queue_def)
  show "pipe_ok (x\<lparr>pdata := (pdata x)[unat (nwrite x) mod PIPESIZE := c], nwrite := nwrite x + 1\<rparr>)"
    unfolding pipe_ok_def q using len assms(2) by simp
qed

lemma pipe_pop:
  assumes "pipe_ok x" and "nread x \<noteq> nwrite x"
  shows "queue x = pdata x ! (unat (nread x) mod PIPESIZE) # queue (x\<lparr>nread := nread x + 1\<rparr>)"
    and "pipe_ok (x\<lparr>nread := nread x + 1\<rparr>)"
proof -
  have len: "length (pdata x) = PIPESIZE" using assms(1) by (simp add: pipe_ok_def)
  show q: "queue x = pdata x ! (unat (nread x) mod PIPESIZE) # queue (x\<lparr>nread := nread x + 1\<rparr>)"
    using ring_pop [OF assms(2), of "pdata x"] len by (simp add: queue_def)
  show "pipe_ok (x\<lparr>nread := nread x + 1\<rparr>)"
    using arg_cong [OF q, of length] assms(1) by (simp add: pipe_ok_def)
qed

lemma queue_Nil: "queue x = [] \<longleftrightarrow> nread x = nwrite x"
  by (simp add: queue_def ring_empty_iff)

text \<open>What a transfer leaves as it is in a pipe.\<close>

definition same_ends :: "pipe \<Rightarrow> pipe \<Rightarrow> bool" where
  "same_ends x y \<longleftrightarrow> readopen y = readopen x \<and> writeopen y = writeopen x"

lemma pipes_idem: "pipes s p = Some x \<Longrightarrow> set_pipe p x s = s"
  by (simp add: set_pipe_def fun_upd_idem)

lemma set_pipe_simps [simp]:
  "pipes (set_pipe p x s) p = Some x" "set_pipe p x (set_pipe p y s) = set_pipe p x s"
  "held (set_pipe p x s) = held s" "ptable (set_pipe p x s) = ptable s" "curproc (set_pipe p x s) = curproc s"
  "pipes (set_pipe p x s\<lparr>held := h\<rparr>) p = Some x" "pipes (set_pipe p x s\<lparr>ptable := ps\<rparr>) p = Some x"
  by (simp_all add: set_pipe_def)

lemma pipewrite_loop_fits:
  assumes "pipes s p = Some x" and "pipe_ok x" and "length (queue x) + length bs \<le> PIPESIZE"
  shows "\<exists>y. pipe_ok y \<and> queue y = queue x @ bs \<and> same_ends x y \<and>
    pipewrite_loop p n (bs @ rest) s = pipewrite_loop p n rest (set_pipe p y s)"
  using assms
proof (induction bs arbitrary: s x)
  case Nil
  then show ?case
    unfolding append_Nil by (intro exI [of _ x]) (simp only: pipes_idem same_ends_def append_Nil2 simp_thms)
next
  case (Cons c bs)
  define z where "z = x\<lparr>pdata := (pdata x)[unat (nwrite x) mod PIPESIZE := c], nwrite := nwrite x + 1\<rparr>"
  have z: "pipe_ok z" "queue z = queue x @ [c]" using pipe_push [OF Cons.prems(2)] Cons.prems(3) by (simp_all add: z_def)
  have nf: "nwrite x \<noteq> nread x + of_nat PIPESIZE" using pipe_full_iff [OF Cons.prems(2)] Cons.prems(3) by simp
  have step: "pipewrite_loop p n ((c # bs) @ rest) s = pipewrite_loop p n (bs @ rest) (set_pipe p z s)"
    using Cons.prems(1) nf by (simp add: bd_run pgets_def pmod_def z_def)
  obtain y where "pipe_ok y" "queue y = queue z @ bs" "same_ends z y"
    "pipewrite_loop p n (bs @ rest) (set_pipe p z s) =
     pipewrite_loop p n rest (set_pipe p y s)"
    using Cons.IH [of "set_pipe p z s" z] z Cons.prems(3) by auto
  with z(2) step show ?case by (intro exI [of _ y]) (simp add: same_ends_def z_def)
qed

lemma piperead_copy_spec:
  assumes "pipes s p = Some x" and "pipe_ok x"
  shows "\<exists>y. pipe_ok y \<and> queue y = drop n (queue x) \<and> same_ends x y \<and>
    piperead_copy p n acc s = Done (acc @ take n (queue x)) (set_pipe p y s)"
  using assms
proof (induction n arbitrary: s x acc)
  case 0
  then show ?case
    by (intro exI [of _ x]) (simp only: pipes_idem same_ends_def piperead_copy.simps ret_run take_0 drop_0 append_Nil2 simp_thms)
next
  case (Suc n)
  show ?case
  proof (cases "nread x = nwrite x")
    case True
    then have "queue x = []" by (simp add: queue_Nil)
    moreover have "piperead_copy p (Suc n) acc s = Done acc s"
      using True Suc.prems(1) by (simp add: bd_run pgets_def)
    ultimately show ?thesis
      using Suc.prems by (intro exI [of _ x]) (simp only: pipes_idem same_ends_def take_Nil drop_Nil append_Nil2 simp_thms)
  next
    case False
    define z where "z = x\<lparr>nread := nread x + 1\<rparr>"
    note z = pipe_pop [OF Suc.prems(2) False, folded z_def]
    let ?c = "pdata x ! (unat (nread x) mod PIPESIZE)"
    have step: "piperead_copy p (Suc n) acc s = piperead_copy p n (acc @ [?c]) (set_pipe p z s)"
      using Suc.prems(1) False by (simp add: bd_run pgets_def pmod_def z_def)
    obtain y where "pipe_ok y" "queue y = drop n (queue z)" "same_ends z y"
      "piperead_copy p n (acc @ [?c]) (set_pipe p z s) =
        Done ((acc @ [?c]) @ take n (queue z)) (set_pipe p y s)"
      using Suc.IH [of "set_pipe p z s" z "acc @ [?c]"] z(2) by auto
    then show ?thesis using step z(1) by (intro exI [of _ y]) (simp add: same_ends_def z_def)
  qed
qed

lemma pipewrite_fits:
  assumes "pipes s p = Some x" and "pipe_ok x" and "held s = {}" and "length (queue x) + length bs \<le> PIPESIZE"
  shows "\<exists>t y. pipewrite p bs (int (length bs)) s = Done (int (length bs)) t \<and> pipes t p = Some y \<and> pipe_ok y \<and>
      queue y = queue x @ bs \<and> held t = {}"
proof -
  let ?a = "s\<lparr>held := {LPipe p}\<rparr>"
  have acq: "acquire (LPipe p) s = Done () ?a" using assms(3) by (simp add: acquire_run)
  have ap: "pipes ?a p = Some x" using assms(1) by simp
  obtain y where y: "pipe_ok y" "queue y = queue x @ bs"
    "pipewrite_loop p (int (length bs)) (bs @ []) ?a = pipewrite_loop p (int (length bs)) [] (set_pipe p y ?a)"
    using pipewrite_loop_fits [OF ap assms(2,4)] by blast
  have "pipewrite p bs (int (length bs)) s = pipewrite_loop p (int (length bs)) [] (set_pipe p y ?a)"
    using y(3) acq by (simp add: pipewrite_def bd_run)
  with y(1,2) show ?thesis by (simp add: bd_run wakeup_run release_run)
qed

lemma piperead_takes:
  assumes "pipes s p = Some x" and "pipe_ok x" and "held s = {}" and "queue x \<noteq> [] \<or> \<not> writeopen x"
  shows "\<exists>t y. piperead p n s = Done (Some (take n (queue x))) t \<and> pipes t p = Some y \<and> pipe_ok y \<and>
      queue y = drop n (queue x) \<and> held t = {}"
proof -
  let ?a = "s\<lparr>held := {LPipe p}\<rparr>"
  have acq: "acquire (LPipe p) s = Done () ?a" using assms(3) by (simp add: acquire_run)
  have ap: "pipes ?a p = Some x" using assms(1) by simp
  obtain y where y: "pipe_ok y" "queue y = drop n (queue x)"
    "piperead_copy p n [] ?a = Done (take n (queue x)) (set_pipe p y ?a)"
    using piperead_copy_spec [OF ap assms(2), of n "[]"] by auto
  have "\<not> (nread x = nwrite x \<and> writeopen x)" using assms(4) by (auto simp: queue_Nil)
  then have "piperead p n s = bd (wakeup (ChanPipeWrite p)) (\<lambda>_. bd (release (LPipe p)) (\<lambda>_. ret (Some (take n (queue x)))))
      (set_pipe p y ?a)"
    using y(3) acq ap by (cases "nread x = nwrite x") (simp_all add: piperead_def piperead_loop_def bd_run pgets_def)
  with y(1,2) show ?thesis by (simp add: bd_run wakeup_run release_run)
qed

text \<open>A writer that finds the pipe full wakes the reader and goes to sleep on \<open>&p->nwrite\<close>.\<close>

lemma pipewrite_loop_full:
  assumes "pipes u p = Some y" and "pipe_ok y" and "length (queue y) = PIPESIZE" and "readopen y" and "held u = {LPipe p}"
    and "curproc u = Some i" and "i < length (ptable u)" and "\<not> killed (ptable u ! i)" and "state (ptable u ! i) = RUNNING"
  shows "\<exists>t. pipewrite_loop p n (c # cs) u = Switched t \<and> pipes t = pipes u \<and> held t = {LPtable} \<and>
      state (ptable t ! i) = SLEEPING \<and> chan (ptable t ! i) = Some (ChanPipeWrite p)"
proof -
  have full: "nwrite y = nread y + of_nat PIPESIZE" using pipe_full_iff [OF assms(2)] assms(3) by simp
  define v where "v = u\<lparr>ptable := map (\<lambda>q. if state q = SLEEPING \<and> chan q = Some (ChanPipeRead p) then q\<lparr>state := RUNNABLE\<rparr> else q) (ptable u)\<rparr>"
  have wk: "wakeup (ChanPipeRead p) u = Done () v" using assms(5) by (simp add: wakeup_run v_def)
  have sl: "sleep (ChanPipeWrite p) (LPipe p) v = Switched (v\<lparr>held := {LPtable},
      ptable := (ptable v)[i := (ptable v ! i)\<lparr>chan := Some (ChanPipeWrite p), state := SLEEPING\<rparr>]\<rparr>)"
    using sleep_run [of v i "LPipe p" "ChanPipeWrite p"] assms(5,6,7) by (simp add: v_def)
  have "\<not> cur_killed u" using assms(6,8) by (simp add: cur_killed_def)
  then have "pipewrite_loop p n (c # cs) u = Switched (v\<lparr>held := {LPtable},
      ptable := (ptable v)[i := (ptable v ! i)\<lparr>chan := Some (ChanPipeWrite p), state := SLEEPING\<rparr>]\<rparr>)"
    using full assms(1,4) sl wk by (simp add: bd_run pgets_def)
  then show ?thesis using assms(7) by (simp add: v_def)
qed

lemma pipewrite_blocks:
  assumes "pipes s p = Some x" and "pipe_ok x" and "held s = {}" and big: "length (queue x) + length bs > PIPESIZE"
    and "readopen x" and "curproc s = Some i" and "i < length (ptable s)" and "\<not> killed (ptable s ! i)"
    and "state (ptable s ! i) = RUNNING"
  shows "\<exists>t y. pipewrite p bs (int (length bs)) s = Switched t \<and> pipes t p = Some y \<and> pipe_ok y \<and>
      queue y = queue x @ take (PIPESIZE - length (queue x)) bs \<and> held t = {LPtable} \<and>
      state (ptable t ! i) = SLEEPING \<and> chan (ptable t ! i) = Some (ChanPipeWrite p)"
proof -
  let ?a = "s\<lparr>held := {LPipe p}\<rparr>"
  define k where "k = PIPESIZE - length (queue x)"
  have acq: "acquire (LPipe p) s = Done () ?a" using assms(3) by (simp add: acquire_run)
  have ap: "pipes ?a p = Some x" using assms(1) by simp
  have q: "length (queue x) \<le> PIPESIZE" using assms(2) by (simp add: pipe_ok_def)
  have k: "k < length bs" using big q by (simp add: k_def)
  have fit: "length (queue x) + length (take k bs) \<le> PIPESIZE" using k q by (simp add: k_def)
  obtain y where y: "pipe_ok y" "queue y = queue x @ take k bs" "same_ends x y"
    "pipewrite_loop p (int (length bs)) (take k bs @ bs ! k # drop (Suc k) bs) ?a =
     pipewrite_loop p (int (length bs)) (bs ! k # drop (Suc k) bs) (set_pipe p y ?a)"
    using pipewrite_loop_fits [OF ap assms(2) fit] by blast
  have "pipewrite p bs (int (length bs)) s = pipewrite_loop p (int (length bs)) bs ?a"
    using acq by (simp add: pipewrite_def bd_run)
  also have "\<dots> = pipewrite_loop p (int (length bs)) (bs ! k # drop (Suc k) bs) (set_pipe p y ?a)"
    using y(4) id_take_nth_drop [OF k] by simp
  finally have eq: "pipewrite p bs (int (length bs)) s = \<dots>" .
  have "length (queue y) = PIPESIZE" using y(2) k q by (simp add: k_def)
  from pipewrite_loop_full [of "set_pipe p y ?a" p y i "int (length bs)" "bs ! k" "drop (Suc k) bs", OF _ y(1) this]
  show ?thesis using y assms(5-9) unfolding eq k_def by (auto simp: same_ends_def)
qed

section \<open>Properties\<close>

text \<open>
  C30: A pipe is a bounded queue. Writing bytes that fit returns their count and appends them; if they do
  not fit and the read end is open, exactly the bytes that fit are appended and the writer goes to sleep.
  Reading from a pipe that has bytes returns the oldest ones, up to the count asked for, and removes them. The running
  counters may wrap around.
\<close>

theorem pipe_is_queue:
  assumes "pipes s p = Some x" and "pipe_ok x" and "held s = {}"
  shows "(length (queue x) + length bs \<le> PIPESIZE \<longrightarrow>
      (\<exists>t y. pipewrite p bs (int (length bs)) s = Done (int (length bs)) t \<and> pipes t p = Some y \<and> pipe_ok y \<and>
        queue y = queue x @ bs \<and> held t = {})) \<and>
    (length (queue x) + length bs > PIPESIZE \<longrightarrow> readopen x \<longrightarrow> curproc s = Some i \<longrightarrow> i < length (ptable s) \<longrightarrow>
      \<not> killed (ptable s ! i) \<longrightarrow> state (ptable s ! i) = RUNNING \<longrightarrow>
      (\<exists>t y. pipewrite p bs (int (length bs)) s = Switched t \<and> pipes t p = Some y \<and> pipe_ok y \<and>
        queue y = queue x @ take (PIPESIZE - length (queue x)) bs \<and> held t = {LPtable} \<and>
        state (ptable t ! i) = SLEEPING \<and> chan (ptable t ! i) = Some (ChanPipeWrite p))) \<and>
    (queue x \<noteq> [] \<or> \<not> writeopen x \<longrightarrow>
      (\<exists>t y. piperead p n s = Done (Some (take n (queue x))) t \<and> pipes t p = Some y \<and> pipe_ok y \<and>
        queue y = drop n (queue x) \<and> held t = {}))"
  using pipewrite_fits [OF assms, of bs] pipewrite_blocks [OF assms, of bs i] piperead_takes [OF assms, of n] by argo

text \<open>A machine with one empty pipe whose counters are about to wrap around.\<close>

definition boot_pipes :: pipest where
  "boot_pipes = fsst.extend boot_fs (pipest.fields [0x8DFFE000 \<mapsto>
     \<lparr>pdata = replicate PIPESIZE 0, nread = 0xFFFFFFFF, nwrite = 0xFFFFFFFF, readopen = True, writeopen = True\<rparr>])"

lemma boot_pipes_fields:
  "held boot_pipes = {}" "pipes boot_pipes 0x8DFFE000 = Some
     \<lparr>pdata = replicate PIPESIZE 0, nread = 0xFFFFFFFF, nwrite = 0xFFFFFFFF, readopen = True, writeopen = True\<rparr>"
  using boot_fs_fields by (simp_all add: boot_pipes_def fsst.defs pipest.defs)

theorem pipe_is_queue_witness:
  "\<exists>t u. pipewrite 0x8DFFE000 [1, 2, 3] 3 boot_pipes = Done 3 t \<and> piperead 0x8DFFE000 2 t = Done (Some [1, 2]) u"
proof -
  let ?x = "\<lparr>pdata = replicate PIPESIZE 0, nread = 0xFFFFFFFF, nwrite = 0xFFFFFFFF, readopen = True, writeopen = True\<rparr> :: pipe"
  have ok: "pipe_ok ?x" "queue ?x = []" by (simp_all add: pipe_ok_def queue_def)
  from pipe_is_queue [OF boot_pipes_fields(2) ok(1) boot_pipes_fields(1), of "[1, 2, 3]"] ok(2)
  obtain t y where t: "pipewrite 0x8DFFE000 [1, 2, 3] 3 boot_pipes = Done 3 t" "pipes t 0x8DFFE000 = Some y"
    "pipe_ok y" "queue y = [1, 2, 3]" "held t = {}"
    by (auto simp: PIPESIZE_def)
  from pipe_is_queue [OF t(2,3,5), of "[]" 0 2] t(4) have "\<exists>u. piperead 0x8DFFE000 2 t = Done (Some [1, 2]) u" by auto
  with t(1) show ?thesis by blast
qed

end
