(* ===== verification/File.thy ===== *)
theory File
  imports Pipe
begin

text \<open>
  \<^verbatim>\<open>file.c\<close>, with \<^verbatim>\<open>struct file\<close> of \<^verbatim>\<open>file.h\<close> and \<^verbatim>\<open>pipealloc\<close> of \<^verbatim>\<open>pipe.c\<close>: the table of open files,
  with reference counts, and reading and writing through them. A file pointer is an index into the
  table.
\<close>

section \<open>Definitions\<close>

datatype fdtype = FD_NONE | FD_PIPE | FD_INODE

record kfile =
  f_type :: fdtype
  f_ref :: int
  f_readable :: bool
  f_writable :: bool
  f_pipe :: u32
  f_ip :: nat
  f_off :: u32

record filest = pipest +
  ftable :: "kfile list"

definition fgets :: "nat \<Rightarrow> (kfile \<Rightarrow> 'a) \<Rightarrow> ('z filest_scheme, 'a) kop" where
  "fgets f g s = (if f < length (ftable s) then Done (g (ftable s ! f)) s else Fault)"

definition fmod :: "nat \<Rightarrow> (kfile \<Rightarrow> kfile) \<Rightarrow> ('z filest_scheme, unit) kop" where
  "fmod f g s =
     (if f < length (ftable s) then Done () (s\<lparr>ftable := (ftable s)[f := g (ftable s ! f)]\<rparr>) else Fault)"

definition filealloc :: "('z filest_scheme, nat option) kop" where
  "filealloc =
     bd (acquire LFtable) (\<lambda>_.
     bd (gets (\<lambda>s. find (\<lambda>f. f_ref (ftable s ! f) = 0) [0..<length (ftable s)])) (\<lambda>r.
     case r of
       Some f \<Rightarrow>
         bd (fmod f (\<lambda>x. x\<lparr>f_ref := 1\<rparr>)) (\<lambda>_.
         bd (release LFtable) (\<lambda>_.
         ret (Some f)))
     | None \<Rightarrow> bd (release LFtable) (\<lambda>_. ret None)))"

definition filedup :: "nat \<Rightarrow> ('z filest_scheme, nat) kop" where
  "filedup f =
     bd (acquire LFtable) (\<lambda>_.
     bd (fgets f f_ref) (\<lambda>r.
     if r < 1 then panic ''filedup''
     else
       bd (fmod f (\<lambda>x. x\<lparr>f_ref := f_ref x + 1\<rparr>)) (\<lambda>_.
       bd (release LFtable) (\<lambda>_.
       ret f))))"

text \<open>What is done with the last reference, on the copy of the file structure.\<close>

definition fileclose_last :: "kfile \<Rightarrow> ('z filest_scheme, unit) kop" where
  "fileclose_last ff =
     (case f_type ff of
        FD_PIPE \<Rightarrow> pipeclose (f_pipe ff) (f_writable ff)
      | FD_INODE \<Rightarrow> bd begin_op (\<lambda>_. bd (iput (f_ip ff)) (\<lambda>_. end_op))
      | FD_NONE \<Rightarrow> ret ())"

definition fileclose :: "nat \<Rightarrow> ('z filest_scheme, unit) kop" where
  "fileclose f =
     bd (acquire LFtable) (\<lambda>_.
     bd (fgets f f_ref) (\<lambda>r.
     if r < 1 then panic ''fileclose''
     else
       bd (fmod f (\<lambda>x. x\<lparr>f_ref := f_ref x - 1\<rparr>)) (\<lambda>_.
       if r - 1 > 0 then release LFtable
       else
         bd (fgets f id) (\<lambda>ff.
         bd (fmod f (\<lambda>x. x\<lparr>f_ref := 0, f_type := FD_NONE\<rparr>)) (\<lambda>_.
         bd (release LFtable) (\<lambda>_.
         fileclose_last ff))))))"

definition filestat :: "nat \<Rightarrow> ('z filest_scheme, stat option) kop" where
  "filestat f =
     bd (fgets f id) (\<lambda>x.
     if f_type x = FD_INODE then
       bd (ilock (f_ip x)) (\<lambda>_.
       bd (stati (f_ip x)) (\<lambda>st.
       bd (iunlock (f_ip x)) (\<lambda>_.
       ret (Some st))))
     else ret None)"

text \<open>\<open>n\<close> is the count as a signed integer.\<close>

definition fileread :: "nat \<Rightarrow> int \<Rightarrow> ('z filest_scheme, bytes option) kop" where
  "fileread f n =
     bd (fgets f id) (\<lambda>x.
     if \<not> f_readable x then ret None
     else case f_type x of
       FD_PIPE \<Rightarrow> piperead (f_pipe x) (nat n)
     | FD_INODE \<Rightarrow>
         bd (ilock (f_ip x)) (\<lambda>_.
         bd (readi (f_ip x) (f_off x) (word_of_int n)) (\<lambda>r.
         bd (case r of
               Some d \<Rightarrow> whenk (0 < length d) (fmod f (\<lambda>x. x\<lparr>f_off := f_off x + of_nat (length d)\<rparr>))
             | None \<Rightarrow> ret ()) (\<lambda>_.
         bd (iunlock (f_ip x)) (\<lambda>_.
         ret r))))
     | FD_NONE \<Rightarrow> panic ''fileread'')"

definition filewrite_max :: nat where
  "filewrite_max = ((LOGSIZE - 1 - 1 - 2) div 2) * 512"

lemma filewrite_max_pos [simp]: "0 < filewrite_max"
  by (simp add: filewrite_max_def LOGSIZE_def MAXOPBLOCKS_def)

text \<open>One transaction of \<^verbatim>\<open>filewrite\<close>, then the loop; \<open>src\<close> is what is left to write.\<close>

definition filewrite_chunk :: "nat \<Rightarrow> bytes \<Rightarrow> ('z filest_scheme, int) kop" where
  "filewrite_chunk f src =
     bd begin_op (\<lambda>_.
     bd (fgets f id) (\<lambda>x.
     bd (ilock (f_ip x)) (\<lambda>_.
     bd (writei (f_ip x) src (f_off x)) (\<lambda>r.
     bd (whenk (0 < r) (fmod f (\<lambda>x. x\<lparr>f_off := f_off x + word_of_int r\<rparr>))) (\<lambda>_.
     bd (iunlock (f_ip x)) (\<lambda>_.
     bd end_op (\<lambda>_.
     ret r)))))))"

function filewrite_loop :: "nat \<Rightarrow> int \<Rightarrow> bytes \<Rightarrow> ('z filest_scheme, int) kop" where
  "filewrite_loop f n src =
     (if src = [] then ret (if n < 0 then - 1 else n)
      else
        let n1 = min (length src) filewrite_max in
        bd (filewrite_chunk f (take n1 src)) (\<lambda>r.
        if r < 0 then ret (- 1)
        else if r \<noteq> int n1 then panic ''short filewrite''
        else filewrite_loop f n (drop n1 src)))"
  by pat_completeness auto
termination
  by (relation "measure (\<lambda>(f, n, src). length src)") auto

declare filewrite_loop.simps [simp del]

definition filewrite :: "nat \<Rightarrow> bytes \<Rightarrow> int \<Rightarrow> ('z filest_scheme, int) kop" where
  "filewrite f addr n =
     bd (fgets f id) (\<lambda>x.
     if \<not> f_writable x then ret (- 1)
     else case f_type x of
       FD_PIPE \<Rightarrow> pipewrite (f_pipe x) addr n
     | FD_INODE \<Rightarrow> filewrite_loop f n addr
     | FD_NONE \<Rightarrow> panic ''filewrite'')"

definition pipealloc_bad :: "nat option \<Rightarrow> nat option \<Rightarrow> ('z filest_scheme, (nat \<times> nat) option) kop" where
  "pipealloc_bad f0 f1 =
     bd (case f0 of Some f \<Rightarrow> fileclose f | None \<Rightarrow> ret ()) (\<lambda>_.
     bd (case f1 of Some f \<Rightarrow> fileclose f | None \<Rightarrow> ret ()) (\<lambda>_.
     ret None))"

definition pipealloc :: "('z filest_scheme, (nat \<times> nat) option) kop" where
  "pipealloc =
     bd filealloc (\<lambda>r0.
     case r0 of
       None \<Rightarrow> pipealloc_bad None None
     | Some f0 \<Rightarrow>
         bd filealloc (\<lambda>r1.
         case r1 of
           None \<Rightarrow> pipealloc_bad (Some f0) None
         | Some f1 \<Rightarrow>
             bd kalloc (\<lambda>p.
             if p = 0 then pipealloc_bad (Some f0) (Some f1)
             else
               bd (pipe_init p) (\<lambda>_.
               bd (fmod f0 (\<lambda>x. x\<lparr>f_type := FD_PIPE, f_readable := True, f_writable := False, f_pipe := p\<rparr>)) (\<lambda>_.
               bd (fmod f1 (\<lambda>x. x\<lparr>f_type := FD_PIPE, f_readable := False, f_writable := True, f_pipe := p\<rparr>)) (\<lambda>_.
               ret (Some (f0, f1))))))))"

end
