(* ===== verification/Vm.thy ===== *)
theory Vm
  imports File
begin

text \<open>
  \<^verbatim>\<open>vm.c\<close>: two-level page tables in the byte-addressed memory of theory \<open>Kalloc\<close>, the kernel's
  mappings, growing, shrinking, copying and freeing user memory, and copying into it. Memory is
  addressed by kernel virtual address, so the entry of a page table at physical address \<open>pa\<close> is read at
  \<open>p2v pa\<close>. Using a null pointer is a memory fault.
\<close>

section \<open>Page tables\<close>

text \<open>The linker's symbols and the image of the first process, which the build supplies.\<close>

record vmst = filest +
  kdata :: u32
  forkret_addr :: u32
  trapret_addr :: u32
  initcode :: bytes

definition pde_at :: "u32 \<Rightarrow> u32 \<Rightarrow> u32" where
  "pde_at pd va = pd + 4 * PDX va"

definition pte_at :: "u32 \<Rightarrow> u32 \<Rightarrow> u32" where
  "pte_at pgtab va = pgtab + 4 * PTX va"

definition ldmem :: "u32 \<Rightarrow> ('z kmst_scheme, u32) kop" where
  "ldmem a s = (if a = 0 then Fault else Done (load32 (kmem_mem s) a) s)"

definition stmem :: "u32 \<Rightarrow> u32 \<Rightarrow> ('z kmst_scheme, unit) kop" where
  "stmem a w s = (if a = 0 then Fault else Done () (s\<lparr>kmem_mem := store32 (kmem_mem s) a w\<rparr>))"

definition zero_page :: "u32 \<Rightarrow> ('z kmst_scheme, unit) kop" where
  "zero_page p s = (if p = 0 then Fault else Done () (s\<lparr>kmem_mem := memset (kmem_mem s) p 0 PGSIZE\<rparr>))"

text \<open>The result is the address of the page table entry, or 0.\<close>

definition walkpgdir :: "u32 \<Rightarrow> u32 \<Rightarrow> bool \<Rightarrow> ('z kmst_scheme, u32) kop" where
  "walkpgdir pd va alloc =
     bd (ldmem (pde_at pd va)) (\<lambda>pde.
     if pde AND PTE_P \<noteq> 0 then ret (pte_at (p2v (PTE_ADDR pde)) va)
     else if \<not> alloc then ret 0
     else
       bd kalloc (\<lambda>pgtab.
       if pgtab = 0 then ret 0
       else
         bd (zero_page pgtab) (\<lambda>_.
         bd (stmem (pde_at pd va) (v2p pgtab OR PTE_P OR PTE_W OR PTE_U)) (\<lambda>_.
         ret (pte_at pgtab va)))))"

text \<open>The loop of \<^verbatim>\<open>mappages\<close>; \<open>k\<close> is the number of pages from \<open>a\<close> to \<^verbatim>\<open>last\<close>.\<close>

fun mappages_loop :: "u32 \<Rightarrow> u32 \<Rightarrow> u32 \<Rightarrow> u32 \<Rightarrow> nat \<Rightarrow> ('z kmst_scheme, int) kop" where
  "mappages_loop pd a pa perm k =
     bd (walkpgdir pd a True) (\<lambda>pte.
     if pte = 0 then ret (- 1)
     else
       bd (ldmem pte) (\<lambda>v.
       if v AND PTE_P \<noteq> 0 then panic ''remap''
       else
         bd (stmem pte (pa OR perm OR PTE_P)) (\<lambda>_.
         case k of
           0 \<Rightarrow> ret 0
         | Suc k' \<Rightarrow> mappages_loop pd (a + PGSIZE) (pa + PGSIZE) perm k')))"

declare mappages_loop.simps [simp del]

definition mappages :: "u32 \<Rightarrow> u32 \<Rightarrow> u32 \<Rightarrow> u32 \<Rightarrow> u32 \<Rightarrow> ('z kmst_scheme, int) kop" where
  "mappages pd va szb pa perm =
     (let a = PGROUNDDOWN va;
          last = PGROUNDDOWN (va + szb - 1)
      in mappages_loop pd a pa perm (unat (last - a) div 4096))"

text \<open>The table \<^verbatim>\<open>kmap\<close>: virtual address, physical start and end, permissions.\<close>

definition kmap :: "u32 \<Rightarrow> (u32 \<times> u32 \<times> u32 \<times> u32) list" where
  "kmap data =
     [(KERNBASE, 0, EXTMEM, PTE_W),
      (KERNLINK, v2p KERNLINK, v2p data, 0),
      (data, v2p data, PHYSTOP, PTE_W),
      (DEVSPACE, DEVSPACE, 0, PTE_W)]"

fun setupkvm_loop :: "u32 \<Rightarrow> (u32 \<times> u32 \<times> u32 \<times> u32) list \<Rightarrow> ('z kmst_scheme, u32) kop" where
  "setupkvm_loop pd [] = ret pd"
| "setupkvm_loop pd ((virt, phys_start, phys_end, perm) # ks) =
     bd (mappages pd virt (phys_end - phys_start) phys_start perm) (\<lambda>r.
     if r < 0 then ret 0 else setupkvm_loop pd ks)"

definition setupkvm :: "('z vmst_scheme, u32) kop" where
  "setupkvm =
     bd kalloc (\<lambda>pd.
     if pd = 0 then ret 0
     else
       bd (zero_page pd) (\<lambda>_.
       if p2v PHYSTOP > DEVSPACE then panic ''PHYSTOP too high''
       else bd (gets kdata) (\<lambda>d. setupkvm_loop pd (kmap d))))"

definition kvmalloc :: "('z vmst_scheme, unit) kop" where
  "kvmalloc =
     bd setupkvm (\<lambda>d.
     bd (modify (\<lambda>s. s\<lparr>kpgdir := d\<rparr>)) (\<lambda>_.
     switchkvm))"

section \<open>User memory\<close>

text \<open>Bytes copied from a kernel object into memory.\<close>

definition store_bytes :: "mem \<Rightarrow> u32 \<Rightarrow> bytes \<Rightarrow> mem" where
  "store_bytes m a bs = (\<lambda>x. if unat (x - a) < length bs then bs ! unat (x - a) else m x)"

definition inituvm :: "u32 \<Rightarrow> bytes \<Rightarrow> ('z kmst_scheme, unit) kop" where
  "inituvm pd init =
     (if 4096 \<le> length init then panic ''inituvm: more than a page''
      else
        bd kalloc (\<lambda>p.
        bd (zero_page p) (\<lambda>_.
        bd (mappages pd 0 PGSIZE (v2p p) (PTE_W OR PTE_U)) (\<lambda>_.
        modify (\<lambda>s. s\<lparr>kmem_mem := store_bytes (kmem_mem s) p init\<rparr>)))))"

text \<open>\<open>i\<close> runs from 0 in steps of a page; sizes are at most \<^verbatim>\<open>KERNBASE\<close>, so it does not wrap around.\<close>

function loaduvm_loop :: "u32 \<Rightarrow> u32 \<Rightarrow> nat \<Rightarrow> u32 \<Rightarrow> nat \<Rightarrow> nat \<Rightarrow> ('z fsst_scheme, int) kop" where
  "loaduvm_loop pd addr ip offset szb i =
     (if i < szb then
        bd (walkpgdir pd (addr + of_nat i) False) (\<lambda>pte.
        if pte = 0 then panic ''loaduvm: address should exist''
        else
          bd (ldmem pte) (\<lambda>v.
          let n = min (szb - i) 4096 in
          bd (readi ip (offset + of_nat i) (of_nat n)) (\<lambda>r.
          case r of
            None \<Rightarrow> ret (- 1)
          | Some d \<Rightarrow>
              bd (modify (\<lambda>s. s\<lparr>kmem_mem := store_bytes (kmem_mem s) (p2v (PTE_ADDR v)) d\<rparr>)) (\<lambda>_.
              if length d \<noteq> n then ret (- 1)
              else loaduvm_loop pd addr ip offset szb (i + 4096)))))
      else ret 0)"
  by pat_completeness auto
termination
  by (relation "measure (\<lambda>(pd, addr, ip, offset, szb, i). szb - i)") auto

definition loaduvm :: "u32 \<Rightarrow> u32 \<Rightarrow> nat \<Rightarrow> u32 \<Rightarrow> u32 \<Rightarrow> ('z fsst_scheme, int) kop" where
  "loaduvm pd addr ip offset szb =
     (if unat addr mod 4096 \<noteq> 0 then panic ''loaduvm: addr must be page aligned''
      else loaduvm_loop pd addr ip offset (unat szb) 0)"

text \<open>
  A missing page table makes the loop of \<^verbatim>\<open>deallocuvm\<close> go on 1024 pages further on. Sizes are at most
  \<^verbatim>\<open>KERNBASE\<close>, so the address does not wrap around.
\<close>

function deallocuvm_loop :: "u32 \<Rightarrow> nat \<Rightarrow> nat \<Rightarrow> ('z kmst_scheme, unit) kop" where
  "deallocuvm_loop pd oldsz a =
     (if a < oldsz then
        bd (walkpgdir pd (of_nat a) False) (\<lambda>pte.
        if pte = 0 then deallocuvm_loop pd oldsz (a + (NPTENTRIES - 1) * 4096 + 4096)
        else
          bd (ldmem pte) (\<lambda>v.
          bd (whenk (v AND PTE_P \<noteq> 0)
               (if PTE_ADDR v = 0 then panic ''kfree''
                else bd (kfree (p2v (PTE_ADDR v))) (\<lambda>_. stmem pte 0))) (\<lambda>_.
          deallocuvm_loop pd oldsz (a + 4096))))
      else ret ())"
  by pat_completeness auto
termination
  by (relation "measure (\<lambda>(pd, oldsz, a). oldsz - a)") auto

definition deallocuvm :: "u32 \<Rightarrow> u32 \<Rightarrow> u32 \<Rightarrow> ('z kmst_scheme, u32) kop" where
  "deallocuvm pd oldsz newsz =
     (if newsz \<ge> oldsz then ret oldsz
      else
        bd (deallocuvm_loop pd (unat oldsz) (unat (PGROUNDUP newsz))) (\<lambda>_.
        ret newsz))"

function allocuvm_loop :: "u32 \<Rightarrow> u32 \<Rightarrow> u32 \<Rightarrow> nat \<Rightarrow> ('z consst_scheme, u32) kop" where
  "allocuvm_loop pd oldsz newsz a =
     (if a < unat newsz then
        bd kalloc (\<lambda>p.
        if p = 0 then
          bd (cprintf (Some (ascii ''allocuvm out of memory'' @ [NL])) []) (\<lambda>_.
          bd (deallocuvm pd newsz oldsz) (\<lambda>_.
          ret 0))
        else
          bd (zero_page p) (\<lambda>_.
          bd (mappages pd (of_nat a) PGSIZE (v2p p) (PTE_W OR PTE_U)) (\<lambda>_.
          allocuvm_loop pd oldsz newsz (a + 4096))))
      else ret newsz)"
  by pat_completeness auto
termination
  by (relation "measure (\<lambda>(pd, oldsz, newsz, a). unat newsz - a)") auto

definition allocuvm :: "u32 \<Rightarrow> u32 \<Rightarrow> u32 \<Rightarrow> ('z consst_scheme, u32) kop" where
  "allocuvm pd oldsz newsz =
     (if newsz \<ge> KERNBASE then ret 0
      else if newsz < oldsz then ret oldsz
      else allocuvm_loop pd oldsz newsz (unat (PGROUNDUP oldsz)))"

definition freevm :: "u32 \<Rightarrow> ('z kmst_scheme, unit) kop" where
  "freevm pd =
     (if pd = 0 then panic ''freevm: no pgdir''
      else
        bd (deallocuvm pd KERNBASE 0) (\<lambda>_.
        bd (foreach [0..<NPDENTRIES] (\<lambda>i.
              bd (ldmem (pd + 4 * of_nat i)) (\<lambda>pde.
              whenk (pde AND PTE_P \<noteq> 0) (kfree (p2v (PTE_ADDR pde)))))) (\<lambda>_.
        kfree pd)))"

definition clearpteu :: "u32 \<Rightarrow> u32 \<Rightarrow> ('z kmst_scheme, unit) kop" where
  "clearpteu pd uva =
     bd (walkpgdir pd uva False) (\<lambda>pte.
     if pte = 0 then panic ''clearpteu''
     else bd (ldmem pte) (\<lambda>v. stmem pte (v AND NOT PTE_U)))"

function copyuvm_loop :: "u32 \<Rightarrow> u32 \<Rightarrow> nat \<Rightarrow> nat \<Rightarrow> ('z kmst_scheme, u32) kop" where
  "copyuvm_loop pd d szb i =
     (if i < szb then
        bd (walkpgdir pd (of_nat i) False) (\<lambda>pte.
        if pte = 0 then panic ''copyuvm: pte should exist''
        else
          bd (ldmem pte) (\<lambda>v.
          if v AND PTE_P = 0 then panic ''copyuvm: page not present''
          else
            bd kalloc (\<lambda>p.
            if p = 0 then bd (freevm d) (\<lambda>_. ret 0)
            else
              bd (modify (\<lambda>s. s\<lparr>kmem_mem := memmove (kmem_mem s) p (p2v (PTE_ADDR v)) PGSIZE\<rparr>)) (\<lambda>_.
              bd (mappages d (of_nat i) PGSIZE (v2p p) (PTE_FLAGS v)) (\<lambda>r.
              if r < 0 then bd (freevm d) (\<lambda>_. ret 0)
              else copyuvm_loop pd d szb (i + 4096))))))
      else ret d)"
  by pat_completeness auto
termination
  by (relation "measure (\<lambda>(pd, d, szb, i). szb - i)") auto

definition copyuvm :: "u32 \<Rightarrow> u32 \<Rightarrow> ('z vmst_scheme, u32) kop" where
  "copyuvm pd szb =
     bd setupkvm (\<lambda>d.
     if d = 0 then ret 0 else copyuvm_loop pd d (unat szb) 0)"

definition uva2ka :: "u32 \<Rightarrow> u32 \<Rightarrow> ('z kmst_scheme, u32) kop" where
  "uva2ka pd uva =
     bd (walkpgdir pd uva False) (\<lambda>pte.
     bd (ldmem pte) (\<lambda>v.
     if v AND PTE_P = 0 then ret 0
     else if v AND PTE_U = 0 then ret 0
     else ret (p2v (PTE_ADDR v))))"

lemma page_rest_pos: "0 < unat (PGSIZE - (va - PGROUNDDOWN va))"
proof -
  have "va - PGROUNDDOWN va = take_bit 12 va" by (simp add: PGROUNDDOWN_def and_not_mask)
  then have "unat (va - PGROUNDDOWN va) < 4096" by (simp add: unat_take_bit)
  then have "unat (va - PGROUNDDOWN va) \<noteq> unat PGSIZE" by (simp add: PGSIZE_def)
  then have "PGSIZE - (va - PGROUNDDOWN va) \<noteq> 0" by (metis eq_iff_diff_eq_0)
  then show ?thesis by (simp only: unat_gt_0 not_False_eq_True)
qed

function copyout :: "u32 \<Rightarrow> u32 \<Rightarrow> bytes \<Rightarrow> ('z kmst_scheme, int) kop" where
  "copyout pd va p =
     (if p = [] then ret 0
      else
        let va0 = PGROUNDDOWN va in
        bd (uva2ka pd va0) (\<lambda>pa0.
        if pa0 = 0 then ret (- 1)
        else
          let n = min (length p) (unat (PGSIZE - (va - va0))) in
          bd (modify (\<lambda>s. s\<lparr>kmem_mem := store_bytes (kmem_mem s) (pa0 + (va - va0)) (take n p)\<rparr>)) (\<lambda>_.
          copyout pd (va0 + PGSIZE) (drop n p))))"
  by pat_completeness auto
termination
proof (relation "measure (\<lambda>(pd, va, p). length p)", goal_cases)
  case 1
  show ?case by simp
next
  case (2 pd va p x xa xb xc)
  then show ?case using page_rest_pos [of va] by simp
qed

declare loaduvm_loop.simps [simp del] deallocuvm_loop.simps [simp del] allocuvm_loop.simps [simp del]
  copyuvm_loop.simps [simp del] copyout.simps [simp del]

section \<open>The paging hardware\<close>

text \<open>
  Translation of a virtual address by the processor in kernel mode: \<open>None\<close> is a page fault. System
  calls read and write the memory of the current process through it.
\<close>

definition translate :: "mem \<Rightarrow> u32 \<Rightarrow> u32 \<Rightarrow> u32 option" where
  "translate m pd va =
     (let pde = load32 m (pde_at pd va) in
      if pde AND PTE_P = 0 then None
      else
        let pte = load32 m (pte_at (p2v (PTE_ADDR pde)) va) in
        if pte AND PTE_P = 0 then None
        else Some (p2v (PTE_ADDR pte) + (va AND 0xFFF)))"

definition cur_pgdir :: "'z kmst_scheme \<Rightarrow> u32" where
  "cur_pgdir s = p2v (cr3 s)"

definition uload :: "u32 \<Rightarrow> ('z kmst_scheme, u8) kop" where
  "uload va s = (case translate (kmem_mem s) (cur_pgdir s) va of
     None \<Rightarrow> Fault
   | Some a \<Rightarrow> Done (kmem_mem s a) s)"

definition ustore :: "u32 \<Rightarrow> u8 \<Rightarrow> ('z kmst_scheme, unit) kop" where
  "ustore va c s = (case translate (kmem_mem s) (cur_pgdir s) va of
     None \<Rightarrow> Fault
   | Some a \<Rightarrow> Done () (s\<lparr>kmem_mem := (kmem_mem s)(a := c)\<rparr>))"

end
