(* ===== verification/Proc.thy ===== *)
theory Proc
  imports Vm
begin

text \<open>
  The life of a process in \<^verbatim>\<open>proc.c\<close>: allocation, the first process, growing, \<^verbatim>\<open>fork\<close>, \<^verbatim>\<open>exit\<close> and
  \<^verbatim>\<open>wait\<close>. A process pointer is an index into the process table; the trap frame and the saved
  context, which the code keeps on the kernel stack, are fields of the process.
\<close>

section \<open>Definitions\<close>

text \<open>\<open>first\<close> is the static variable of \<^verbatim>\<open>forkret\<close>.\<close>

record procst = vmst +
  first :: bool

definition sizeof_trapframe :: u32 where "sizeof_trapframe = 76"
definition sizeof_context :: u32 where "sizeof_context = 20"

text \<open>The initial stack: room for the trap frame, the return address \<^verbatim>\<open>trapret\<close>, a context that starts at \<^verbatim>\<open>forkret\<close>.\<close>

definition init_kstack :: "nat \<Rightarrow> ('z vmst_scheme, unit) kop" where
  "init_kstack i =
     bd (gets (\<lambda>s. kstack (ptable s ! i))) (\<lambda>stack.
     let sp = stack + of_nat KSTACKSIZE - sizeof_trapframe - 4 in
     bd (gets trapret_addr) (\<lambda>a.
     bd (stmem sp a) (\<lambda>_.
     bd (gets forkret_addr) (\<lambda>e.
     modify (upd_proc i (\<lambda>p. p\<lparr>ctx := \<lparr>cx_edi = 0, cx_esi = 0, cx_ebx = 0, cx_ebp = 0, cx_eip = e\<rparr>\<rparr>))))))"

definition allocproc :: "('z vmst_scheme, nat option) kop" where
  "allocproc =
     bd (acquire LPtable) (\<lambda>_.
     bd (gets (\<lambda>s. find_proc (\<lambda>p. state p = UNUSED) 0 (ptable s))) (\<lambda>r.
     case r of
       None \<Rightarrow> bd (release LPtable) (\<lambda>_. ret None)
     | Some i \<Rightarrow>
         bd (modify (upd_proc i (\<lambda>p. p\<lparr>state := EMBRYO\<rparr>))) (\<lambda>_.
         bd (gets nextpid) (\<lambda>n.
         bd (modify (\<lambda>s. upd_proc i (\<lambda>p. p\<lparr>pid := n\<rparr>) (s\<lparr>nextpid := wrap32 (n + 1)\<rparr>))) (\<lambda>_.
         bd (release LPtable) (\<lambda>_.
         bd kalloc (\<lambda>k.
         bd (modify (upd_proc i (\<lambda>p. p\<lparr>kstack := k\<rparr>))) (\<lambda>_.
         if k = 0 then
           bd (modify (upd_proc i (\<lambda>p. p\<lparr>state := UNUSED\<rparr>))) (\<lambda>_.
           ret None)
         else
           bd (init_kstack i) (\<lambda>_.
           ret (Some i))))))))))"

text \<open>\<^verbatim>\<open>safestrcpy\<close> into an array of a structure.\<close>

definition safestrcpy_list :: "bytes \<Rightarrow> bytes \<Rightarrow> nat \<Rightarrow> bytes" where
  "safestrcpy_list d t n = (if n = 0 then d else blit d 0 (takeWhile (\<lambda>c. c \<noteq> 0) (take (n - 1) t) @ [0]))"

definition SEG_UCODE :: u16 where "SEG_UCODE = 4"
definition SEG_UDATA :: u16 where "SEG_UDATA = 5"
definition DPL_USER :: u16 where "DPL_USER = 3"
definition FL_IF :: u32 where "FL_IF = 0x200"

definition init_tf :: trapframe where
  "init_tf = \<lparr>tf_edi = 0, tf_esi = 0, tf_ebp = 0, tf_oesp = 0, tf_ebx = 0, tf_edx = 0, tf_ecx = 0,
     tf_eax = 0, tf_gs = 0, tf_fs = 0, tf_es = push_bit 3 SEG_UDATA OR DPL_USER,
     tf_ds = push_bit 3 SEG_UDATA OR DPL_USER, tf_trapno = 0, tf_err = 0, tf_eip = 0,
     tf_cs = push_bit 3 SEG_UCODE OR DPL_USER, tf_eflags = FL_IF, tf_esp = PGSIZE,
     tf_ss = push_bit 3 SEG_UDATA OR DPL_USER\<rparr>"

definition userinit :: "('z vmst_scheme, unit) kop" where
  "userinit =
     bd allocproc (\<lambda>r.
     bd (modify (\<lambda>s. s\<lparr>initproc := r\<rparr>)) (\<lambda>_.
     case r of
       None \<Rightarrow> (\<lambda>_. Fault)
     | Some i \<Rightarrow>
         bd setupkvm (\<lambda>d.
         bd (modify (upd_proc i (\<lambda>p. p\<lparr>pgdir := d\<rparr>))) (\<lambda>_.
         if d = 0 then panic ''userinit: out of memory?''
         else
           bd (gets initcode) (\<lambda>code.
           bd (inituvm d code) (\<lambda>_.
           bd (modify (upd_proc i (\<lambda>p. p\<lparr>sz := PGSIZE, tf := init_tf,
                 pname := safestrcpy_list (pname p) (ascii ''initcode'') 16\<rparr>))) (\<lambda>_.
           bd (namei [SLASH]) (\<lambda>root.
           modify (upd_proc i (\<lambda>p. p\<lparr>cwd := root, state := RUNNABLE\<rparr>))))))))))"

text \<open>The current process; \<^verbatim>\<open>proc\<close> is not null in the calls below.\<close>

definition curidx :: "('z ptst_scheme, nat) kop" where
  "curidx s = (case curproc s of None \<Rightarrow> Fault | Some i \<Rightarrow> if i < length (ptable s) then Done i s else Fault)"

definition curget :: "(proc \<Rightarrow> 'a) \<Rightarrow> ('z ptst_scheme, 'a) kop" where
  "curget f = bd curidx (\<lambda>i. gets (\<lambda>s. f (ptable s ! i)))"

definition curmod :: "(proc \<Rightarrow> proc) \<Rightarrow> ('z ptst_scheme, unit) kop" where
  "curmod f = bd curidx (\<lambda>i. modify (upd_proc i f))"

definition growproc :: "int \<Rightarrow> ('z consst_scheme, int) kop" where
  "growproc n =
     bd (curget id) (\<lambda>p.
     if n > 0 then
       bd (allocuvm (pgdir p) (sz p) (sz p + word_of_int n)) (\<lambda>new.
       if new = 0 then ret (- 1)
       else bd (curmod (\<lambda>p. p\<lparr>sz := new\<rparr>)) (\<lambda>_. bd (bd curidx switchuvm) (\<lambda>_. ret 0)))
     else if n < 0 then
       bd (deallocuvm (pgdir p) (sz p) (sz p + word_of_int n)) (\<lambda>new.
       if new = 0 then ret (- 1)
       else bd (curmod (\<lambda>p. p\<lparr>sz := new\<rparr>)) (\<lambda>_. bd (bd curidx switchuvm) (\<lambda>_. ret 0)))
     else bd (bd curidx switchuvm) (\<lambda>_. ret 0))"

definition fork_file :: "nat \<Rightarrow> nat \<Rightarrow> ('z filest_scheme, unit) kop" where
  "fork_file np i =
     bd (curget (\<lambda>p. ofile p ! i)) (\<lambda>f.
     case f of
       None \<Rightarrow> ret ()
     | Some f \<Rightarrow>
         bd (filedup f) (\<lambda>f'.
         modify (upd_proc np (\<lambda>p. p\<lparr>ofile := (ofile p)[i := Some f']\<rparr>))))"

definition fork :: "('z vmst_scheme, int) kop" where
  "fork =
     bd allocproc (\<lambda>r.
     case r of
       None \<Rightarrow> ret (- 1)
     | Some np \<Rightarrow>
         bd (curget id) (\<lambda>p.
         bd (copyuvm (pgdir p) (sz p)) (\<lambda>d.
         bd (modify (upd_proc np (\<lambda>q. q\<lparr>pgdir := d\<rparr>))) (\<lambda>_.
         if d = 0 then
           bd (bd (gets (\<lambda>s. kstack (ptable s ! np))) kfree) (\<lambda>_.
           bd (modify (upd_proc np (\<lambda>q. q\<lparr>kstack := 0, state := UNUSED\<rparr>))) (\<lambda>_.
           ret (- 1)))
         else
           bd curidx (\<lambda>me.
           bd (modify (upd_proc np (\<lambda>q. q\<lparr>sz := sz p, parent := Some me, tf := (tf p)\<lparr>tf_eax := 0\<rparr>\<rparr>))) (\<lambda>_.
           bd (foreach [0..<NOFILE] (fork_file np)) (\<lambda>_.
           bd (bd cur_cwd idup) (\<lambda>c.
           bd (modify (upd_proc np (\<lambda>q. q\<lparr>cwd := Some c,
                 pname := safestrcpy_list (pname q) (pname p) 16\<rparr>))) (\<lambda>_.
           bd (gets (\<lambda>s. pid (ptable s ! np))) (\<lambda>n.
           bd (acquire LPtable) (\<lambda>_.
           bd (modify (upd_proc np (\<lambda>q. q\<lparr>state := RUNNABLE\<rparr>))) (\<lambda>_.
           bd (release LPtable) (\<lambda>_.
           ret n)))))))))))))"

definition exit_file :: "nat \<Rightarrow> ('z filest_scheme, unit) kop" where
  "exit_file fd =
     bd (curget (\<lambda>p. ofile p ! fd)) (\<lambda>f.
     case f of
       None \<Rightarrow> ret ()
     | Some f \<Rightarrow>
         bd (fileclose f) (\<lambda>_.
         curmod (\<lambda>p. p\<lparr>ofile := (ofile p)[fd := None]\<rparr>)))"

text \<open>\<^verbatim>\<open>wakeup1(p)\<close> for a pointer to a process; no process sleeps on the null pointer, which wakes nobody.\<close>

definition wake_proc :: "nat option \<Rightarrow> ('z ptst_scheme, unit) kop" where
  "wake_proc p = (case p of None \<Rightarrow> ret () | Some i \<Rightarrow> wakeup1 (ChanProc i))"

definition exit_child :: "nat \<Rightarrow> nat \<Rightarrow> ('z ptst_scheme, unit) kop" where
  "exit_child me i =
     bd (gets (\<lambda>s. ptable s ! i)) (\<lambda>p.
     whenk (parent p = Some me)
       (bd (gets initproc) (\<lambda>ip.
        bd (modify (upd_proc i (\<lambda>p. p\<lparr>parent := ip\<rparr>))) (\<lambda>_.
        whenk (state p = ZOMBIE) (wake_proc ip)))))"

text \<open>The part of \<^verbatim>\<open>exit\<close> under \<^verbatim>\<open>ptable.lock\<close>.\<close>

definition exit_finish :: "('z ptst_scheme, unit) kop" where
  "exit_finish =
     bd (curget parent) (\<lambda>up.
     bd (wake_proc up) (\<lambda>_.
     bd curidx (\<lambda>me.
     bd (bd (gets (\<lambda>s. length (ptable s))) (\<lambda>n. foreach [0..<n] (exit_child me))) (\<lambda>_.
     bd (curmod (\<lambda>p. p\<lparr>state := ZOMBIE\<rparr>)) (\<lambda>_.
     bd sched (\<lambda>_.
     panic ''zombie exit''))))))"

definition exit :: "('z filest_scheme, unit) kop" where
  "exit =
     bd (gets (\<lambda>s. curproc s = initproc s)) (\<lambda>is_init.
     if is_init then panic ''init exiting''
     else
       bd (foreach [0..<NOFILE] exit_file) (\<lambda>_.
       bd begin_op (\<lambda>_.
       bd (bd cur_cwd iput) (\<lambda>_.
       bd end_op (\<lambda>_.
       bd (curmod (\<lambda>p. p\<lparr>cwd := None\<rparr>)) (\<lambda>_.
       bd (acquire LPtable) (\<lambda>_.
       exit_finish)))))))"

text \<open>A zombie child is freed; \<open>wait_loop\<close> is one pass of the loop, entered with the lock held.\<close>

definition wait_reap :: "nat \<Rightarrow> ('z kmst_scheme, int) kop" where
  "wait_reap i =
     bd (gets (\<lambda>s. ptable s ! i)) (\<lambda>p.
     bd (kfree (kstack p)) (\<lambda>_.
     bd (modify (upd_proc i (\<lambda>p. p\<lparr>kstack := 0\<rparr>))) (\<lambda>_.
     bd (freevm (pgdir p)) (\<lambda>_.
     bd (modify (upd_proc i (\<lambda>p. p\<lparr>state := UNUSED, pid := 0, parent := None,
           pname := (pname p)[0 := 0], killed := False\<rparr>))) (\<lambda>_.
     bd (release LPtable) (\<lambda>_.
     ret (pid p)))))))"

definition wait_loop :: "('z kmst_scheme, int) kop" where
  "wait_loop =
     bd curidx (\<lambda>me.
     bd (gets (\<lambda>s. find_proc (\<lambda>p. parent p = Some me \<and> state p = ZOMBIE) 0 (ptable s))) (\<lambda>z.
     case z of
       Some i \<Rightarrow> wait_reap i
     | None \<Rightarrow>
         bd (gets (\<lambda>s. \<exists>p \<in> set (ptable s). parent p = Some me)) (\<lambda>havekids.
         bd (curget killed) (\<lambda>k.
         if \<not> havekids \<or> k then bd (release LPtable) (\<lambda>_. ret (- 1))
         else bd (sleep (ChanProc me) LPtable) (\<lambda>_ _. Fault)))))"

definition wait :: "('z kmst_scheme, int) kop" where
  "wait = bd (acquire LPtable) (\<lambda>_. wait_loop)"

definition wait_resume :: "('z kmst_scheme, int) kop" where
  "wait_resume = bd (sleep_resume LPtable) (\<lambda>_. wait_loop)"

definition forkret :: "('z procst_scheme, unit) kop" where
  "forkret =
     bd (release LPtable) (\<lambda>_.
     bd (gets first) (\<lambda>f.
     whenk f
       (bd (modify (\<lambda>s. s\<lparr>first := False\<rparr>)) (\<lambda>_.
        bd (iinit ROOTDEV) (\<lambda>_.
        initlog ROOTDEV)))))"

end
