(* ===== verification/Exec.thy ===== *)
theory Exec
  imports Proc
begin

text \<open>
  \<^verbatim>\<open>exec.c\<close> and \<^verbatim>\<open>elf.h\<close>: loading a program. The labels of the C function are operations of their own:
  \<open>exec_load\<close> is the loop over the program headers, \<open>exec_args\<close> the loop that pushes the arguments and \<open>exec_bad\<close>
  the common error exit.
\<close>

section \<open>Definitions\<close>

definition MAXARG :: nat where "MAXARG = 32"

definition ELF_MAGIC :: u32 where "ELF_MAGIC = 0x464C457F"
definition ELF_PROG_LOAD :: u32 where "ELF_PROG_LOAD = 1"

record elfhdr =
  e_magic :: u32
  e_entry :: u32
  e_phoff :: u32
  e_phnum :: u16

record proghdr =
  ph_type :: u32
  ph_off :: u32
  ph_vaddr :: u32
  ph_filesz :: u32
  ph_memsz :: u32

text \<open>The fields the loader uses, at their offsets in the structures of 52 and 32 bytes.\<close>

definition get_elfhdr :: "bytes \<Rightarrow> elfhdr" where
  "get_elfhdr d = \<lparr>e_magic = get32 d 0, e_entry = get32 d 24, e_phoff = get32 d 28, e_phnum = get16 d 44\<rparr>"

definition get_proghdr :: "bytes \<Rightarrow> proghdr" where
  "get_proghdr d = \<lparr>ph_type = get32 d 0, ph_off = get32 d 4, ph_vaddr = get32 d 8, ph_filesz = get32 d 16,
     ph_memsz = get32 d 20\<rparr>"

definition exec_bad :: "u32 \<Rightarrow> nat option \<Rightarrow> ('z filest_scheme, int) kop" where
  "exec_bad pd ip =
     bd (whenk (pd \<noteq> 0) (freevm pd)) (\<lambda>_.
     bd (case ip of None \<Rightarrow> ret () | Some i \<Rightarrow> bd (iunlockput i) (\<lambda>_. end_op)) (\<lambda>_.
     ret (- 1)))"

text \<open>\<open>k\<close> program headers are left; \<open>None\<close> stands for the jump to \<^verbatim>\<open>bad\<close>.\<close>

fun exec_load :: "nat \<Rightarrow> u32 \<Rightarrow> u32 \<Rightarrow> nat \<Rightarrow> u32 \<Rightarrow> ('z fsst_scheme, u32 option) kop" where
  "exec_load ip pd off 0 usz = ret (Some usz)"
| "exec_load ip pd off (Suc k) usz =
     bd (readi ip off 32) (\<lambda>r.
     case r of
       None \<Rightarrow> ret None
     | Some d \<Rightarrow>
         if length d \<noteq> 32 then ret None
         else
           let ph = get_proghdr d in
           if ph_type ph \<noteq> ELF_PROG_LOAD then exec_load ip pd (off + 32) k usz
           else if ph_memsz ph < ph_filesz ph then ret None
           else
             bd (allocuvm pd usz (ph_vaddr ph + ph_memsz ph)) (\<lambda>usz.
             if usz = 0 then ret None
             else
               bd (loaduvm pd (ph_vaddr ph) ip (ph_off ph) (ph_filesz ph)) (\<lambda>r.
               if r < 0 then ret None else exec_load ip pd (off + 32) k usz)))"

text \<open>The arguments still to be pushed; the result is the stack pointer and the argument pointers.\<close>

fun exec_args :: "u32 \<Rightarrow> bytes list \<Rightarrow> nat \<Rightarrow> u32 \<Rightarrow> u32 list \<Rightarrow> ('z kmst_scheme, (u32 \<times> u32 list) option) kop" where
  "exec_args pd [] argc sp ustack = ret (Some (sp, ustack))"
| "exec_args pd (a # as) argc sp ustack =
     (if MAXARG \<le> argc then ret None
      else
        let sp = (sp - (of_nat (length a) + 1)) AND NOT 3 in
        bd (copyout pd sp (a @ [0])) (\<lambda>r.
        if r < 0 then ret None
        else exec_args pd as (Suc argc) sp (ustack @ [sp])))"

fun path_tail :: "bytes \<Rightarrow> bytes \<Rightarrow> bytes" where
  "path_tail lst [] = lst"
| "path_tail lst (c # cs) =
     (if c = 0 then lst else path_tail (if c = SLASH then cs else lst) cs)"

definition ustack_bytes :: "u32 \<Rightarrow> u32 list \<Rightarrow> bytes" where
  "ustack_bytes sp ptrs =
     concat (map le32 ([0xFFFFFFFF, of_nat (length ptrs), sp - (of_nat (length ptrs) + 1) * 4] @ ptrs @ [0]))"

definition exec_commit :: "bytes \<Rightarrow> u32 \<Rightarrow> u32 \<Rightarrow> u32 \<Rightarrow> u32 \<Rightarrow> ('z kmst_scheme, int) kop" where
  "exec_commit path pd usz entry sp =
     bd (curmod (\<lambda>p. p\<lparr>pname := safestrcpy_list (pname p) (path_tail path path) 16\<rparr>)) (\<lambda>_.
     bd (curget pgdir) (\<lambda>oldpd.
     bd (curmod (\<lambda>p. p\<lparr>pgdir := pd, sz := usz, tf := (tf p)\<lparr>tf_eip := entry, tf_esp := sp\<rparr>\<rparr>)) (\<lambda>_.
     bd (bd curidx switchuvm) (\<lambda>_.
     bd (freevm oldpd) (\<lambda>_.
     ret 0)))))"

text \<open>From the label after the program is loaded: the stack, its contents, and the new image.\<close>

definition exec_stack :: "bytes \<Rightarrow> bytes list \<Rightarrow> u32 \<Rightarrow> u32 \<Rightarrow> u32 \<Rightarrow> ('z filest_scheme, int) kop" where
  "exec_stack path argv pd usz entry =
     bd (allocuvm pd (PGROUNDUP usz) (PGROUNDUP usz + 2 * PGSIZE)) (\<lambda>usz.
     if usz = 0 then exec_bad pd None
     else
       bd (clearpteu pd (usz - 2 * PGSIZE)) (\<lambda>_.
       bd (exec_args pd argv 0 usz []) (\<lambda>r.
       case r of
         None \<Rightarrow> exec_bad pd None
       | Some (sp, ptrs) \<Rightarrow>
           let sp' = sp - (3 + of_nat (length ptrs) + 1) * 4 in
           bd (copyout pd sp' (ustack_bytes sp ptrs)) (\<lambda>r.
           if r < 0 then exec_bad pd None
           else exec_commit path pd usz entry sp'))))"

text \<open>
  The test of the header's size compares \<^verbatim>\<open>readi\<close>'s result as an unsigned number, so the error result -1
  passes it and the uninitialised header is used, which the model makes a fault.
\<close>

definition exec :: "bytes \<Rightarrow> bytes list \<Rightarrow> ('z vmst_scheme, int) kop" where
  "exec path argv =
     bd begin_op (\<lambda>_.
     bd (namei path) (\<lambda>r.
     case r of
       None \<Rightarrow> bd end_op (\<lambda>_. ret (- 1))
     | Some ip \<Rightarrow>
         bd (ilock ip) (\<lambda>_.
         bd (readi ip 0 52) (\<lambda>r.
         case r of
           None \<Rightarrow> (\<lambda>_. Fault)
         | Some d \<Rightarrow>
             if length d < 52 then exec_bad 0 (Some ip)
             else
               let elf = get_elfhdr d in
               if e_magic elf \<noteq> ELF_MAGIC then exec_bad 0 (Some ip)
               else
                 bd setupkvm (\<lambda>pd.
                 if pd = 0 then exec_bad 0 (Some ip)
                 else
                   bd (exec_load ip pd (e_phoff elf) (unat (e_phnum elf)) 0) (\<lambda>r.
                   case r of
                     None \<Rightarrow> exec_bad pd (Some ip)
                   | Some usz \<Rightarrow>
                       bd (iunlockput ip) (\<lambda>_.
                       bd end_op (\<lambda>_.
                       exec_stack path argv pd usz (e_entry elf)))))))))"

end
