(* ===== verification/Syscall.thy ===== *)
theory Syscall
  imports Exec
begin

text \<open>
  \<^verbatim>\<open>syscall.c\<close>, \<^verbatim>\<open>sysproc.c\<close> and \<^verbatim>\<open>sysfile.c\<close>: fetching arguments from the user stack, the system calls, and the
  dispatcher. User memory is read and written through the page tables of the current process.
  Results are the integers the C functions return; a null pointer is \<open>None\<close>.
\<close>

record sysst = procst +
  ticks :: u32

section \<open>User memory\<close>

fun uloads :: "u32 \<Rightarrow> nat \<Rightarrow> ('z kmst_scheme, bytes) kop" where
  "uloads va 0 = ret []"
| "uloads va (Suc n) = bd (uload va) (\<lambda>c. bd (uloads (va + 1) n) (\<lambda>cs. ret (c # cs)))"

fun ustores :: "u32 \<Rightarrow> bytes \<Rightarrow> ('z kmst_scheme, unit) kop" where
  "ustores va [] = ret ()"
| "ustores va (c # cs) = bd (ustore va c) (\<lambda>_. ustores (va + 1) cs)"

section \<open>Arguments\<close>

definition fetchint :: "u32 \<Rightarrow> ('z kmst_scheme, u32 option) kop" where
  "fetchint addr =
     bd (curget sz) (\<lambda>lim.
     if addr \<ge> lim \<or> addr + 4 > lim then ret None
     else bd (uloads addr 4) (\<lambda>d. ret (Some (of_le32 d))))"

text \<open>The string at \<^verbatim>\<open>s\<close>, of which \<open>k\<close> bytes lie below the end of the process.\<close>

fun fetchstr_loop :: "u32 \<Rightarrow> nat \<Rightarrow> bytes \<Rightarrow> ('z kmst_scheme, bytes option) kop" where
  "fetchstr_loop s 0 acc = ret None"
| "fetchstr_loop s (Suc k) acc =
     bd (uload s) (\<lambda>c.
     if c = 0 then ret (Some acc) else fetchstr_loop (s + 1) k (acc @ [c]))"

definition fetchstr :: "u32 \<Rightarrow> ('z kmst_scheme, bytes option) kop" where
  "fetchstr addr =
     bd (curget sz) (\<lambda>lim.
     if addr \<ge> lim then ret None else fetchstr_loop addr (unat lim - unat addr) [])"

definition argint :: "nat \<Rightarrow> ('z kmst_scheme, u32 option) kop" where
  "argint n = bd (curget (\<lambda>p. tf_esp (tf p))) (\<lambda>esp. fetchint (esp + 4 + 4 * of_nat n))"

definition argptr :: "nat \<Rightarrow> u32 \<Rightarrow> ('z kmst_scheme, u32 option) kop" where
  "argptr n len =
     bd (argint n) (\<lambda>r.
     case r of
       None \<Rightarrow> ret None
     | Some i \<Rightarrow>
         bd (curget sz) (\<lambda>lim.
         if i \<ge> lim \<or> i + len > lim then ret None else ret (Some i)))"

definition argstr :: "nat \<Rightarrow> ('z kmst_scheme, bytes option) kop" where
  "argstr n =
     bd (argint n) (\<lambda>r.
     case r of None \<Rightarrow> ret None | Some addr \<Rightarrow> fetchstr addr)"

section \<open>Process system calls\<close>

definition sys_fork :: "('z vmst_scheme, int) kop" where
  "sys_fork = fork"

definition sys_exit :: "('z filest_scheme, int) kop" where
  "sys_exit = bd exit (\<lambda>_. ret 0)"

definition sys_wait :: "('z kmst_scheme, int) kop" where
  "sys_wait = wait"

definition sys_kill :: "('z kmst_scheme, int) kop" where
  "sys_kill =
     bd (argint 0) (\<lambda>r.
     case r of None \<Rightarrow> ret (- 1) | Some n \<Rightarrow> kill (sint n))"

definition sys_getpid :: "('z ptst_scheme, int) kop" where
  "sys_getpid = curget pid"

definition sys_sbrk :: "('z consst_scheme, int) kop" where
  "sys_sbrk =
     bd (argint 0) (\<lambda>r.
     case r of
       None \<Rightarrow> ret (- 1)
     | Some n \<Rightarrow>
         bd (curget sz) (\<lambda>addr.
         bd (growproc (sint n)) (\<lambda>g.
         if g < 0 then ret (- 1) else ret (sint addr))))"

text \<open>The loop of \<^verbatim>\<open>sys_sleep\<close>, whose comparison is unsigned, with \<^verbatim>\<open>tickslock\<close> held.\<close>

definition sys_sleep_loop :: "u32 \<Rightarrow> u32 \<Rightarrow> ('z sysst_scheme, int) kop" where
  "sys_sleep_loop n ticks0 =
     bd (gets ticks) (\<lambda>t.
     if t - ticks0 < n then
       bd (curget killed) (\<lambda>k.
       if k then bd (release LTicks) (\<lambda>_. ret (- 1))
       else bd (sleep ChanTicks LTicks) (\<lambda>_ _. Fault))
     else bd (release LTicks) (\<lambda>_. ret 0))"

definition sys_sleep :: "('z sysst_scheme, int) kop" where
  "sys_sleep =
     bd (argint 0) (\<lambda>r.
     case r of
       None \<Rightarrow> ret (- 1)
     | Some n \<Rightarrow>
         bd (acquire LTicks) (\<lambda>_.
         bd (gets ticks) (\<lambda>ticks0.
         sys_sleep_loop n ticks0)))"

definition sys_sleep_resume :: "u32 \<Rightarrow> u32 \<Rightarrow> ('z sysst_scheme, int) kop" where
  "sys_sleep_resume n ticks0 = bd (sleep_resume LTicks) (\<lambda>_. sys_sleep_loop n ticks0)"

definition sys_uptime :: "('z sysst_scheme, int) kop" where
  "sys_uptime =
     bd (acquire LTicks) (\<lambda>_.
     bd (gets ticks) (\<lambda>xticks.
     bd (release LTicks) (\<lambda>_.
     ret (sint xticks))))"

section \<open>File system calls\<close>

definition argfd :: "nat \<Rightarrow> ('z kmst_scheme, (nat \<times> nat) option) kop" where
  "argfd n =
     bd (argint n) (\<lambda>r.
     case r of
       None \<Rightarrow> ret None
     | Some w \<Rightarrow>
         if sint w < 0 \<or> int NOFILE \<le> sint w then ret None
         else
           bd (curget (\<lambda>p. ofile p ! unat w)) (\<lambda>f.
           ret (map_option (\<lambda>f. (unat w, f)) f)))"

definition fdalloc :: "nat \<Rightarrow> ('z ptst_scheme, nat option) kop" where
  "fdalloc f =
     bd (curget (\<lambda>p. find (\<lambda>fd. ofile p ! fd = None) [0..<NOFILE])) (\<lambda>r.
     case r of
       None \<Rightarrow> ret None
     | Some fd \<Rightarrow>
         bd (curmod (\<lambda>p. p\<lparr>ofile := (ofile p)[fd := Some f]\<rparr>)) (\<lambda>_.
         ret (Some fd)))"

definition sys_dup :: "('z filest_scheme, int) kop" where
  "sys_dup =
     bd (argfd 0) (\<lambda>r.
     case r of
       None \<Rightarrow> ret (- 1)
     | Some (_, f) \<Rightarrow>
         bd (fdalloc f) (\<lambda>r.
         case r of
           None \<Rightarrow> ret (- 1)
         | Some fd \<Rightarrow> bd (filedup f) (\<lambda>_. ret (int fd))))"

text \<open>The three arguments of \<^verbatim>\<open>read\<close> and \<^verbatim>\<open>write\<close>.\<close>

definition rw_args :: "('z kmst_scheme, (nat \<times> u32 \<times> u32) option) kop" where
  "rw_args =
     bd (argfd 0) (\<lambda>r0.
     case r0 of
       None \<Rightarrow> ret None
     | Some (_, f) \<Rightarrow>
         bd (argint 2) (\<lambda>r2.
         case r2 of
           None \<Rightarrow> ret None
         | Some n \<Rightarrow>
             bd (argptr 1 n) (\<lambda>r1.
             case r1 of None \<Rightarrow> ret None | Some p \<Rightarrow> ret (Some (f, p, n)))))"

definition sys_read :: "('z filest_scheme, int) kop" where
  "sys_read =
     bd rw_args (\<lambda>r.
     case r of
       None \<Rightarrow> ret (- 1)
     | Some (f, p, n) \<Rightarrow>
         bd (fileread f (sint n)) (\<lambda>r.
         case r of
           None \<Rightarrow> ret (- 1)
         | Some d \<Rightarrow> bd (ustores p d) (\<lambda>_. ret (int (length d)))))"

definition sys_write :: "('z filest_scheme, int) kop" where
  "sys_write =
     bd rw_args (\<lambda>r.
     case r of
       None \<Rightarrow> ret (- 1)
     | Some (f, p, n) \<Rightarrow>
         bd (uloads p (nat (sint n))) (\<lambda>src.
         filewrite f src (sint n)))"

definition sys_close :: "('z filest_scheme, int) kop" where
  "sys_close =
     bd (argfd 0) (\<lambda>r.
     case r of
       None \<Rightarrow> ret (- 1)
     | Some (fd, f) \<Rightarrow>
         bd (curmod (\<lambda>p. p\<lparr>ofile := (ofile p)[fd := None]\<rparr>)) (\<lambda>_.
         bd (fileclose f) (\<lambda>_.
         ret 0)))"

text \<open>\<^verbatim>\<open>struct stat\<close> in user memory has 20 bytes, with two bytes of padding behind each 16-bit field.\<close>

definition ustore_stat :: "u32 \<Rightarrow> stat \<Rightarrow> ('z kmst_scheme, unit) kop" where
  "ustore_stat a st =
     bd (ustores (a + 4) (le32 (st_dev st))) (\<lambda>_.
     bd (ustores (a + 8) (le32 (st_ino st))) (\<lambda>_.
     bd (ustores a (le16 (st_type st))) (\<lambda>_.
     bd (ustores (a + 12) (le16 (st_nlink st))) (\<lambda>_.
     ustores (a + 16) (le32 (st_size st))))))"

definition sys_fstat :: "('z filest_scheme, int) kop" where
  "sys_fstat =
     bd (argfd 0) (\<lambda>r0.
     case r0 of
       None \<Rightarrow> ret (- 1)
     | Some (_, f) \<Rightarrow>
         bd (argptr 1 20) (\<lambda>r1.
         case r1 of
           None \<Rightarrow> ret (- 1)
         | Some a \<Rightarrow>
             bd (filestat f) (\<lambda>r.
             case r of
               None \<Rightarrow> ret (- 1)
             | Some st \<Rightarrow> bd (ustore_stat a st) (\<lambda>_. ret 0))))"

definition sys_link_bad :: "nat \<Rightarrow> ('z fsst_scheme, int) kop" where
  "sys_link_bad ip =
     bd (ilock ip) (\<lambda>_.
     bd (imod ip (\<lambda>x. x\<lparr>i_nlink := i_nlink x - 1\<rparr>)) (\<lambda>_.
     bd (iupdate ip) (\<lambda>_.
     bd (iunlockput ip) (\<lambda>_.
     bd end_op (\<lambda>_.
     ret (- 1))))))"

definition link_paths :: "bytes \<Rightarrow> bytes \<Rightarrow> ('z fsst_scheme, int) kop" where
  "link_paths old new =
     bd begin_op (\<lambda>_.
     bd (namei old) (\<lambda>r.
     case r of
       None \<Rightarrow> bd end_op (\<lambda>_. ret (- 1))
     | Some ip \<Rightarrow>
         bd (ilock ip) (\<lambda>_.
         bd (igets ip i_type) (\<lambda>ty.
         if ty = T_DIR then bd (iunlockput ip) (\<lambda>_. bd end_op (\<lambda>_. ret (- 1)))
         else
           bd (imod ip (\<lambda>x. x\<lparr>i_nlink := i_nlink x + 1\<rparr>)) (\<lambda>_.
           bd (iupdate ip) (\<lambda>_.
           bd (iunlock ip) (\<lambda>_.
           bd (nameiparent new) (\<lambda>r.
           case r of
             None \<Rightarrow> sys_link_bad ip
           | Some (dp, name) \<Rightarrow>
               bd (ilock dp) (\<lambda>_.
               bd (igets dp i_dev) (\<lambda>ddev.
               bd (igets ip id) (\<lambda>x.
               bd (if ddev \<noteq> i_dev x then ret (- 1) else dirlink dp name (i_inum x)) (\<lambda>l.
               if l < 0 then bd (iunlockput dp) (\<lambda>_. sys_link_bad ip)
               else
                 bd (iunlockput dp) (\<lambda>_.
                 bd (iput ip) (\<lambda>_.
                 bd end_op (\<lambda>_.
                 ret 0)))))))))))))))"

definition sys_link :: "('z fsst_scheme, int) kop" where
  "sys_link =
     bd (argstr 0) (\<lambda>r0.
     case r0 of
       None \<Rightarrow> ret (- 1)
     | Some old \<Rightarrow>
         bd (argstr 1) (\<lambda>r1.
         case r1 of None \<Rightarrow> ret (- 1) | Some new \<Rightarrow> link_paths old new))"

function isdirempty_loop :: "nat \<Rightarrow> nat \<Rightarrow> nat \<Rightarrow> ('z fsst_scheme, bool) kop" where
  "isdirempty_loop dp fsize off =
     (if off < fsize then
        bd (read_dirent dp off ''isdirempty: readi'') (\<lambda>de.
        if de_inum de \<noteq> 0 then ret False else isdirempty_loop dp fsize (off + 16))
      else ret True)"
  by pat_completeness auto
termination
  by (relation "measure (\<lambda>(dp, fsize, off). fsize - off)") auto

declare isdirempty_loop.simps [simp del]

definition isdirempty :: "nat \<Rightarrow> ('z fsst_scheme, bool) kop" where
  "isdirempty dp = bd (igets dp i_size) (\<lambda>fsize. isdirempty_loop dp (unat fsize) 32)"

definition unlink_bad :: "nat \<Rightarrow> ('z fsst_scheme, int) kop" where
  "unlink_bad dp = bd (iunlockput dp) (\<lambda>_. bd end_op (\<lambda>_. ret (- 1)))"

definition unlink_entry :: "nat \<Rightarrow> nat \<Rightarrow> u32 \<Rightarrow> ('z fsst_scheme, int) kop" where
  "unlink_entry dp ip off =
     bd (writei dp (replicate 16 0) off) (\<lambda>w.
     if w \<noteq> 16 then panic ''unlink: writei''
     else
       bd (igets ip i_type) (\<lambda>ty.
       bd (whenk (ty = T_DIR)
            (bd (imod dp (\<lambda>x. x\<lparr>i_nlink := i_nlink x - 1\<rparr>)) (\<lambda>_. iupdate dp))) (\<lambda>_.
       bd (iunlockput dp) (\<lambda>_.
       bd (imod ip (\<lambda>x. x\<lparr>i_nlink := i_nlink x - 1\<rparr>)) (\<lambda>_.
       bd (iupdate ip) (\<lambda>_.
       bd (iunlockput ip) (\<lambda>_.
       bd end_op (\<lambda>_.
       ret 0))))))))"

definition unlink_path :: "bytes \<Rightarrow> ('z fsst_scheme, int) kop" where
  "unlink_path path =
     bd begin_op (\<lambda>_.
     bd (nameiparent path) (\<lambda>r.
     case r of
       None \<Rightarrow> bd end_op (\<lambda>_. ret (- 1))
     | Some (dp, name) \<Rightarrow>
         bd (ilock dp) (\<lambda>_.
         if namecmp name (ascii ''.'') = 0 \<or> namecmp name (ascii ''..'') = 0 then unlink_bad dp
         else
           bd (dirlookup dp name) (\<lambda>r.
           case r of
             None \<Rightarrow> unlink_bad dp
           | Some (ip, off) \<Rightarrow>
               bd (ilock ip) (\<lambda>_.
               bd (igets ip id) (\<lambda>x.
               if sint (i_nlink x) < 1 then panic ''unlink: nlink < 1''
               else
                 bd (if i_type x = T_DIR then isdirempty ip else ret True) (\<lambda>ok.
                 if \<not> ok then bd (iunlockput ip) (\<lambda>_. unlink_bad dp)
                 else unlink_entry dp ip off)))))))"

definition sys_unlink :: "('z fsst_scheme, int) kop" where
  "sys_unlink =
     bd (argstr 0) (\<lambda>r.
     case r of None \<Rightarrow> ret (- 1) | Some path \<Rightarrow> unlink_path path)"

text \<open>\<^verbatim>\<open>create\<close> returns the inode locked.\<close>

definition create_dots :: "nat \<Rightarrow> nat \<Rightarrow> ('z fsst_scheme, unit) kop" where
  "create_dots dp ip =
     bd (imod dp (\<lambda>x. x\<lparr>i_nlink := i_nlink x + 1\<rparr>)) (\<lambda>_.
     bd (iupdate dp) (\<lambda>_.
     bd (igets ip i_inum) (\<lambda>inum.
     bd (dirlink ip (ascii ''.'') inum) (\<lambda>l1.
     if l1 < 0 then panic ''create dots''
     else
       bd (igets dp i_inum) (\<lambda>dnum.
       bd (dirlink ip (ascii ''..'') dnum) (\<lambda>l2.
       if l2 < 0 then panic ''create dots'' else ret ()))))))"

definition create_new :: "nat \<Rightarrow> bytes \<Rightarrow> u16 \<Rightarrow> u16 \<Rightarrow> u16 \<Rightarrow> ('z fsst_scheme, nat option) kop" where
  "create_new dp name type major minor =
     bd (igets dp i_dev) (\<lambda>dev.
     bd (ialloc dev type) (\<lambda>ip.
     bd (ilock ip) (\<lambda>_.
     bd (imod ip (\<lambda>x. x\<lparr>i_major := major, i_minor := minor, i_nlink := 1\<rparr>)) (\<lambda>_.
     bd (iupdate ip) (\<lambda>_.
     bd (whenk (type = T_DIR) (create_dots dp ip)) (\<lambda>_.
     bd (igets ip i_inum) (\<lambda>inum.
     bd (dirlink dp name inum) (\<lambda>l.
     if l < 0 then panic ''create: dirlink''
     else bd (iunlockput dp) (\<lambda>_. ret (Some ip))))))))))"

definition create :: "bytes \<Rightarrow> u16 \<Rightarrow> u16 \<Rightarrow> u16 \<Rightarrow> ('z fsst_scheme, nat option) kop" where
  "create path type major minor =
     bd (nameiparent path) (\<lambda>r.
     case r of
       None \<Rightarrow> ret None
     | Some (dp, name) \<Rightarrow>
         bd (ilock dp) (\<lambda>_.
         bd (dirlookup dp name) (\<lambda>r.
         case r of
           Some (ip, _) \<Rightarrow>
             bd (iunlockput dp) (\<lambda>_.
             bd (ilock ip) (\<lambda>_.
             bd (igets ip i_type) (\<lambda>ty.
             if type = T_FILE \<and> ty = T_FILE then ret (Some ip)
             else bd (iunlockput ip) (\<lambda>_. ret None))))
         | None \<Rightarrow> create_new dp name type major minor)))"

definition open_inode :: "bytes \<Rightarrow> u32 \<Rightarrow> ('z fsst_scheme, nat option) kop" where
  "open_inode path omode =
     (if omode AND O_CREATE \<noteq> 0 then create path T_FILE 0 0
      else
        bd (namei path) (\<lambda>r.
        case r of
          None \<Rightarrow> ret None
        | Some ip \<Rightarrow>
            bd (ilock ip) (\<lambda>_.
            bd (igets ip i_type) (\<lambda>ty.
            if ty = T_DIR \<and> omode \<noteq> O_RDONLY then bd (iunlockput ip) (\<lambda>_. ret None)
            else ret (Some ip)))))"

definition open_fail :: "nat \<Rightarrow> ('z filest_scheme, int) kop" where
  "open_fail ip = bd (iunlockput ip) (\<lambda>_. bd end_op (\<lambda>_. ret (- 1)))"

definition open_file :: "nat \<Rightarrow> u32 \<Rightarrow> ('z filest_scheme, int) kop" where
  "open_file ip omode =
     bd filealloc (\<lambda>r.
     case r of
       None \<Rightarrow> open_fail ip
     | Some f \<Rightarrow>
         bd (fdalloc f) (\<lambda>r.
         case r of
           None \<Rightarrow> bd (fileclose f) (\<lambda>_. open_fail ip)
         | Some fd \<Rightarrow>
             bd (iunlock ip) (\<lambda>_.
             bd end_op (\<lambda>_.
             bd (fmod f (\<lambda>x. x\<lparr>f_type := FD_INODE, f_ip := ip, f_off := 0,
                   f_readable := (omode AND O_WRONLY = 0),
                   f_writable := (omode AND O_WRONLY \<noteq> 0 \<or> omode AND O_RDWR \<noteq> 0)\<rparr>)) (\<lambda>_.
             ret (int fd))))))"

definition sys_open :: "('z filest_scheme, int) kop" where
  "sys_open =
     bd (argstr 0) (\<lambda>r0.
     case r0 of
       None \<Rightarrow> ret (- 1)
     | Some path \<Rightarrow>
         bd (argint 1) (\<lambda>r1.
         case r1 of
           None \<Rightarrow> ret (- 1)
         | Some omode \<Rightarrow>
             bd begin_op (\<lambda>_.
             bd (open_inode path omode) (\<lambda>r.
             case r of
               None \<Rightarrow> bd end_op (\<lambda>_. ret (- 1))
             | Some ip \<Rightarrow> open_file ip omode))))"

text \<open>What \<^verbatim>\<open>mkdir\<close> and \<^verbatim>\<open>mknod\<close> do with the result of \<^verbatim>\<open>create\<close>.\<close>

definition finish_create :: "nat option \<Rightarrow> ('z fsst_scheme, int) kop" where
  "finish_create r =
     (case r of
        None \<Rightarrow> bd end_op (\<lambda>_. ret (- 1))
      | Some ip \<Rightarrow> bd (iunlockput ip) (\<lambda>_. bd end_op (\<lambda>_. ret 0)))"

definition sys_mkdir :: "('z fsst_scheme, int) kop" where
  "sys_mkdir =
     bd begin_op (\<lambda>_.
     bd (argstr 0) (\<lambda>r.
     case r of
       None \<Rightarrow> finish_create None
     | Some path \<Rightarrow> bd (create path T_DIR 0 0) finish_create))"

definition sys_mknod :: "('z fsst_scheme, int) kop" where
  "sys_mknod =
     bd begin_op (\<lambda>_.
     bd (argstr 0) (\<lambda>r0.
     case r0 of
       None \<Rightarrow> finish_create None
     | Some path \<Rightarrow>
         bd (argint 1) (\<lambda>r1.
         case r1 of
           None \<Rightarrow> finish_create None
         | Some major \<Rightarrow>
             bd (argint 2) (\<lambda>r2.
             case r2 of
               None \<Rightarrow> finish_create None
             | Some minor \<Rightarrow> bd (create path T_DEV (ucast major) (ucast minor)) finish_create))))"

definition chdir_path :: "bytes \<Rightarrow> ('z fsst_scheme, int) kop" where
  "chdir_path path =
     bd (namei path) (\<lambda>r.
     case r of
       None \<Rightarrow> bd end_op (\<lambda>_. ret (- 1))
     | Some ip \<Rightarrow>
         bd (ilock ip) (\<lambda>_.
         bd (igets ip i_type) (\<lambda>ty.
         if ty \<noteq> T_DIR then bd (iunlockput ip) (\<lambda>_. bd end_op (\<lambda>_. ret (- 1)))
         else
           bd (iunlock ip) (\<lambda>_.
           bd (bd cur_cwd iput) (\<lambda>_.
           bd end_op (\<lambda>_.
           bd (curmod (\<lambda>p. p\<lparr>cwd := Some ip\<rparr>)) (\<lambda>_.
           ret 0)))))))"

definition sys_chdir :: "('z fsst_scheme, int) kop" where
  "sys_chdir =
     bd begin_op (\<lambda>_.
     bd (argstr 0) (\<lambda>r.
     case r of
       None \<Rightarrow> bd end_op (\<lambda>_. ret (- 1))
     | Some path \<Rightarrow> chdir_path path))"

text \<open>The loop of \<^verbatim>\<open>sys_exec\<close>: the argument strings, of which \<open>k\<close> more fit.\<close>

fun exec_argv :: "u32 \<Rightarrow> nat \<Rightarrow> bytes list \<Rightarrow> ('z kmst_scheme, bytes list option) kop" where
  "exec_argv uargv 0 acc = ret None"
| "exec_argv uargv (Suc k) acc =
     bd (fetchint uargv) (\<lambda>r.
     case r of
       None \<Rightarrow> ret None
     | Some uarg \<Rightarrow>
         if uarg = 0 then ret (Some acc)
         else
           bd (fetchstr uarg) (\<lambda>r.
           case r of
             None \<Rightarrow> ret None
           | Some a \<Rightarrow> exec_argv (uargv + 4) k (acc @ [a])))"

definition sys_exec :: "('z vmst_scheme, int) kop" where
  "sys_exec =
     bd (argstr 0) (\<lambda>r0.
     case r0 of
       None \<Rightarrow> ret (- 1)
     | Some path \<Rightarrow>
         bd (argint 1) (\<lambda>r1.
         case r1 of
           None \<Rightarrow> ret (- 1)
         | Some uargv \<Rightarrow>
             bd (exec_argv uargv MAXARG []) (\<lambda>r.
             case r of
               None \<Rightarrow> ret (- 1)
             | Some argv \<Rightarrow> exec path argv)))"

definition pipe_fds :: "nat \<Rightarrow> nat \<Rightarrow> u32 \<Rightarrow> ('z filest_scheme, int) kop" where
  "pipe_fds rfile wfile fd =
     bd (fdalloc rfile) (\<lambda>r0.
     case r0 of
       None \<Rightarrow> bd (fileclose rfile) (\<lambda>_. bd (fileclose wfile) (\<lambda>_. ret (- 1)))
     | Some fd0 \<Rightarrow>
         bd (fdalloc wfile) (\<lambda>r1.
         case r1 of
           None \<Rightarrow>
             bd (curmod (\<lambda>p. p\<lparr>ofile := (ofile p)[fd0 := None]\<rparr>)) (\<lambda>_.
             bd (fileclose rfile) (\<lambda>_.
             bd (fileclose wfile) (\<lambda>_.
             ret (- 1))))
         | Some fd1 \<Rightarrow>
             bd (ustores fd (le32 (of_nat fd0))) (\<lambda>_.
             bd (ustores (fd + 4) (le32 (of_nat fd1))) (\<lambda>_.
             ret 0))))"

definition sys_pipe :: "('z filest_scheme, int) kop" where
  "sys_pipe =
     bd (argptr 0 8) (\<lambda>r.
     case r of
       None \<Rightarrow> ret (- 1)
     | Some fd \<Rightarrow>
         bd pipealloc (\<lambda>r.
         case r of
           None \<Rightarrow> ret (- 1)
         | Some (rfile, wfile) \<Rightarrow> pipe_fds rfile wfile fd))"

section \<open>Dispatch\<close>

text \<open>The table \<^verbatim>\<open>syscalls\<close>, with the numbers of \<^verbatim>\<open>syscall.h\<close>.\<close>

definition syscalls :: "nat \<Rightarrow> ('z sysst_scheme, int) kop option" where
  "syscalls n =
     (if n = 1 then Some sys_fork else if n = 2 then Some sys_exit else if n = 3 then Some sys_wait
      else if n = 4 then Some sys_pipe else if n = 5 then Some sys_read else if n = 6 then Some sys_kill
      else if n = 7 then Some sys_exec else if n = 8 then Some sys_fstat else if n = 9 then Some sys_chdir
      else if n = 10 then Some sys_dup else if n = 11 then Some sys_getpid else if n = 12 then Some sys_sbrk
      else if n = 13 then Some sys_sleep else if n = 14 then Some sys_uptime else if n = 15 then Some sys_open
      else if n = 16 then Some sys_write else if n = 17 then Some sys_mknod else if n = 18 then Some sys_unlink
      else if n = 19 then Some sys_link else if n = 20 then Some sys_mkdir else if n = 21 then Some sys_close
      else None)"

definition set_eax :: "int \<Rightarrow> ('z ptst_scheme, unit) kop" where
  "set_eax r = curmod (\<lambda>p. p\<lparr>tf := (tf p)\<lparr>tf_eax := word_of_int r\<rparr>\<rparr>)"

definition syscall :: "('z sysst_scheme, unit) kop" where
  "syscall =
     bd (curget id) (\<lambda>p.
     let num = sint (tf_eax (tf p)) in
     case (if num > 0 \<and> num < 22 then syscalls (nat num) else None) of
       Some f \<Rightarrow> bd f set_eax
     | None \<Rightarrow>
         bd (cprintf (Some (ascii ''%d %s: unknown sys call %d'' @ [NL]))
              [ArgInt (word_of_int (pid p)), ArgStr (Some (takeWhile (\<lambda>c. c \<noteq> 0) (pname p))),
               ArgInt (tf_eax (tf p))]) (\<lambda>_.
         set_eax (- 1)))"

end
