(* ===== verification/Trap.thy ===== *)
theory Trap
  imports Syscall
begin

text \<open>
  Traps: the entry code of \<^verbatim>\<open>vectors.S\<close> and \<^verbatim>\<open>trapasm.S\<close>, the interrupt descriptor table of \<^verbatim>\<open>trap.c\<close>, and the
  handler \<^verbatim>\<open>trap\<close>. The entry code is modelled on the list of words on the kernel stack, the top of the
  stack first; the contents of the device registers that the interrupt handlers read are arguments of \<open>trap\<close>.
\<close>

section \<open>Entry and return\<close>

text \<open>The registers of the interrupted program.\<close>

record uregs =
  r_eax :: u32
  r_ecx :: u32
  r_edx :: u32
  r_ebx :: u32
  r_esp :: u32
  r_ebp :: u32
  r_esi :: u32
  r_edi :: u32
  r_ds :: u16
  r_es :: u16
  r_fs :: u16
  r_gs :: u16
  r_eip :: u32
  r_cs :: u16
  r_eflags :: u32
  r_ss :: u16

text \<open>The exceptions for which the processor pushes an error code.\<close>

definition cpu_error_code :: "nat \<Rightarrow> bool" where
  "cpu_error_code i \<longleftrightarrow> i \<in> {8, 10, 11, 12, 13, 14, 17}"

text \<open>
  A kernel stack: the stack pointer and the words from there on, the top first. The mode of the interrupted program
  is in the low bits of its \<^verbatim>\<open>cs\<close>.
\<close>

type_synonym kstk = "u32 \<times> u32 list"

definition push :: "u32 \<Rightarrow> kstk \<Rightarrow> kstk" where
  "push w k = (fst k - 4, w # snd k)"

definition from_user :: "uregs \<Rightarrow> bool" where
  "from_user r \<longleftrightarrow> r_cs r AND 3 \<noteq> 0"

text \<open>
  What the processor pushes for an interrupt. Coming from user mode it goes to the stack the task state segment names, at
  \<open>esp0\<close>, and saves the user's stack pointer there; in the kernel it stays on the stack it is on and saves neither
  \<^verbatim>\<open>esp\<close> nor \<^verbatim>\<open>ss\<close>. The list \<open>ws\<close> holds the words the stack in question has already.
\<close>

definition cpu_trap :: "nat \<Rightarrow> u32 \<Rightarrow> u32 \<Rightarrow> u32 list \<Rightarrow> uregs \<Rightarrow> kstk" where
  "cpu_trap i err esp0 ws r =
     (let k = (if from_user r then push (r_esp r) (push (ucast (r_ss r)) (esp0, ws)) else (r_esp r, ws));
          k = push (r_eflags r) k;
          k = push (ucast (r_cs r)) k;
          k = push (r_eip r) k
      in if cpu_error_code i then push err k else k)"

text \<open>Entry point \<open>i\<close> of \<^verbatim>\<open>vectors.S\<close>.\<close>

definition vector_entry :: "nat \<Rightarrow> kstk \<Rightarrow> kstk" where
  "vector_entry i k =
     (let k = (if \<not> (i = 8 \<or> (10 \<le> i \<and> i \<le> 14) \<or> i = 17) then push 0 k else k)
      in push (of_nat i) k)"

text \<open>\<^verbatim>\<open>alltraps\<close> up to the call; \<^verbatim>\<open>pushal\<close> stores the stack pointer it started with.\<close>

definition alltraps :: "uregs \<Rightarrow> kstk \<Rightarrow> kstk" where
  "alltraps r k =
     (let k = push (ucast (r_ds r)) k;
          k = push (ucast (r_es r)) k;
          k = push (ucast (r_fs r)) k;
          k = push (ucast (r_gs r)) k;
          sp = fst k
      in fold push [r_eax r, r_ecx r, r_edx r, r_ebx r, sp, r_ebp r, r_esi r, r_edi r] k)"

text \<open>
  The words at the top of the stack read as a \<^verbatim>\<open>struct trapframe\<close>, and a frame the handler has changed written over them.
  The last two fields are there only when rings are crossed.
\<close>

definition frame_of :: "u32 list \<Rightarrow> trapframe" where
  "frame_of ws =
     \<lparr>tf_edi = ws ! 0, tf_esi = ws ! 1, tf_ebp = ws ! 2, tf_oesp = ws ! 3, tf_ebx = ws ! 4,
      tf_edx = ws ! 5, tf_ecx = ws ! 6, tf_eax = ws ! 7, tf_gs = ucast (ws ! 8), tf_fs = ucast (ws ! 9),
      tf_es = ucast (ws ! 10), tf_ds = ucast (ws ! 11), tf_trapno = ws ! 12, tf_err = ws ! 13,
      tf_eip = ws ! 14, tf_cs = ucast (ws ! 15), tf_eflags = ws ! 16, tf_esp = ws ! 17, tf_ss = ucast (ws ! 18)\<rparr>"

definition put_frame :: "trapframe \<Rightarrow> u32 list \<Rightarrow> u32 list" where
  "put_frame f ws =
     [tf_edi f, tf_esi f, tf_ebp f, tf_oesp f, tf_ebx f, tf_edx f, tf_ecx f, tf_eax f, ucast (tf_gs f),
      ucast (tf_fs f), ucast (tf_es f), ucast (tf_ds f), tf_trapno f, tf_err f, tf_eip f, ucast (tf_cs f),
      tf_eflags f] @
     (if tf_cs f AND 3 \<noteq> 0 then [tf_esp f, ucast (tf_ss f)] @ drop 19 ws else drop 17 ws)"

text \<open>
  \<^verbatim>\<open>trapret\<close> with its final \<^verbatim>\<open>iret\<close>, which pops \<^verbatim>\<open>esp\<close> and \<^verbatim>\<open>ss\<close> only if the \<^verbatim>\<open>cs\<close> it has popped is a user segment; otherwise
  the stack pointer is left behind \<^verbatim>\<open>eflags\<close> and \<open>kss\<close>, the kernel's \<^verbatim>\<open>ss\<close>, stays. The result has the registers and what is left on
  the kernel stack; a stack that is too short gives \<open>None\<close>.
\<close>

fun trapret :: "u16 \<Rightarrow> kstk \<Rightarrow> (uregs \<times> u32 list) option" where
  "trapret kss (a, edi # esi # ebp # oesp # ebx # edx # ecx # eax # gs # fs # es # ds # trapno # err #
      eip # cs # eflags # ws) =
     (let r = \<lparr>r_eax = eax, r_ecx = ecx, r_edx = edx, r_ebx = ebx, r_esp = a + 17 * 4, r_ebp = ebp, r_esi = esi,
          r_edi = edi, r_ds = ucast ds, r_es = ucast es, r_fs = ucast fs, r_gs = ucast gs, r_eip = eip,
          r_cs = ucast cs, r_eflags = eflags, r_ss = kss\<rparr>
      in if \<not> from_user r then Some (r, ws)
         else case ws of
           esp # ss # ws' \<Rightarrow> Some (r\<lparr>r_esp := esp, r_ss := ucast ss\<rparr>, ws')
         | _ \<Rightarrow> None)"
| "trapret kss _ = None"

definition trap_entry :: "nat \<Rightarrow> u32 \<Rightarrow> u32 \<Rightarrow> u32 list \<Rightarrow> uregs \<Rightarrow> kstk" where
  "trap_entry i err esp0 ws r = alltraps r (vector_entry i (cpu_trap i err esp0 ws r))"

section \<open>The interrupt descriptor table\<close>

record gatedesc =
  off_15_0 :: u16
  g_cs :: u16
  g_args :: nat
  g_rsv1 :: nat
  g_type :: nat
  g_s :: bool
  g_dpl :: nat
  g_p :: bool
  off_31_16 :: u16

definition STS_IG32 :: nat where "STS_IG32 = 0xE"
definition STS_TG32 :: nat where "STS_TG32 = 0xF"
definition SEG_KCODE :: u16 where "SEG_KCODE = 1"
definition T_SYSCALL :: nat where "T_SYSCALL = 64"

definition SETGATE :: "bool \<Rightarrow> u16 \<Rightarrow> u32 \<Rightarrow> nat \<Rightarrow> gatedesc" where
  "SETGATE istrap sel off d =
     \<lparr>off_15_0 = ucast (off AND 0xFFFF), g_cs = sel, g_args = 0, g_rsv1 = 0,
      g_type = (if istrap then STS_TG32 else STS_IG32), g_s = False, g_dpl = d, g_p = True,
      off_31_16 = ucast (drop_bit 16 off)\<rparr>"

definition tvinit :: "(nat \<Rightarrow> u32) \<Rightarrow> gatedesc list" where
  "tvinit vectors =
     (map (\<lambda>i. SETGATE False (push_bit 3 SEG_KCODE) (vectors i) 0) [0..<256])
       [T_SYSCALL := SETGATE True (push_bit 3 SEG_KCODE) (vectors T_SYSCALL) 3]"

section \<open>The handler\<close>

text \<open>\<open>eois\<close> counts the acknowledgements sent to the local interrupt controller.\<close>

record trapst = sysst +
  kbd_shift :: u32
  eois :: nat

definition lapiceoi :: "('z trapst_scheme, unit) kop" where
  "lapiceoi = modify (\<lambda>s. s\<lparr>eois := eois s + 1\<rparr>)"

text \<open>\<^verbatim>\<open>memide.c\<close>: the memory disk has no interrupt.\<close>

definition ideintr :: "('z trapst_scheme, unit) kop" where
  "ideintr = ret ()"

definition killed_in_user :: "trapframe \<Rightarrow> 'z ptst_scheme \<Rightarrow> bool" where
  "killed_in_user f s = (case curproc s of
     None \<Rightarrow> False
   | Some i \<Rightarrow> killed (ptable s ! i) \<and> tf_cs f AND 3 = DPL_USER)"

definition trap_syscall :: "trapframe \<Rightarrow> ('z trapst_scheme, unit) kop" where
  "trap_syscall f =
     bd (curget killed) (\<lambda>k.
     bd (whenk k exit) (\<lambda>_.
     bd (curmod (\<lambda>p. p\<lparr>tf := f\<rparr>)) (\<lambda>_.
     bd syscall (\<lambda>_.
     bd (curget killed) (\<lambda>k.
     whenk k exit)))))"

definition trap_unexpected :: "nat \<Rightarrow> u32 \<Rightarrow> trapframe \<Rightarrow> ('z trapst_scheme, unit) kop" where
  "trap_unexpected cpuid cr2 f =
     bd (gets curproc) (\<lambda>c.
     if c = None \<or> tf_cs f AND 3 = 0 then
       bd (cprintf (Some (ascii ''unexpected trap %d from cpu %d eip %x (cr2=0x%x)'' @ [NL]))
            [ArgInt (tf_trapno f), ArgInt (of_nat cpuid), ArgInt (tf_eip f), ArgInt cr2]) (\<lambda>_.
       panic ''trap'')
     else
       bd (curget id) (\<lambda>p.
       bd (cprintf (Some (ascii (''pid %d %s: trap %d err %d on cpu %d '' @ ''eip 0x%x addr 0x%x--kill proc'') @ [NL]))
            [ArgInt (word_of_int (pid p)), ArgStr (Some (takeWhile (\<lambda>c. c \<noteq> 0) (pname p))), ArgInt (tf_trapno f),
             ArgInt (tf_err f), ArgInt (of_nat cpuid), ArgInt (tf_eip f), ArgInt cr2]) (\<lambda>_.
       curmod (\<lambda>p. p\<lparr>killed := True\<rparr>))))"

text \<open>The \<^verbatim>\<open>switch\<close>; \<open>kb\<close> and \<open>com\<close> are what the keyboard controller and the serial port hold.\<close>

definition trap_irq :: "nat \<Rightarrow> u32 \<Rightarrow> u8 list \<Rightarrow> u8 list \<Rightarrow> trapframe \<Rightarrow> ('z trapst_scheme, unit) kop" where
  "trap_irq cpuid cr2 kb com f =
     (let n = unat (tf_trapno f) in
      if n = T_IRQ0 + IRQ_TIMER then
        bd (whenk (cpuid = 0)
             (bd (acquire LTicks) (\<lambda>_.
              bd (modify (\<lambda>s. s\<lparr>ticks := ticks s + 1\<rparr>)) (\<lambda>_.
              bd (wakeup ChanTicks) (\<lambda>_.
              release LTicks))))) (\<lambda>_.
        lapiceoi)
      else if n = T_IRQ0 + IRQ_IDE then bd ideintr (\<lambda>_. lapiceoi)
      else if n = T_IRQ0 + IRQ_IDE + 1 then ret ()
      else if n = T_IRQ0 + IRQ_KBD then
        bd (gets kbd_shift) (\<lambda>sh.
        bd (kbdintr sh kb) (\<lambda>sh.
        bd (modify (\<lambda>s. s\<lparr>kbd_shift := sh\<rparr>)) (\<lambda>_.
        lapiceoi)))
      else if n = T_IRQ0 + IRQ_COM1 then bd (uartintr com) (\<lambda>_. lapiceoi)
      else if n = T_IRQ0 + 7 \<or> n = T_IRQ0 + IRQ_SPURIOUS then
        bd (cprintf (Some (ascii ''cpu%d: spurious interrupt at %x:%x'' @ [NL]))
             [ArgInt (of_nat cpuid), ArgInt (ucast (tf_cs f)), ArgInt (tf_eip f)]) (\<lambda>_.
        lapiceoi)
      else trap_unexpected cpuid cr2 f)"

definition trap_tail :: "trapframe \<Rightarrow> ('z trapst_scheme, unit) kop" where
  "trap_tail f = bd (gets (killed_in_user f)) (\<lambda>k. whenk k exit)"

definition trap :: "nat \<Rightarrow> u32 \<Rightarrow> u8 list \<Rightarrow> u8 list \<Rightarrow> trapframe \<Rightarrow> ('z trapst_scheme, unit) kop" where
  "trap cpuid cr2 kb com f =
     (if unat (tf_trapno f) = T_SYSCALL then trap_syscall f
      else
        bd (trap_irq cpuid cr2 kb com f) (\<lambda>_.
        bd (gets (killed_in_user f)) (\<lambda>k.
        bd (whenk k exit) (\<lambda>_.
        bd (gets (\<lambda>s. case curproc s of None \<Rightarrow> False | Some i \<Rightarrow> state (ptable s ! i) = RUNNING)) (\<lambda>run.
        bd (whenk (run \<and> unat (tf_trapno f) = T_IRQ0 + IRQ_TIMER) yield) (\<lambda>_.
        trap_tail f))))))"

text \<open>The rest of a timer interrupt whose process runs again after \<^verbatim>\<open>yield\<close>.\<close>

definition trap_resume :: "trapframe \<Rightarrow> ('z trapst_scheme, unit) kop" where
  "trap_resume f = bd yield_resume (\<lambda>_. trap_tail f)"

section \<open>Properties\<close>

text \<open>The registers a frame describes, apart from the stack's.\<close>

definition frame_regs :: "trapframe \<Rightarrow> u32 \<Rightarrow> u16 \<Rightarrow> uregs" where
  "frame_regs f esp ss =
     \<lparr>r_eax = tf_eax f, r_ecx = tf_ecx f, r_edx = tf_edx f, r_ebx = tf_ebx f, r_esp = esp, r_ebp = tf_ebp f,
      r_esi = tf_esi f, r_edi = tf_edi f, r_ds = tf_ds f, r_es = tf_es f, r_fs = tf_fs f, r_gs = tf_gs f,
      r_eip = tf_eip f, r_cs = tf_cs f, r_eflags = tf_eflags f, r_ss = ss\<rparr>"

lemma ucast_16_32 [simp]: "(ucast (ucast (x :: u16) :: u32) :: u16) = x"
  by (simp add: unsigned_ucast_eq take_bit_word_eq_self)

text \<open>The entry code leaves the same seventeen words in both modes, with the user's stack pointer behind them or not.\<close>

lemma trap_entry_words:
  "trap_entry i err esp0 ws r =
     (let a = (if from_user r then esp0 - 8 else r_esp r)
      in (a - 68,
          [r_edi r, r_esi r, r_ebp r, a - 36, r_ebx r, r_edx r, r_ecx r, r_eax r, ucast (r_gs r), ucast (r_fs r),
           ucast (r_es r), ucast (r_ds r), of_nat i, if cpu_error_code i then err else 0, r_eip r, ucast (r_cs r),
           r_eflags r] @ (if from_user r then [r_esp r, ucast (r_ss r)] else []) @ ws))"
proof -
  have e: "cpu_error_code i \<longleftrightarrow> (i = 8 \<or> (10 \<le> i \<and> i \<le> 14) \<or> i = 17)"
    by (auto simp: cpu_error_code_def)
  show ?thesis
    by (cases "from_user r"; cases "cpu_error_code i")
      (simp_all add: trap_entry_def alltraps_def vector_entry_def cpu_trap_def push_def e Let_def)
qed

lemma from_user_frame: "from_user (frame_regs f esp ss) \<longleftrightarrow> tf_cs f AND 3 \<noteq> 0"
  by (simp add: from_user_def frame_regs_def)

text \<open>Returning from a frame loads what it says; out of the kernel the stack is the one behind the frame.\<close>

lemma trapret_put_frame:
  assumes "(if tf_cs f AND 3 \<noteq> 0 then 19 else 17) \<le> length ws"
  shows "trapret kss (a, put_frame f ws) =
    (if tf_cs f AND 3 \<noteq> 0 then Some (frame_regs f (tf_esp f) (tf_ss f), drop 19 ws)
     else Some (frame_regs f (a + 68) kss, drop 17 ws))"
  by (simp add: put_frame_def from_user_def frame_regs_def Let_def)

text \<open>
  C40: Trap entry and return are inverse, for all 256 vectors, whether the processor was in user mode and moved to
  the kernel stack or was in the kernel already. The entry code leaves a frame that reads as \<^verbatim>\<open>struct trapframe\<close>, with the
  vector number, the error code (zero if there is none) and the saved registers in their fields, \<^verbatim>\<open>esp\<close> and \<^verbatim>\<open>ss\<close> only
  from user mode; a frame from user mode lies right below \<open>esp0\<close>, where \<^verbatim>\<open>allocproc\<close> puts \<^verbatim>\<open>p->tf\<close>. Returning from the unchanged
  frame restores every register of the interrupted program, its stack pointer included, and the words that were on the stack.
  Returning from a frame \<open>g\<close> the handler has changed, in the same mode, loads the registers from \<open>g\<close>, as system calls and
  \<^verbatim>\<open>exec\<close> rely on.
\<close>

theorem trap_entry_return:
  fixes r :: uregs
  assumes "i < 256" and "tf_cs g AND 3 \<noteq> 0 \<longleftrightarrow> from_user r"
  shows "let k = trap_entry i err esp0 ws r; f = frame_of (snd k); kss = (if from_user r then ss0 else r_ss r) in
    fst k = (if from_user r then esp0 - sizeof_trapframe else r_esp r - (sizeof_trapframe - 8)) \<and>
    unat (tf_trapno f) = i \<and> tf_err f = (if cpu_error_code i then err else 0) \<and>
    r = frame_regs f (if from_user r then tf_esp f else r_esp r) (if from_user r then tf_ss f else r_ss r) \<and>
    trapret kss k = Some (r, ws) \<and>
    trapret kss (fst k, put_frame g (snd k)) =
      Some (if from_user r then frame_regs g (tf_esp g) (tf_ss g) else frame_regs g (r_esp r) (r_ss r), ws)"
proof -
  let ?k = "trap_entry i err esp0 ws r"
  have i: "unat (of_nat i :: u32) = i" using assms(1) by (simp add: unat_of_nat)
  have "(if tf_cs g AND 3 \<noteq> 0 then 19 else 17) \<le> length (snd ?k)"
    by (simp add: assms(2) trap_entry_words Let_def)
  note P = trapret_put_frame [OF this, of _ "fst ?k"]
  show ?thesis
  proof (cases "from_user r")
    case True
    then have "r_cs r AND 3 \<noteq> 0" by (simp add: from_user_def)
    with True show ?thesis unfolding Let_def P assms(2)
      by (simp add: trap_entry_words frame_of_def frame_regs_def from_user_def sizeof_trapframe_def i Let_def)
  next
    case False
    then have "r_cs r AND 3 = 0" by (simp add: from_user_def)
    with False show ?thesis unfolding Let_def P assms(2)
      by (simp add: trap_entry_words frame_of_def frame_regs_def from_user_def sizeof_trapframe_def i Let_def)
  qed
qed

definition sample_regs :: uregs where
  "sample_regs = \<lparr>r_eax = 7, r_ecx = 1, r_edx = 2, r_ebx = 3, r_esp = 0x2FE0, r_ebp = 0x2FF0, r_esi = 4, r_edi = 5,
     r_ds = 0x2B, r_es = 0x2B, r_fs = 0, r_gs = 0, r_eip = 0x40, r_cs = 0x23, r_eflags = 0x200, r_ss = 0x2B\<rparr>"

text \<open>A page fault in user mode, and a timer interrupt of the kernel with two words on its stack.\<close>

theorem trap_entry_return_witness:
  "unat (tf_trapno (frame_of (snd (trap_entry 14 6 0x8DFFF000 [] sample_regs)))) = 14 \<and>
   trapret 0x10 (trap_entry 14 6 0x8DFFF000 [] sample_regs) = Some (sample_regs, []) \<and>
   trapret 0x10 (trap_entry 32 0 0x8DFFF000 [1, 2] (sample_regs\<lparr>r_cs := 8, r_ss := 0x10, r_esp := 0x8DFFEF00\<rparr>)) =
     Some (sample_regs\<lparr>r_cs := 8, r_ss := 0x10, r_esp := 0x8DFFEF00\<rparr>, [1, 2])"
proof -
  let ?k = "sample_regs\<lparr>r_cs := 8, r_ss := 0x10, r_esp := 0x8DFFEF00\<rparr>"
  have u: "from_user sample_regs" "\<not> from_user ?k" by (simp_all add: from_user_def sample_regs_def)
  have f: "tf_cs (tf zero_proc\<lparr>tf_cs := 0x23\<rparr>) AND 3 \<noteq> 0 \<longleftrightarrow> from_user sample_regs"
    "tf_cs (tf zero_proc\<lparr>tf_cs := 8\<rparr>) AND 3 \<noteq> 0 \<longleftrightarrow> from_user ?k" using u by simp_all
  show ?thesis
    using trap_entry_return [OF _ f(1), of 14 6 "0x8DFFF000" "[]" "0x10"]
      trap_entry_return [OF _ f(2), of 32 0 "0x8DFFF000" "[1, 2]" "0x10"] u by (simp add: Let_def)
qed

end
