(* ===== verification/Crash.thy ===== *)
theory Crash
  imports Log
begin

text \<open>
  The log as a whole: what one step of writing, committing and installing does to the blocks
  of the disk, in terms of the block cache's contract of theory \<open>Bcache\<close>, and the atomicity of
  \<^verbatim>\<open>commit\<close> across a crash at any point.
\<close>

section \<open>The log state beside the cache\<close>

lemma cframe_log:
  assumes "cframe s t"
  shows "log_start t = log_start s" "log_size t = log_size s" "log_outstanding t = log_outstanding s"
    "log_committing t = log_committing s" "log_dev t = log_dev s" "lh_n t = lh_n s" "lh_block t = lh_block s"
proof -
  have e: "t = s\<lparr>ptable := ptable t, bufs := bufs t, disk := disk t, dtrace := dtrace t\<rparr>"
    using assms unfolding cframe_def by blast
  show "log_start t = log_start s" "log_size t = log_size s" "log_outstanding t = log_outstanding s"
    "log_committing t = log_committing s" "log_dev t = log_dev s" "lh_n t = lh_n s" "lh_block t = lh_block s"
    by (subst e, simp)+
qed

lemma abs_log [simp]:
  "bview (s\<lparr>lh_n := x\<rparr>) = bview s" "bview (s\<lparr>lh_block := y\<rparr>) = bview s"
  "handle (s\<lparr>lh_n := x\<rparr>) = handle s" "handle (s\<lparr>lh_block := y\<rparr>) = handle s"
  "dirties (s\<lparr>lh_n := x\<rparr>) = dirties s" "dirties (s\<lparr>lh_block := y\<rparr>) = dirties s"
  "bc_inv (s\<lparr>lh_n := x\<rparr>) = bc_inv s" "bc_inv (s\<lparr>lh_block := y\<rparr>) = bc_inv s"
  "bc_ready (s\<lparr>lh_n := x\<rparr>) = bc_ready s" "bc_ready (s\<lparr>lh_block := y\<rparr>) = bc_ready s"
  by (auto simp: bc_ready_def bc_inv_def bview_def handle_def dirties_def fun_eq_iff split: option.split)

text \<open>
  Where the log lies on a disk of \<open>N\<close> blocks: \<open>L\<close> blocks from \<open>st\<close>, the header first. A transaction
  \<open>bs\<close> fits if it leaves room for the header and its blocks are different blocks outside the log.
\<close>

definition in_log :: "u32 \<Rightarrow> nat \<Rightarrow> nat \<Rightarrow> bool" where
  "in_log st L n \<longleftrightarrow> unat st \<le> n \<and> n < unat st + L"

definition log_geom :: "nat \<Rightarrow> u32 \<Rightarrow> nat \<Rightarrow> u32 list \<Rightarrow> bool" where
  "log_geom N st L bs \<longleftrightarrow> N \<le> 2 ^ 31 \<and> unat st + L \<le> N \<and> length bs < L \<and> length bs \<le> LOGSIZE \<and>
     distinct bs \<and> (\<forall>b \<in> set bs. unat b < N \<and> \<not> in_log st L (unat b))"

definition lblock :: "u32 \<Rightarrow> nat \<Rightarrow> u32" where
  "lblock st i = st + of_nat i + 1"

lemma unat_lblock:
  assumes "log_geom N st L bs" and "i < length bs"
  shows "unat (lblock st i) = unat st + 1 + i"
proof -
  have "lblock st i = st + of_nat (Suc i)" by (simp add: lblock_def algebra_simps)
  moreover have "unat st + Suc i < 2 ^ 32" using assms by (simp add: log_geom_def)
  then have "unat (st + of_nat (Suc i)) = unat st + Suc i" by (rule unat_add_small)
  ultimately show ?thesis by simp
qed

lemma lblock_in_log:
  assumes "log_geom N st L bs" and "i < length bs"
  shows "in_log st L (unat (lblock st i))" and "unat (lblock st i) < N" and "unat (lblock st i) \<noteq> unat st"
    and "b \<in> set bs \<Longrightarrow> lblock st i \<noteq> b"
  using assms unat_lblock [OF assms] by (auto simp: log_geom_def in_log_def)

definition tx :: "'z logst_scheme \<Rightarrow> u32 list \<Rightarrow> bool" where
  "tx s bs \<longleftrightarrow> bc_ready s \<and> handle s = Map.empty \<and> log_dev s = 1 \<and> lh_n s = int (length bs) \<and>
     length (lh_block s) = LOGSIZE \<and> take (length bs) (lh_block s) = bs \<and>
     log_geom (length (disk s)) (log_start s) (nat (log_size s)) bs"

lemma tx_block: "tx s bs \<Longrightarrow> i < length bs \<Longrightarrow> lh_block s ! i = bs ! i"
  by (metis nth_take tx_def)

lemma tx_lh_get: "tx s bs \<Longrightarrow> i < length bs \<Longrightarrow> lh_block t = lh_block s \<Longrightarrow> lh_get i t = Done (bs ! i) t"
  using tx_block [of s bs i] by (simp add: lh_get_def tx_def log_geom_def)

lemma tx_step:
  assumes "tx s bs" and "bc_to s t V Map.empty D d tr" and "length d = length (disk s)"
  shows "tx t bs"
proof -
  have r: "bc_ready s" using assms(1) by (simp add: tx_def)
  note T = bc.to_abs [OF r assms(2)] cframe_log [OF bc_toD(2) [OF assms(2)]]
  with assms(1,3) show ?thesis by (simp add: tx_def)
qed

section \<open>One block of the log\<close>

lemma write_log_one_spec:
  assumes x: "tx s bs" and i: "i < length bs" and d: "bs ! i \<in> dirties s" "card (dirties s) < NBUF"
  shows "\<exists>t. write_log_one i s = Done () t \<and>
    bc_to s t ((bview s)(lblock (log_start s) i := bview s (bs ! i))) Map.empty
      (dirties s - {lblock (log_start s) i}) ((disk s)[unat (lblock (log_start s) i) := bview s (bs ! i)])
      (dtrace s @ [(unat (lblock (log_start s) i), bview s (bs ! i))])"
proof -
  have g: "log_geom (length (disk s)) (log_start s) (nat (log_size s)) bs" and dev: "log_dev s = 1"
    and r: "bc_ready s" "handle s = Map.empty" using x by (simp_all add: tx_def)
  have b: "bs ! i \<in> set bs" "unat (bs ! i) < length (disk s)" using g i by (auto simp: log_geom_def)
  note l = lblock_in_log [OF g i]
  have "lh_get i t = Done (bs ! i) t"
    if "bc_to s t (bview s) (Map.empty(b \<mapsto> lblock (log_start s) i)) (dirties s) (disk s) (dtrace s)" for t b
    by (rule tx_lh_get [OF x i cframe_log(7) [OF bc_toD(2) [OF that]]])
  then obtain t where t: "bd (bread 1 (lblock (log_start s) i)) (\<lambda>y. bd (lh_get i) (\<lambda>a. bd (bread 1 a) (\<lambda>x.
      bd (bpeek x) (\<lambda>d. bd (bput y d) (\<lambda>_. bd (bwrite y) (\<lambda>_. bd (brelse x) (\<lambda>_. brelse y))))))) s = Done () t"
    and st: "bc_to s t ((bview s)(lblock (log_start s) i := bview s (bs ! i))) Map.empty
      (dirties s - {lblock (log_start s) i}) ((disk s)[unat (lblock (log_start s) i) := bview s (bs ! i)])
      (dtrace s @ [(unat (lblock (log_start s) i), bview s (bs ! i))])"
    using bc.copy_dst_first [OF r(1) l(4) [OF b(1), symmetric] b(2) l(2) r(2)] d by blast
  have "write_log_one i s = Done () t"
    using t by (simp add: write_log_one_def bd_run [of "gets _"] dev lblock_def)
  with st show ?thesis by blast
qed

lemma install_one_spec:
  assumes x: "tx s bs" and i: "i < length bs"
    and d: "card (dirties s) < NBUF" "bs ! i \<in> dirties s \<or> Suc (card (dirties s)) < NBUF"
  shows "\<exists>t. install_one i s = Done () t \<and>
    bc_to s t ((bview s)(bs ! i := bview s (lblock (log_start s) i))) Map.empty
      (dirties s - {bs ! i}) ((disk s)[unat (bs ! i) := bview s (lblock (log_start s) i)])
      (dtrace s @ [(unat (bs ! i), bview s (lblock (log_start s) i))])"
proof -
  have g: "log_geom (length (disk s)) (log_start s) (nat (log_size s)) bs" and dev: "log_dev s = 1"
    and r: "bc_ready s" "handle s = Map.empty" using x by (simp_all add: tx_def)
  have b: "bs ! i \<in> set bs" "unat (bs ! i) < length (disk s)" using g i by (auto simp: log_geom_def)
  note l = lblock_in_log [OF g i]
  have "lh_get i t = Done (bs ! i) t"
    if "bc_to s t (bview s) (Map.empty(b \<mapsto> lblock (log_start s) i)) (dirties s) (disk s) (dtrace s)" for t b
    by (rule tx_lh_get [OF x i cframe_log(7) [OF bc_toD(2) [OF that]]])
  then obtain t where t: "bd (bread 1 (lblock (log_start s) i)) (\<lambda>x. bd (lh_get i) (\<lambda>c. bd (bread 1 c) (\<lambda>y.
      bd (bpeek x) (\<lambda>d. bd (bput y d) (\<lambda>_. bd (bwrite y) (\<lambda>_. bd (brelse x) (\<lambda>_. brelse y))))))) s = Done () t"
    and st: "bc_to s t ((bview s)(bs ! i := bview s (lblock (log_start s) i))) Map.empty
      (dirties s - {bs ! i}) ((disk s)[unat (bs ! i) := bview s (lblock (log_start s) i)])
      (dtrace s @ [(unat (bs ! i), bview s (lblock (log_start s) i))])"
    using bc.copy_src_first [OF r(1) l(4) [OF b(1)] l(2) b(2) r(2)] d by blast
  have "install_one i s = Done () t"
    using t by (simp add: install_one_def bd_run [of "gets _"] dev lblock_def)
  with st show ?thesis by blast
qed

section \<open>The header block\<close>

lemma put_blocks_spec:
  assumes "length d = BSIZE" and "k \<le> LOGSIZE"
  shows "length (fold (\<lambda>i d. put32 d (4 + 4 * i) (bs ! i)) [0..<k] d) = BSIZE \<and>
    get32 (fold (\<lambda>i d. put32 d (4 + 4 * i) (bs ! i)) [0..<k] d) 0 = get32 d 0 \<and>
    (\<forall>i < k. get32 (fold (\<lambda>i d. put32 d (4 + 4 * i) (bs ! i)) [0..<k] d) (4 + 4 * i) = bs ! i)"
  using assms(2)
proof (induction k)
  case 0
  then show ?case using assms(1) by simp
next
  case (Suc k)
  let ?x = "fold (\<lambda>i d. put32 d (4 + 4 * i) (bs ! i)) [0..<k] d"
  from Suc have IH: "length ?x = BSIZE" "get32 ?x 0 = get32 d 0" "\<forall>i < k. get32 ?x (4 + 4 * i) = bs ! i" by simp_all
  have room: "4 + 4 * k + 4 \<le> length ?x"
    using Suc.prems IH(1) by (simp add: LOGSIZE_def MAXOPBLOCKS_def BSIZE_def)
  have "get32 (put32 ?x (4 + 4 * k) (bs ! k)) (4 + 4 * i) = bs ! i" if "i < Suc k" for i
  proof (cases "i = k")
    case True
    then show ?thesis using room by simp
  next
    case False
    then have "get32 (put32 ?x (4 + 4 * k) (bs ! k)) (4 + 4 * i) = get32 ?x (4 + 4 * i)"
      using that room by (intro get32_put32_other) simp_all
    with IH(3) False that show ?thesis by simp
  qed
  moreover have "get32 (put32 ?x (4 + 4 * k) (bs ! k)) 0 = get32 ?x 0"
    using room by (intro get32_put32_other) simp_all
  moreover have "length (put32 ?x (4 + 4 * k) (bs ! k)) = BSIZE" using room IH(1) by simp
  ultimately show ?case using IH(2) by simp
qed

lemma put_head_spec:
  assumes "length d = BSIZE" and "k \<le> LOGSIZE"
  shows "length (put_head (int k) bs d) = BSIZE" and "head_n (put_head (int k) bs d) = int k"
    and "i < k \<Longrightarrow> head_block (put_head (int k) bs d) i = bs ! i"
proof -
  let ?d = "put32 d 0 (word_of_int (int k))"
  have l: "length ?d = BSIZE" "get32 ?d 0 = word_of_int (int k)" using assms(1) by (simp_all add: BSIZE_def)
  note P = put_blocks_spec [OF l(1) assms(2), of bs]
  show "length (put_head (int k) bs d) = BSIZE" using P by (simp add: put_head_def)
  show "i < k \<Longrightarrow> head_block (put_head (int k) bs d) i = bs ! i"
    using P by (simp add: put_head_def head_block_def)
  have "sint (word_of_int (int k) :: u32) = int k"
    using assms(2) by (simp add: signed_take_bit_int_eq_self LOGSIZE_def MAXOPBLOCKS_def signed_of_nat)
  then show "head_n (put_head (int k) bs d) = int k"
    using P l(2) by (simp add: put_head_def head_n_def)
qed

section \<open>Sequences of block writes\<close>

definition vput :: "u32 \<times> bytes \<Rightarrow> (u32 \<Rightarrow> bytes) \<Rightarrow> u32 \<Rightarrow> bytes" where
  "vput w V = V(fst w := snd w)"

definition dput :: "nat \<times> bytes \<Rightarrow> bytes list \<Rightarrow> bytes list" where
  "dput w d = d[fst w := snd w]"

definition onto :: "u32 \<times> bytes \<Rightarrow> nat \<times> bytes" where
  "onto w = (unat (fst w), snd w)"

text \<open>From \<open>s\<close> to \<open>t\<close>, nothing but the writes \<open>ws\<close> went through the cache to the disk.\<close>

definition wrote :: "'z bcst_scheme \<Rightarrow> 'z bcst_scheme \<Rightarrow> (u32 \<times> bytes) list \<Rightarrow> bool" where
  "wrote s t ws \<longleftrightarrow> bc_to s t (fold vput ws (bview s)) Map.empty (dirties s - fst ` set ws)
     (fold dput (map onto ws) (disk s)) (dtrace s @ map onto ws)"

lemma fold_vput_other: "n \<notin> fst ` set ws \<Longrightarrow> fold vput ws V n = V n"
  by (induction ws arbitrary: V) (auto simp: vput_def)

lemma length_fold_dput [simp]: "length (fold dput ws d) = length d"
  by (induction ws arbitrary: d) (auto simp: dput_def)

lemma fold_dput_other: "n \<notin> fst ` set ws \<Longrightarrow> fold dput ws d ! n = d ! n"
  by (induction ws arbitrary: d) (auto simp: dput_def)

lemma fold_dput_at:
  assumes "distinct (map fst ws)" and "(n, x) \<in> set ws" and "n < length d"
  shows "fold dput ws d ! n = x"
  using assms
proof (induction ws arbitrary: d)
  case (Cons w ws)
  show ?case
  proof (cases "w = (n, x)")
    case True
    then have "n \<notin> fst ` set ws" using Cons.prems(1) by auto
    then have "fold dput (w # ws) d ! n = dput w d ! n" by (simp add: fold_dput_other)
    also have "dput w d ! n = x" using True Cons.prems(3) by (simp add: dput_def)
    finally show ?thesis .
  next
    case False
    with Cons show ?thesis by (simp add: dput_def)
  qed
qed simp

lemma fold_dput_blocks:
  "(\<forall>x \<in> set d. length x = BSIZE) \<Longrightarrow> (\<forall>w \<in> set ws. length (snd w) = BSIZE) \<Longrightarrow>
   \<forall>x \<in> set (fold dput ws d). length x = BSIZE"
proof (induction ws arbitrary: d)
  case (Cons w ws)
  have "\<forall>x \<in> set (dput w d). length x = BSIZE"
    using Cons.prems set_update_subset_insert [of d "fst w" "snd w"] by (auto simp: dput_def)
  with Cons show ?case by simp
qed simp

lemma wrote_Nil:
  assumes "bc_ready s" and "handle s = Map.empty"
  shows "wrote s s []"
  using assms by (simp add: wrote_def bc_to_def bc_ready_def cframe_def woken_refl)

lemma wrote_append:
  assumes "wrote s t ws" and "wrote t u ws'"
  shows "wrote s u (ws @ ws')"
proof -
  have st: "bc_to s t (fold vput ws (bview s)) Map.empty (dirties s - fst ` set ws)
     (fold dput (map onto ws) (disk s)) (dtrace s @ map onto ws)"
    and tu: "bc_to t u (fold vput ws' (bview t)) Map.empty (dirties t - fst ` set ws')
     (fold dput (map onto ws') (disk t)) (dtrace t @ map onto ws')"
    using assms by (simp_all only: wrote_def)
  note T = bc_toD [OF st]
  have "dirties s - fst ` set ws - fst ` set ws' = dirties s - fst ` set (ws @ ws')" by auto
  then show ?thesis using bc_to_trans [OF st tu] by (simp add: wrote_def T)
qed

lemma wroteD:
  assumes "wrote s t ws" and "bc_ready s"
  shows "bc_ready t" "bview t = fold vput ws (bview s)" "handle t = Map.empty" "dirties t = dirties s - fst ` set ws"
    "disk t = fold dput (map onto ws) (disk s)" "dtrace t = dtrace s @ map onto ws" "cframe s t"
  using bc.to_abs [OF assms(2)] assms(1) bc_toD(2) unfolding wrote_def by blast+

section \<open>The phases of a commit\<close>

text \<open>The blocks of the log with the new contents, and the home blocks with the contents of the log.\<close>

definition log_writes :: "u32 \<Rightarrow> u32 list \<Rightarrow> (u32 \<Rightarrow> bytes) \<Rightarrow> nat \<Rightarrow> (u32 \<times> bytes) list" where
  "log_writes st bs V k = map (\<lambda>i. (lblock st i, V (bs ! i))) [0..<k]"

definition home_writes :: "u32 \<Rightarrow> u32 list \<Rightarrow> (u32 \<Rightarrow> bytes) \<Rightarrow> nat \<Rightarrow> (u32 \<times> bytes) list" where
  "home_writes st bs V k = map (\<lambda>i. (bs ! i, V (lblock st i))) [0..<k]"

lemma log_writes_fst: "fst ` set (log_writes st bs V k) = lblock st ` {..<k}"
  by (auto simp: log_writes_def image_image)

lemma home_writes_fst: "k \<le> length bs \<Longrightarrow> fst ` set (home_writes st bs V k) \<subseteq> set bs"
  by (auto simp: home_writes_def)

lemma finite_dirties: "finite (dirties s)"
proof -
  have "dirties s \<subseteq> (\<lambda>i. bblockno (bufs s ! i)) ` {..<NBUF}" by (auto simp: dirties_def slot_def)
  then show ?thesis by (rule finite_subset) simp
qed

lemma home_not_logged:
  assumes "log_geom N st L bs" and "b \<in> set bs" and "k \<le> length bs"
  shows "b \<notin> lblock st ` {..<k}"
proof
  assume "b \<in> lblock st ` {..<k}"
  then obtain i where i: "i < k" "b = lblock st i" by auto
  then have "i < length bs" using assms(3) by simp
  from lblock_in_log(4) [OF assms(1) this assms(2)] i(2) show False by simp
qed

lemma write_log_loop:
  assumes x: "tx s bs" and d: "set bs \<subseteq> dirties s" "card (dirties s) < NBUF" and k: "k \<le> length bs"
  shows "\<exists>t. foreach [0..<k] write_log_one s = Done () t \<and> wrote s t (log_writes (log_start s) bs (bview s) k)"
  using k
proof (induction k)
  case 0
  show ?case using wrote_Nil [of s] x by (simp add: tx_def log_writes_def)
next
  case (Suc k)
  let ?W = "log_writes (log_start s) bs (bview s)"
  have r: "bc_ready s" and g: "log_geom (length (disk s)) (log_start s) (nat (log_size s)) bs" using x by (simp_all add: tx_def)
  from Suc obtain t where t: "foreach [0..<k] write_log_one s = Done () t" and w: "wrote s t (?W k)" by auto
  note T = wroteD [OF w r]
  have bk: "bs ! k \<in> set bs" using Suc.prems by simp
  have out: "bs ! k \<notin> lblock (log_start s) ` {..<k}"
    by (rule home_not_logged [OF g bk]) (use Suc.prems in simp)
  have "tx t bs" using tx_step [OF x] w T(5) unfolding wrote_def by fastforce
  moreover have "bs ! k \<in> dirties t" using d(1) bk out by (auto simp: T(4) log_writes_fst)
  moreover have "card (dirties t) < NBUF"
    using d(2) card_mono [of "dirties s" "dirties t"] finite_dirties [of s] by (simp add: T(4))
  ultimately obtain u where u: "write_log_one k t = Done () u"
    "bc_to t u ((bview t)(lblock (log_start t) k := bview t (bs ! k))) Map.empty
      (dirties t - {lblock (log_start t) k}) ((disk t)[unat (lblock (log_start t) k) := bview t (bs ! k)])
      (dtrace t @ [(unat (lblock (log_start t) k), bview t (bs ! k))])"
    using write_log_one_spec [of t bs k] Suc.prems by auto
  have "log_start t = log_start s" by (rule cframe_log(1) [OF T(7)])
  moreover have "bview t (bs ! k) = bview s (bs ! k)" using out by (simp add: T(2) fold_vput_other log_writes_fst)
  ultimately have "wrote t u [(lblock (log_start s) k, bview s (bs ! k))]"
    using u(2) by (simp add: wrote_def vput_def dput_def onto_def)
  from wrote_append [OF w this] have "wrote s u (?W (Suc k))" by (simp add: log_writes_def)
  moreover have "foreach [0..<Suc k] write_log_one s = Done () u"
    using t u(1) by (simp add: foreach_append bd_run)
  ultimately show ?case by blast
qed

lemma install_loop:
  assumes x: "tx s bs" and d: "card (dirties s) < NBUF" "set bs \<subseteq> dirties s \<or> Suc (card (dirties s)) < NBUF"
    and k: "k \<le> length bs"
  shows "\<exists>t. foreach [0..<k] install_one s = Done () t \<and> wrote s t (home_writes (log_start s) bs (bview s) k)"
  using k
proof (induction k)
  case 0
  show ?case using wrote_Nil [of s] x by (simp add: tx_def home_writes_def)
next
  case (Suc k)
  let ?W = "home_writes (log_start s) bs (bview s)"
  have r: "bc_ready s" and g: "log_geom (length (disk s)) (log_start s) (nat (log_size s)) bs"
    and dist: "distinct bs" using x by (simp_all add: tx_def log_geom_def)
  have kl: "k < length bs" "k \<le> length bs" using Suc.prems by simp_all
  from Suc obtain t where t: "foreach [0..<k] install_one s = Done () t" and w: "wrote s t (?W k)" by auto
  note T = wroteD [OF w r]
  have ls: "log_start t = log_start s" by (rule cframe_log(1) [OF T(7)])
  have W: "fst ` set (?W k) = (!) bs ` {..<k}" by (auto simp: home_writes_def image_image)
  have fresh: "bs ! k \<notin> fst ` set (?W k)"
    using dist kl unfolding W by (auto simp: nth_eq_iff_index_eq)
  have out: "lblock (log_start s) k \<notin> fst ` set (?W k)"
    using home_writes_fst [OF kl(2)] lblock_in_log(4) [OF g kl(1)] by blast
  have "tx t bs" using tx_step [OF x] w T(5) unfolding wrote_def by fastforce
  moreover have le: "card (dirties t) \<le> card (dirties s)"
    using card_mono [of "dirties s" "dirties t"] finite_dirties [of s] by (simp add: T(4))
  then have "card (dirties t) < NBUF" using d(1) by simp
  moreover have "bs ! k \<in> dirties t \<or> Suc (card (dirties t)) < NBUF"
  proof (cases "set bs \<subseteq> dirties s")
    case True
    then have "bs ! k \<in> dirties s" using kl(1) by auto
    with fresh show ?thesis by (simp add: T(4))
  next
    case False
    with d(2) le show ?thesis by simp
  qed
  ultimately obtain u where u: "install_one k t = Done () u"
    "bc_to t u ((bview t)(bs ! k := bview t (lblock (log_start t) k))) Map.empty
      (dirties t - {bs ! k}) ((disk t)[unat (bs ! k) := bview t (lblock (log_start t) k)])
      (dtrace t @ [(unat (bs ! k), bview t (lblock (log_start t) k))])"
    using install_one_spec [of t bs k] kl(1) by auto
  have "bview t (lblock (log_start s) k) = bview s (lblock (log_start s) k)"
    using out by (simp add: T(2) fold_vput_other)
  then have "wrote t u [(bs ! k, bview s (lblock (log_start s) k))]"
    using u(2) by (simp add: wrote_def vput_def dput_def onto_def ls)
  from wrote_append [OF w this] have "wrote s u (?W (Suc k))" by (simp add: home_writes_def)
  moreover have "foreach [0..<Suc k] install_one s = Done () u"
    using t u(1) by (simp add: foreach_append bd_run)
  ultimately show ?case by blast
qed

text \<open>The log device is device 1 and its header block is on the disk.\<close>

definition log_here :: "'z logst_scheme \<Rightarrow> bool" where
  "log_here s \<longleftrightarrow> bc_ready s \<and> handle s = Map.empty \<and> log_dev s = 1 \<and> unat (log_start s) < length (disk s)"

lemma write_head_spec:
  assumes "log_here s" and "card (dirties s) < NBUF" and "lh_n s = int k" and "k \<le> LOGSIZE"
  shows "\<exists>t. write_head s = Done () t \<and>
    wrote s t [(log_start s, put_head (int k) (lh_block s) (bview s (log_start s)))]"
proof -
  have h: "bc_ready s" "handle s = Map.empty" "log_dev s = 1" "unat (log_start s) < length (disk s)"
    using assms(1) by (simp_all add: log_here_def)
  let ?f = "put_head (int k) (lh_block s)"
  have "length (?f (bview s (log_start s))) = BSIZE"
    by (rule put_head_spec(1) [OF bc.view_length [OF h(1,4)] assms(4)])
  then obtain t where t: "bd (bread 1 (log_start s)) (\<lambda>b. bd (bpeek b) (\<lambda>x. bd (bput b (?f x)) (\<lambda>_.
      bd (bwrite b) (\<lambda>_. brelse b)))) s = Done () t"
    "bc_to s t ((bview s)(log_start s := ?f (bview s (log_start s)))) (handle s) (dirties s - {log_start s})
      ((disk s)[unat (log_start s) := ?f (bview s (log_start s))])
      (dtrace s @ [(unat (log_start s), ?f (bview s (log_start s)))])"
    using bc.write_block [OF h(1,4), of ?f] assms(2) h(2) by auto
  have "write_head s = Done () t"
    using t(1) assms(3,4) h(3) by (simp add: write_head_def bd_run [of "gets _"])
  with t(2) h(2) show ?thesis by (simp add: wrote_def vput_def dput_def onto_def)
qed

text \<open>Reading the header: the count and the block numbers.\<close>

lemma lh_set_run: "i < LOGSIZE \<Longrightarrow> lh_set i v s = Done () (s\<lparr>lh_block := (lh_block s)[i := v]\<rparr>)"
  by (simp add: lh_set_def)

lemma lh_set_loop:
  assumes "k \<le> LOGSIZE" and "length (lh_block s) = LOGSIZE"
  shows "\<exists>ys. foreach [0..<k] (\<lambda>i. lh_set i (f i)) s = Done () (s\<lparr>lh_block := ys\<rparr>) \<and> length ys = LOGSIZE \<and>
    take k ys = map f [0..<k]"
  using assms
proof (induction k)
  case 0
  show ?case by (intro exI [of _ "lh_block s"]) (use assms(2) in simp)
next
  case (Suc k)
  then obtain ys where ys: "foreach [0..<k] (\<lambda>i. lh_set i (f i)) s = Done () (s\<lparr>lh_block := ys\<rparr>)"
    "length ys = LOGSIZE" "take k ys = map f [0..<k]" by auto
  have "take (Suc k) (ys[k := f k]) = map f [0..<Suc k]"
    using ys(2,3) Suc.prems(1) by (simp add: take_Suc_conv_app_nth)
  then show ?case
    using ys Suc.prems(1)
    by (intro exI [of _ "ys[k := f k]"]) (simp add: foreach_append bd_run lh_set_run)
qed

lemma read_head_spec:
  assumes "log_here s" and "card (dirties s) < NBUF" and "length (lh_block s) = LOGSIZE"
    and h: "bview s (log_start s) = hd_blk" "head_n hd_blk = int k" "k \<le> LOGSIZE"
  shows "\<exists>t. read_head s = Done () t \<and> lh_n t = int k \<and> length (lh_block t) = LOGSIZE \<and>
    take k (lh_block t) = map (head_block hd_blk) [0..<k] \<and> log_start t = log_start s \<and>
    log_size t = log_size s \<and> log_dev t = log_dev s \<and> bc_ready t \<and> handle t = Map.empty \<and>
    bview t = bview s \<and> dirties t = dirties s \<and> disk t = disk s \<and> dtrace t = dtrace s \<and> held t = held s"
proof -
  have l: "bc_ready s" "handle s = Map.empty" "log_dev s = 1" "unat (log_start s) < length (disk s)"
    using assms(1) by (simp_all add: log_here_def)
  obtain b u where u: "bread 1 (log_start s) s = Done b u"
    and su: "bc_to s u (bview s) ((handle s)(b \<mapsto> log_start s)) (dirties s) (disk s) (dtrace s)"
    using bc.rd_law [of s "log_start s"] l assms(2) by auto
  note U = bc.to_abs [OF l(1) su] cframe_log [OF bc_toD(2) [OF su]]
  have peek: "bpeek b u = Done hd_blk u" using bc.peek_law [of u b "log_start s"] U h(1) by simp
  obtain ys where ys: "foreach [0..<k] (\<lambda>i. lh_set i (head_block hd_blk i)) (u\<lparr>lh_n := int k\<rparr>) =
      Done () (u\<lparr>lh_n := int k, lh_block := ys\<rparr>)" "length ys = LOGSIZE" "take k ys = map (head_block hd_blk) [0..<k]"
    using lh_set_loop [OF h(3), of "u\<lparr>lh_n := int k\<rparr>" "head_block hd_blk"] assms(3) U by auto
  define v where "v = u\<lparr>lh_n := int k, lh_block := ys\<rparr>"
  have V: "bc_ready v" "handle v = (handle s)(b \<mapsto> log_start s)" "dirties v = dirties s" "bview v = bview s"
    "disk v = disk s" "dtrace v = dtrace s" using U by (simp_all add: v_def)
  have cl: "bview s (log_start s) = disk s ! unat (log_start s)" if "log_start s \<notin> dirties s"
    by (rule bc.view_clean [OF l(1) that]) (simp add: l(2))
  obtain t where t: "brelse b v = Done () t"
    and vt: "bc_to v t (bview v) ((handle v)(b := None)) (dirties v) (disk v) (dtrace v)"
    using bc.rl_law [of v b "log_start s"] V cl by auto
  note T = bc.to_abs [OF V(1) vt] cframe_log [OF bc_toD(2) [OF vt]]
  have "read_head s = Done () t"
    using u peek ys(1) h(2) t l(3) by (simp add: read_head_def bd_run v_def)
  moreover have "lh_n t = int k" "lh_block t = ys" "log_start t = log_start s" "log_size t = log_size s" "log_dev t = log_dev s"
    using T U by (simp_all add: v_def)
  moreover have "handle t = Map.empty" using T V(2) l(2) by auto
  moreover have "held t = held s"
    using cframe_held(1) [OF bc_toD(2) [OF vt]] cframe_held(1) [OF bc_toD(2) [OF su]] by (simp add: v_def)
  ultimately show ?thesis using T V ys(2,3) by auto
qed

lemma tx_log_here: "tx s bs \<Longrightarrow> log_here s"
  by (auto simp: tx_def log_here_def log_geom_def)

lemma tx_wrote:
  assumes "tx s bs" and "wrote s t ws"
  shows "tx t bs"
  using tx_step [OF assms(1)] assms(2) unfolding wrote_def by fastforce

lemma header_not_home: "log_geom N st L bs \<Longrightarrow> st \<notin> set bs"
  by (auto simp: log_geom_def in_log_def)

lemma lblock_inj:
  assumes "log_geom N st L bs" and "i < length bs" and "j < length bs" and "lblock st i = lblock st j"
  shows "i = j"
proof -
  have "unat st + 1 + i = unat st + 1 + j"
    using unat_lblock [OF assms(1,2)] unat_lblock [OF assms(1,3)] unfolding assms(4) by (rule trans [OF sym])
  then show ?thesis by simp
qed

lemma log_writes_view:
  assumes g: "log_geom N st L bs" and "i < k" and "k \<le> length bs"
  shows "fold vput (log_writes st bs V k) U (lblock st i) = V (bs ! i)"
  using assms(2,3)
proof (induction k)
  case (Suc k)
  have e: "fold vput (log_writes st bs V (Suc k)) U (lblock st i) =
      (if lblock st i = lblock st k then V (bs ! k) else fold vput (log_writes st bs V k) U (lblock st i))"
    by (simp add: log_writes_def vput_def)
  show ?case
  proof (cases "i = k")
    case False
    then have "lblock st i \<noteq> lblock st k" using lblock_inj [OF g, of i k] Suc.prems by auto
    with e Suc False show ?thesis by simp
  next
    case True
    with e show ?thesis by simp
  qed
qed simp

text \<open>
  What \<^verbatim>\<open>commit\<close> writes, in order: the new contents to the log, the header with the block numbers, the
  new contents to their home blocks, the empty header.
\<close>

definition commit_writes :: "u32 \<Rightarrow> u32 list \<Rightarrow> (u32 \<Rightarrow> bytes) \<Rightarrow> bytes \<Rightarrow> bytes \<Rightarrow> (u32 \<times> bytes) list" where
  "commit_writes st bs V H H0 =
     log_writes st bs V (length bs) @ [(st, H)] @ map (\<lambda>b. (b, V b)) bs @ [(st, H0)]"

definition header_for :: "bytes \<Rightarrow> u32 list \<Rightarrow> bool" where
  "header_for H bs \<longleftrightarrow> length H = BSIZE \<and> head_n H = int (length bs) \<and> (\<forall>i < length bs. head_block H i = bs ! i)"

lemma header_for_put_head:
  assumes "length d = BSIZE" and "length bs \<le> LOGSIZE" and "take (length bs) ys = bs"
  shows "header_for (put_head (int (length bs)) ys d) bs"
proof -
  have "ys ! i = bs ! i" if "i < length bs" for i using nth_take [OF that, of ys] assms(3) by simp
  with put_head_spec [OF assms(1,2)] show ?thesis by (simp add: header_for_def)
qed

lemma commit_spec:
  assumes x: "tx s bs" and ne: "bs \<noteq> []" and d: "set bs \<subseteq> dirties s" "card (dirties s) < NBUF"
  shows "\<exists>t H H0. commit s = Done () t \<and> header_for H bs \<and> header_for H0 [] \<and> lh_n t = 0 \<and> bc_ready t \<and>
    handle t = Map.empty \<and> dirties t = dirties s - fst ` set (commit_writes (log_start s) bs (bview s) H H0) \<and>
    disk t = fold dput (map onto (commit_writes (log_start s) bs (bview s) H H0)) (disk s) \<and>
    dtrace t = dtrace s @ map onto (commit_writes (log_start s) bs (bview s) H H0)"
proof -
  let ?n = "length bs" and ?st = "log_start s" and ?V = "bview s"
  have r: "bc_ready s" and g: "log_geom (length (disk s)) ?st (nat (log_size s)) bs" and n: "lh_n s = int ?n"
    and bl: "take ?n (lh_block s) = bs"
    using x unfolding tx_def by blast+
  have le: "?n \<le> LOGSIZE" using g unfolding log_geom_def by blast
  obtain s1 where s1: "foreach [0..<?n] write_log_one s = Done () s1" and w1: "wrote s s1 (log_writes ?st bs ?V ?n)"
    using write_log_loop [OF x d order_refl] by blast
  note S1 = wroteD [OF w1 r] and L1 = cframe_log [OF wroteD(7) [OF w1 r]]
  have x1: "tx s1 bs" by (rule tx_wrote [OF x w1])
  have fin: "finite (dirties s)" by (rule finite_dirties)
  have c1: "card (dirties s1) < NBUF" using d(2) card_mono [OF fin, of "dirties s1"] by (simp add: S1(4))
  define H where "H = put_head (int ?n) (lh_block s1) (bview s1 ?st)"
  obtain s2 where s2: "write_head s1 = Done () s2" and w2: "wrote s1 s2 [(?st, H)]"
    using write_head_spec [OF tx_log_here [OF x1] c1, of ?n] le n L1 by (auto simp: H_def)
  have "unat ?st < length (disk s1)" using tx_log_here [OF x1] by (simp add: log_here_def L1(1))
  then have H: "header_for H bs"
    unfolding H_def using bc.view_length [OF S1(1)] bl le by (intro header_for_put_head) (simp_all add: L1(7))
  note S2 = wroteD [OF w2 S1(1)] and L2 = cframe_log [OF wroteD(7) [OF w2 S1(1)]]
  have x2: "tx s2 bs" by (rule tx_wrote [OF x1 w2])
  have c2: "card (dirties s2) < NBUF"
    using c1 card_mono [OF finite_dirties [of s1], of "dirties s2"] by (simp add: S2(4))
  have st: "?st \<notin> set bs" by (rule header_not_home [OF g])
  have "set bs \<subseteq> dirties s2"
    using d(1) st home_not_logged [OF g _ order_refl] by (auto simp: S2(4) S1(4) log_writes_fst)
  then obtain s3 where s3: "foreach [0..<?n] install_one s2 = Done () s3"
    and w3: "wrote s2 s3 (home_writes ?st bs (bview s2) ?n)"
    using install_loop [OF x2 c2 _ order_refl] L1(1) L2(1) by auto
  have "bview s2 (lblock ?st i) = ?V (bs ! i)" if "i < ?n" for i
    using lblock_in_log(3) [OF g that] log_writes_view [OF g that order_refl, of ?V ?V]
    by (auto simp: S2(2) S1(2) vput_def)
  then have "home_writes ?st bs (bview s2) ?n = map (\<lambda>b. (b, ?V b)) bs"
    by (intro nth_equalityI) (simp_all add: home_writes_def)
  then have w3': "wrote s2 s3 (map (\<lambda>b. (b, ?V b)) bs)" using w3 by simp
  note S3 = wroteD [OF w3' S2(1)] and L3 = cframe_log [OF wroteD(7) [OF w3' S2(1)]]
  define s4 where "s4 = s3\<lparr>lh_n := 0\<rparr>"
  have S4: "bc_ready s4" "handle s4 = Map.empty" "bview s4 = bview s3" "dirties s4 = dirties s3" "disk s4 = disk s3"
    "dtrace s4 = dtrace s3" "lh_n s4 = 0" "log_start s4 = ?st" "log_dev s4 = log_dev s3"
    using S3 L1 L2 L3 by (simp_all add: s4_def)
  have h4: "log_here s4"
    using tx_log_here [OF tx_wrote [OF x2 w3']] S4 L1(1) L2(1) L3(1) by (simp add: log_here_def)
  have c4: "card (dirties s4) < NBUF"
    using c2 card_mono [OF finite_dirties [of s2], of "dirties s3"] by (simp add: S4(4) S3(4))
  define H0 where "H0 = put_head (int 0) (lh_block s4) (bview s4 ?st)"
  obtain t where t: "write_head s4 = Done () t" and w4: "wrote s4 t [(?st, H0)]"
    using write_head_spec [OF h4 c4, of 0] S4(7,8) by (auto simp: H0_def)
  have "unat ?st < length (disk s4)" using h4 S4(8) by (simp add: log_here_def)
  then have H0: "header_for H0 []"
    unfolding H0_def using bc.view_length [OF S4(1)] header_for_put_head [of _ "[]"] by simp
  note T = wroteD [OF w4 S4(1)] and LT = cframe_log [OF wroteD(7) [OF w4 S4(1)]]
  have "commit s = Done () t"
    using s1 s2 s3 t ne n L1(6) L2(6)
    by (simp add: commit_def bd_run write_log_def install_trans_def s4_def)
  moreover have "disk t = fold dput (map onto (commit_writes ?st bs ?V H H0)) (disk s)"
    unfolding T(5) S4(5) S3(5) S2(5) S1(5) by (simp add: commit_writes_def)
  moreover have "dtrace t = dtrace s @ map onto (commit_writes ?st bs ?V H H0)"
    unfolding T(6) S4(6) S3(6) S2(6) S1(6) by (simp add: commit_writes_def)
  moreover have "dirties t = dirties s - fst ` set (commit_writes ?st bs ?V H H0)"
    unfolding T(4) S4(4) S3(4) S2(4) S1(4) by (auto simp: commit_writes_def)
  ultimately show ?thesis using H H0 T(1,3) LT(6) S4(7) by auto
qed

section \<open>Recovery\<close>

definition recovery_writes :: "u32 \<Rightarrow> u32 list \<Rightarrow> bytes list \<Rightarrow> bytes \<Rightarrow> (nat \<times> bytes) list" where
  "recovery_writes st bs d H0 =
     map (\<lambda>i. (unat (bs ! i), d ! unat (lblock st i))) [0..<length bs] @ [(unat st, H0)]"

text \<open>A freshly booted cache: nothing held or dirty.\<close>

definition fresh :: "'z logst_scheme \<Rightarrow> bool" where
  "fresh s \<longleftrightarrow> bc_ready s \<and> handle s = Map.empty \<and> dirties s = {} \<and> length (lh_block s) = LOGSIZE"

lemma fresh_view: "fresh s \<Longrightarrow> bview s n = disk s ! unat n"
  unfolding fresh_def by (intro bc.view_clean) auto

lemma recover_spec:
  assumes f: "fresh s" and dev: "log_dev s = 1"
    and g: "log_geom (length (disk s)) (log_start s) (nat (log_size s)) bs"
    and hdr: "header_for (disk s ! unat (log_start s)) bs"
  shows "\<exists>t H0. recover_from_log s = Done () t \<and> header_for H0 [] \<and> fresh t \<and> lh_n t = 0 \<and>
    disk t = fold dput (recovery_writes (log_start s) bs (disk s) H0) (disk s) \<and>
    dtrace t = dtrace s @ recovery_writes (log_start s) bs (disk s) H0 \<and> held t = held s \<and>
    log_start t = log_start s \<and> log_size t = log_size s \<and> log_dev t = log_dev s"
proof -
  let ?n = "length bs" and ?st = "log_start s"
  have F: "bc_ready s" "handle s = Map.empty" "dirties s = {}" "length (lh_block s) = LOGSIZE"
    using f by (simp_all add: fresh_def)
  have le: "?n \<le> LOGSIZE" and inr: "unat ?st < length (disk s)" using g by (auto simp: log_geom_def)
  have nb: "0 < NBUF" "Suc 0 < NBUF" by (simp_all add: NBUF_def MAXOPBLOCKS_def)
  have here: "log_here s" using F dev inr by (simp add: log_here_def)
  have hn: "head_n (disk s ! unat ?st) = int ?n" and hb: "\<forall>i < ?n. head_block (disk s ! unat ?st) i = bs ! i"
    using hdr by (simp_all add: header_for_def)
  have "card (dirties s) < NBUF" using F(3) nb by simp
  from read_head_spec [OF here this F(4) fresh_view [OF f] hn le]
  obtain s1 where s1: "read_head s = Done () s1" "lh_n s1 = int ?n" "length (lh_block s1) = LOGSIZE"
    "take ?n (lh_block s1) = map (head_block (disk s ! unat ?st)) [0..<?n]" "log_start s1 = ?st"
    "log_size s1 = log_size s" "log_dev s1 = log_dev s" "bc_ready s1" "handle s1 = Map.empty"
    "bview s1 = bview s" "dirties s1 = dirties s" "disk s1 = disk s" "dtrace s1 = dtrace s" "held s1 = held s"
    by blast
  have "take ?n (lh_block s1) = bs" unfolding s1(4) by (rule nth_equalityI) (use hb in simp_all)
  then have x1: "tx s1 bs" using s1 g dev by (simp add: tx_def)
  have "card (dirties s1) < NBUF" "set bs \<subseteq> dirties s1 \<or> Suc (card (dirties s1)) < NBUF"
    using s1(11) F(3) nb by simp_all
  then obtain s2 where s2: "foreach [0..<?n] install_one s1 = Done () s2"
    and w2: "wrote s1 s2 (home_writes ?st bs (bview s1) ?n)"
    using install_loop [OF x1 _ _ order_refl] s1(5) by auto
  note S2 = wroteD [OF w2 s1(8)] and L2 = cframe_log [OF wroteD(7) [OF w2 s1(8)]]
  define s3 where "s3 = s2\<lparr>lh_n := 0\<rparr>"
  have S3: "bc_ready s3" "handle s3 = Map.empty" "bview s3 = bview s2" "dirties s3 = {}" "disk s3 = disk s2"
    "dtrace s3 = dtrace s2" "lh_n s3 = 0" "log_start s3 = ?st" "log_dev s3 = 1" "length (lh_block s3) = LOGSIZE"
    using S2 L2 s1 F(3) dev by (simp_all add: s3_def)
  have h3: "log_here s3" using S3 inr s1(12) by (simp add: log_here_def S2(5))
  define H0 where "H0 = put_head (int 0) (lh_block s3) (bview s3 ?st)"
  have "card (dirties s3) < NBUF" using S3(4) nb by simp
  then obtain t where t: "write_head s3 = Done () t" and w3: "wrote s3 t [(?st, H0)]"
    using write_head_spec [OF h3, of 0] S3(7,8) by (auto simp: H0_def)
  note T = wroteD [OF w3 S3(1)] and LT = cframe_log [OF wroteD(7) [OF w3 S3(1)]]
  have "unat ?st < length (disk s3)" using h3 S3(8) by (simp add: log_here_def)
  then have H0: "header_for H0 []"
    unfolding H0_def using bc.view_length [OF S3(1)] header_for_put_head [of _ "[]"] by simp
  have w: "map onto (home_writes ?st bs (bview s1) ?n) @ [(unat ?st, H0)] = recovery_writes ?st bs (disk s) H0"
    by (simp add: home_writes_def recovery_writes_def onto_def s1(10) fresh_view [OF f])
  have "recover_from_log s = Done () t"
    using s1(1,2) s2 t by (simp add: recover_from_log_def bd_run install_trans_def s3_def)
  moreover have "disk t = fold dput (recovery_writes ?st bs (disk s) H0) (disk s)"
    unfolding T(5) S3(5) S2(5) s1(12) w [symmetric] by (simp add: onto_def)
  moreover have "dtrace t = dtrace s @ recovery_writes ?st bs (disk s) H0"
    unfolding T(6) S3(6) S2(6) s1(13) w [symmetric] by (simp add: onto_def)
  moreover have "fresh t" using T(1,3,4) S3(4,10) LT(7) by (simp add: fresh_def)
  moreover have "held t = held s"
    using cframe_held(1) [OF T(7)] cframe_held(1) [OF S2(7)] s1(14) by (simp add: s3_def)
  moreover have "log_start t = ?st" "log_size t = log_size s" "log_dev t = log_dev s"
    using LT L2 s1(5-7) by (simp_all add: s3_def)
  ultimately show ?thesis using H0 LT(6) S3(7) by auto
qed

text \<open>The whole of start-up: \<^verbatim>\<open>binit\<close> on zeroed buffers, then \<^verbatim>\<open>initlog\<close>.\<close>

definition boots :: "'z logst_scheme \<Rightarrow> bytes list \<Rightarrow> bool" where
  "boots s d \<longleftrightarrow> zero_bufs s \<and> disk s = d \<and> LBcache \<notin> held s \<and> LPtable \<notin> held s \<and> length (lh_block s) = LOGSIZE"

definition boot :: "('z logst_scheme, unit) kop" where
  "boot = bd binit (\<lambda>_. initlog 1)"

definition log_at :: "bytes list \<Rightarrow> u32 \<Rightarrow> nat \<Rightarrow> bool" where
  "log_at d st L \<longleftrightarrow> 1 < length d \<and> sb_logstart (sb_of (d ! 1)) = st \<and> nat (sint (sb_nlog (sb_of (d ! 1)))) = L"

lemma boot_spec:
  assumes b: "boots s d" and len: "\<forall>x \<in> set d. length x = BSIZE" and at: "log_at d st L"
    and g: "log_geom (length d) st L bs" and hdr: "header_for (d ! unat st) bs"
  shows "\<exists>t H0. boot s = Done () t \<and> header_for H0 [] \<and> fresh t \<and> lh_n t = 0 \<and>
    disk t = fold dput (recovery_writes st bs d H0) d \<and> dtrace t = dtrace s @ recovery_writes st bs d H0 \<and>
    held t = held s \<and> log_start t = st \<and> log_size t = sint (sb_nlog (sb_of (d ! 1))) \<and> log_dev t = 1"
proof -
  have B: "zero_bufs s" "disk s = d" "LBcache \<notin> held s" "LPtable \<notin> held s" "length (lh_block s) = LOGSIZE"
    using b by (simp_all add: boots_def)
  obtain s1 where s1: "binit s = Done () s1"
    "bc_to s s1 (\<lambda>n. disk s ! unat n) Map.empty {} (disk s) (dtrace s)"
    using binit_spec [OF B(1)] len B(2) by auto
  note T1 = bc_toD [OF s1(2)] and C1 = cframe_log [OF bc_toD(2) [OF s1(2)]]
  have r1: "bc_ready s1" using T1(1) cframe_held(1) [OF T1(2)] B(3,4) by (simp add: bc_ready_def)
  have "unat (1 :: u32) < length (disk s1)" using at T1(6) B(2) by (simp add: log_at_def)
  then obtain s2 where s2: "bd (bread 1 1) (\<lambda>b. bd (bpeek b) (\<lambda>x. bd (brelse b) (\<lambda>_. ret (sb_of x)))) s1 =
      Done (sb_of (bview s1 1)) s2"
    and w2: "bc_to s1 s2 (bview s1) (handle s1) (dirties s1) (disk s1) (dtrace s1)"
    using bc.read_block [OF r1, of 1 sb_of] T1(4,5) by (auto simp: NBUF_def MAXOPBLOCKS_def)
  note T2 = bc.to_abs [OF r1 w2] and C2 = cframe_log [OF bc_toD(2) [OF w2]]
  have sbv: "bview s1 1 = d ! 1" using T1(3) B(2) by simp
  define x where "x = sb_of (d ! 1)"
  define s3 where "s3 = s2\<lparr>log_start := sb_logstart x, log_size := sint (sb_nlog x), log_dev := 1\<rparr>"
  have abs3: "bview s3 = bview s2" "handle s3 = handle s2" "dirties s3 = dirties s2" "bc_ready s3 = bc_ready s2"
    by (auto simp: s3_def bc_ready_def bc_inv_def bview_def handle_def dirties_def fun_eq_iff split: option.split)
  have S3: "log_start s3 = st" "nat (log_size s3) = L" "log_dev s3 = 1" "disk s3 = d" "dtrace s3 = dtrace s"
    using at T2 T1(6,7) B(2) by (simp_all add: s3_def log_at_def x_def)
  have f3: "fresh s3" using T2 T1 C1 C2 B(5) unfolding fresh_def abs3 by (simp add: s3_def)
  obtain t H0 where t: "recover_from_log s3 = Done () t" "header_for H0 []" "fresh t" "lh_n t = 0"
    "disk t = fold dput (recovery_writes st bs d H0) d" "dtrace t = dtrace s @ recovery_writes st bs d H0"
    "held t = held s3" "log_start t = st" "log_size t = log_size s3" "log_dev t = 1"
    using recover_spec [OF f3 S3(3), of bs] g hdr S3 by auto
  have h: "held t = held s" "log_size t = sint (sb_nlog (sb_of (d ! 1)))"
    using t(7,9) cframe_held(1) [OF bc_toD(2) [OF w2]] cframe_held(1) [OF T1(2)] by (simp_all add: s3_def x_def)
  have "\<not> sizeof_logheader \<ge> BSIZE" by (simp add: sizeof_logheader_def BSIZE_def LOGSIZE_def MAXOPBLOCKS_def)
  moreover have "readsb 1 s1 = Done x s2" using s2 sbv by (simp add: readsb_def x_def)
  ultimately have "boot s = Done () t"
    using s1(1) t(1) by (simp add: boot_def bd_run initlog_def s3_def)
  with t(2-6,8,10) h show ?thesis by blast
qed

section \<open>Disks between the writes\<close>

text \<open>The blocks outside the log have the contents \<open>v\<close>.\<close>

definition holds_outside :: "u32 \<Rightarrow> nat \<Rightarrow> (nat \<Rightarrow> bytes) \<Rightarrow> bytes list \<Rightarrow> bool" where
  "holds_outside st L v d \<longleftrightarrow> (\<forall>n < length d. \<not> in_log st L n \<longrightarrow> d ! n = v n)"

text \<open>An empty log over the contents \<open>v\<close>, and a committed log whose installation leads to \<open>v\<close>.\<close>

definition clean :: "u32 \<Rightarrow> nat \<Rightarrow> (nat \<Rightarrow> bytes) \<Rightarrow> bytes list \<Rightarrow> bool" where
  "clean st L v d \<longleftrightarrow> header_for (d ! unat st) [] \<and> holds_outside st L v d"

definition logged :: "u32 \<Rightarrow> nat \<Rightarrow> u32 list \<Rightarrow> (nat \<Rightarrow> bytes) \<Rightarrow> bytes list \<Rightarrow> bool" where
  "logged st L bs v d \<longleftrightarrow> header_for (d ! unat st) bs \<and>
     (\<forall>i < length bs. d ! unat (lblock st i) = v (unat (bs ! i))) \<and>
     (\<forall>n < length d. \<not> in_log st L n \<longrightarrow> n \<notin> unat ` set bs \<longrightarrow> d ! n = v n)"

lemma clean_log_writes:
  assumes "clean st L v d" and "\<forall>w \<in> set ws. in_log st L (fst w) \<and> fst w \<noteq> unat st" and "in_log st L (unat st)"
  shows "clean st L v (fold dput ws d)"
proof -
  have "unat st \<notin> fst ` set ws" using assms(2) by auto
  then have "fold dput ws d ! unat st = d ! unat st" by (rule fold_dput_other)
  moreover have "fold dput ws d ! n = d ! n" if "\<not> in_log st L n" for n
    by (rule fold_dput_other) (use that assms(2) in auto)
  ultimately show ?thesis using assms(1) by (simp add: clean_def holds_outside_def)
qed

lemma logged_home_writes:
  assumes l: "logged st L bs v d" and w: "\<forall>w \<in> set ws. fst w \<in> unat ` set bs" and g: "log_geom N st L bs"
  shows "logged st L bs v (fold dput ws d)"
proof -
  have home: "\<not> in_log st L n" if "n \<in> fst ` set ws" for n using that w g by (auto simp: log_geom_def)
  have "fold dput ws d ! unat st = d ! unat st"
  proof (rule fold_dput_other)
    have "in_log st L (unat st)" using g by (auto simp: log_geom_def in_log_def)
    then show "unat st \<notin> fst ` set ws" using home by blast
  qed
  moreover have "fold dput ws d ! unat (lblock st i) = d ! unat (lblock st i)" if "i < length bs" for i
    by (rule fold_dput_other) (use home lblock_in_log(1) [OF g that] in blast)
  moreover have "fold dput ws d ! n = d ! n" if "n \<notin> unat ` set bs" for n
    by (rule fold_dput_other) (use w that in blast)
  ultimately show ?thesis using l by (simp add: logged_def)
qed

lemma clean_header_write:
  assumes "unat st < length d" and "header_for H []" and "in_log st L (unat st)" and "holds_outside st L v d"
  shows "clean st L v (dput (unat st, H) d)"
proof -
  have "dput (unat st, H) d ! n = d ! n" if "\<not> in_log st L n" for n
    using that assms(3) by (cases "n = unat st") (auto simp: dput_def)
  then show ?thesis using assms by (simp add: clean_def holds_outside_def dput_def)
qed

lemma installed:
  assumes l: "logged st L bs v d" and g: "log_geom (length d) st L bs"
    and ws: "distinct (map fst ws)" "set ws = (\<lambda>b. (unat b, v (unat b))) ` set bs"
  shows "holds_outside st L v (fold dput ws d)"
  unfolding holds_outside_def
proof (intro allI impI)
  fix n assume n: "n < length (fold dput ws d)" "\<not> in_log st L n"
  show "fold dput ws d ! n = v n"
  proof (cases "n \<in> unat ` set bs")
    case True
    then have "(n, v n) \<in> set ws" unfolding ws(2) by auto
    then show ?thesis using fold_dput_at [OF ws(1)] n(1) by simp
  next
    case False
    then have "n \<notin> fst ` set ws" unfolding ws(2) by auto
    with False n l show ?thesis by (simp add: fold_dput_other logged_def)
  qed
qed

lemma prefix_cases:
  fixes k :: nat
  obtains j where "take k (A @ [h] @ B @ [e]) = take j A"
  | j where "take k (A @ [h] @ B @ [e]) = A @ [h] @ take j B"
  | "take k (A @ [h] @ B @ [e]) = A @ [h] @ B @ [e]"
proof (cases "k \<le> length A")
  case True
  then show ?thesis using that(1) [of k] by simp
next
  case False
  then obtain j where j: "k = length A + Suc j" by (metis less_imp_Suc_add not_le add_Suc_right)
  show ?thesis
  proof (cases "j \<le> length B")
    case True
    then show ?thesis using that(2) [of j] j by simp
  next
    case False
    then have "j - length B \<noteq> 0" by simp
    then show ?thesis using that(3) j by (cases "j - length B") simp_all
  qed
qed

lemma distinct_unat: "distinct (map unat bs) = distinct (bs :: u32 list)"
  by (simp add: distinct_map inj_on_def word_unat_eq_iff)

text \<open>Every disk a crash during \<^verbatim>\<open>commit\<close> can leave behind is clean before, or leads to the contents after.\<close>

lemma commit_prefix:
  assumes g: "log_geom (length d) st L bs" and c: "clean st L old d"
    and H: "header_for H bs" and H0: "header_for H0 []"
    and v: "\<And>n. n \<notin> unat ` set bs \<Longrightarrow> n < length d \<Longrightarrow> \<not> in_log st L n \<Longrightarrow> old n = v n" "\<And>b. V b = v (unat b)"
    and e: "e = fold dput (take k (map onto (commit_writes st bs V H H0))) d"
  shows "clean st L old e \<or> logged st L bs v e \<or> clean st L v e"
    and "take k (map onto (commit_writes st bs V H H0)) = map onto (commit_writes st bs V H H0) \<Longrightarrow> clean st L v e"
proof -
  let ?A = "map onto (log_writes st bs V (length bs))" and ?B = "map onto (map (\<lambda>b. (b, V b)) bs)"
  let ?h = "(unat st, H)" and ?e = "(unat st, H0)"
  have W: "map onto (commit_writes st bs V H H0) = ?A @ [?h] @ ?B @ [?e]"
    by (simp add: commit_writes_def onto_def)
  have hl: "in_log st L (unat st)" and inr: "unat st < length d" using g by (auto simp: log_geom_def in_log_def)
  have A: "in_log st L (fst w) \<and> fst w \<noteq> unat st" if "w \<in> set ?A" for w
    using that lblock_in_log(1,3) [OF g] by (auto simp: log_writes_def onto_def)
  have ca: "clean st L old (fold dput (take j ?A) d)" for j
    by (rule clean_log_writes [OF c _ hl]) (use A in_set_takeD in fast)
  define d1 where "d1 = fold dput ?A d"
  have d1: "clean st L old d1" using ca [of "length ?A"] by (simp add: d1_def)
  have dA: "distinct (map fst ?A)"
    using lblock_inj [OF g] by (auto simp: log_writes_def onto_def distinct_map inj_on_def word_unat_eq_iff)
  have lb: "d1 ! unat (lblock st i) = v (unat (bs ! i))" if "i < length bs" for i
    unfolding d1_def
  proof (rule fold_dput_at [OF dA])
    show "(unat (lblock st i), v (unat (bs ! i))) \<in> set ?A"
      using that by (force simp: log_writes_def onto_def v(2))
  qed (rule lblock_in_log(2) [OF g that])
  have ld1: "length d1 = length d" by (simp add: d1_def)
  define d2 where "d2 = dput ?h d1"
  have l2: "logged st L bs v d2"
    unfolding logged_def
  proof (intro conjI allI impI)
    show "header_for (d2 ! unat st) bs" using H inr ld1 by (simp add: d2_def dput_def)
    show "d2 ! unat (lblock st i) = v (unat (bs ! i))" if "i < length bs" for i
      using lb [OF that] lblock_in_log(3) [OF g that] by (simp add: d2_def dput_def)
    show "d2 ! n = v n" if "n < length d2" "\<not> in_log st L n" "n \<notin> unat ` set bs" for n
      using that d1 hl v(1) ld1 by (cases "n = unat st") (auto simp: d2_def dput_def clean_def holds_outside_def)
  qed
  have ld2: "length d2 = length d" by (simp add: d2_def dput_def ld1)
  have B: "fst w \<in> unat ` set bs" if "w \<in> set ?B" for w using that by (auto simp: onto_def)
  have lB: "logged st L bs v (fold dput (take j ?B) d2)" for j
    by (rule logged_home_writes [OF l2 _ g]) (use B in_set_takeD in fast)
  have "distinct (map fst ?B)" using g by (simp add: log_geom_def onto_def comp_def distinct_unat)
  moreover have "set ?B = (\<lambda>b. (unat b, v (unat b))) ` set bs" by (auto simp: onto_def v(2))
  ultimately have "holds_outside st L v (fold dput ?B d2)" using installed [OF l2] g ld2 by simp
  then have c3: "clean st L v (dput ?e (fold dput ?B d2))"
    using clean_header_write [OF _ H0 hl] inr ld2 by simp
  have full: "fold dput (?A @ [?h] @ ?B @ [?e]) d = dput ?e (fold dput ?B d2)"
    by (simp only: fold_append fold_simps comp_apply d1_def d2_def)
  have mid: "fold dput (?A @ [?h] @ X) d = fold dput X d2" for X
    by (simp only: fold_append fold_simps comp_apply d1_def d2_def)
  show "clean st L old e \<or> logged st L bs v e \<or> clean st L v e"
  proof (cases rule: prefix_cases [of k ?A ?h ?B ?e])
    case (1 j)
    then show ?thesis using ca [of j] by (simp only: e W simp_thms)
  next
    case (2 j)
    then show ?thesis using lB [of j] by (simp only: e W mid simp_thms)
  next
    case 3
    then show ?thesis using c3 by (simp only: e W full simp_thms)
  qed
  show "clean st L v e" if "take k (map onto (commit_writes st bs V H H0)) = map onto (commit_writes st bs V H H0)"
    unfolding e that unfolding W full by (rule c3)
qed

lemma clean_logged: "clean st L v d \<longleftrightarrow> logged st L [] v d"
  by (auto simp: clean_def logged_def holds_outside_def)

lemma recovery_prefix:
  assumes g: "log_geom (length d) st L bs" and l: "logged st L bs v d" and H0: "header_for H0 []"
    and e: "e = fold dput (take k (recovery_writes st bs d H0)) d"
  shows "logged st L bs v e \<or> clean st L v e"
    and "clean st L v (fold dput (recovery_writes st bs d H0) d)"
proof -
  let ?B = "map (\<lambda>i. (unat (bs ! i), d ! unat (lblock st i))) [0..<length bs]"
  have hl: "in_log st L (unat st)" and inr: "unat st < length d" using g by (auto simp: log_geom_def in_log_def)
  have B: "?B = map (\<lambda>b. (unat b, v (unat b))) bs"
    by (rule nth_equalityI) (use l in \<open>simp_all add: logged_def\<close>)
  have lB: "logged st L bs v (fold dput (take j ?B) d)" for j
    by (rule logged_home_writes [OF l _ g]) (use B in_set_takeD in \<open>fastforce\<close>)
  have "distinct (map fst ?B)" unfolding B using g by (simp add: log_geom_def comp_def distinct_unat)
  moreover have "set ?B = (\<lambda>b. (unat b, v (unat b))) ` set bs" unfolding B by simp
  ultimately have "holds_outside st L v (fold dput ?B d)" by (rule installed [OF l g])
  then have c: "clean st L v (dput (unat st, H0) (fold dput ?B d))"
    using clean_header_write [OF _ H0 hl] inr by simp
  have full: "fold dput (recovery_writes st bs d H0) d = dput (unat st, H0) (fold dput ?B d)"
    by (simp only: recovery_writes_def fold_append fold_simps comp_apply)
  show "clean st L v (fold dput (recovery_writes st bs d H0) d)" unfolding full by (rule c)
  show "logged st L bs v e \<or> clean st L v e"
  proof (cases "k \<le> length ?B")
    case True
    then have "take k (recovery_writes st bs d H0) = take k ?B" by (simp add: recovery_writes_def)
    then show ?thesis using lB [of k] by (simp only: e simp_thms)
  next
    case False
    then have "take k (recovery_writes st bs d H0) = recovery_writes st bs d H0" by (simp add: recovery_writes_def)
    then show ?thesis using c by (simp only: e full simp_thms)
  qed
qed

text \<open>A disk from which recovery arrives at the contents \<open>v\<close>.\<close>

definition leads_to :: "u32 \<Rightarrow> nat \<Rightarrow> (nat \<Rightarrow> bytes) \<Rightarrow> bytes list \<Rightarrow> bool" where
  "leads_to st L v d \<longleftrightarrow> (\<exists>bs. log_geom (length d) st L bs \<and> 1 \<notin> set bs \<and> logged st L bs v d) \<and>
     \<not> in_log st L 1 \<and> log_at d st L \<and> (\<forall>x \<in> set d. length x = BSIZE)"

lemma leads_to_writes:
  assumes "leads_to st L u d" and "\<forall>w \<in> set ws. fst w \<noteq> 1 \<and> length (snd w) = BSIZE"
    and "log_geom (length d) st L bs" and "1 \<notin> set bs"
    and "logged st L bs v (fold dput ws d) \<or> clean st L v (fold dput ws d)"
  shows "leads_to st L v (fold dput ws d)"
proof -
  have "fold dput ws d ! 1 = d ! 1" by (rule fold_dput_other) (use assms(2) in auto)
  then have "log_at (fold dput ws d) st L" using assms(1) by (simp add: leads_to_def log_at_def)
  moreover have "\<forall>x \<in> set (fold dput ws d). length x = BSIZE"
    by (rule fold_dput_blocks) (use assms(1,2) in \<open>auto simp: leads_to_def\<close>)
  moreover have "log_geom (length d) st L []" using assms(3) by (auto simp: log_geom_def)
  ultimately show ?thesis
    using assms(1,3,4,5) unfolding leads_to_def clean_logged by auto
qed

lemma one_not_written:
  assumes "log_geom N st L bs" and "\<not> in_log st L 1" and "1 \<notin> set bs"
  shows "unat st \<noteq> 1" and "b \<in> set bs \<Longrightarrow> unat b \<noteq> 1" and "i < length bs \<Longrightarrow> unat (lblock st i) \<noteq> 1"
proof -
  have "in_log st L (unat st)" using assms(1) by (auto simp: log_geom_def in_log_def)
  then show "unat st \<noteq> 1" using assms(2) by auto
  show "unat b \<noteq> 1" if "b \<in> set bs"
  proof
    assume "unat b = 1"
    then have "b = 1" by (simp add: word_unat_eq_iff)
    with that assms(3) show False by simp
  qed
  show "unat (lblock st i) \<noteq> 1" if "i < length bs"
    using lblock_in_log(1) [OF assms(1) that] assms(2) by metis
qed

lemma leads_to_boot:
  assumes l: "leads_to st L v d" and b: "boots r d"
  shows "\<exists>u W. boot r = Done () u \<and> lh_n u = 0 \<and> disk u = fold dput W d \<and> dtrace u = dtrace r @ W \<and>
    holds_outside st L v (disk u) \<and> (\<forall>k. leads_to st L v (fold dput (take k W) d))"
proof -
  obtain bs where g: "log_geom (length d) st L bs" and one: "1 \<notin> set bs" and lg: "logged st L bs v d"
    and sb: "\<not> in_log st L 1" "log_at d st L" and len: "\<forall>x \<in> set d. length x = BSIZE"
    using l by (auto simp: leads_to_def)
  obtain u H0 where u: "boot r = Done () u" "header_for H0 []" "lh_n u = 0"
    "disk u = fold dput (recovery_writes st bs d H0) d" "dtrace u = dtrace r @ recovery_writes st bs d H0"
    using boot_spec [OF b len sb(2) g] lg by (auto simp: logged_def)
  let ?W = "recovery_writes st bs d H0"
  have W: "fst w \<noteq> 1 \<and> length (snd w) = BSIZE" if "w \<in> set ?W" for w
    using that u(2) len one_not_written [OF g sb(1) one] lblock_in_log(2) [OF g]
    by (auto simp: recovery_writes_def header_for_def)
  have "leads_to st L v (fold dput (take k ?W) d)" for k
    using recovery_prefix(1) [OF g lg u(2) refl] W in_set_takeD
    by (intro leads_to_writes [OF l _ g one]) fast+
  moreover have "holds_outside st L v (disk u)"
    unfolding u(4) using recovery_prefix(2) [OF g lg u(2) refl] by (simp add: clean_def)
  ultimately show ?thesis using u by blast
qed

section \<open>Crash atomicity\<close>

text \<open>The disks that interrupted recoveries can leave behind, one crash after the other.\<close>

inductive interrupted :: "bytes list \<Rightarrow> bytes list \<Rightarrow> bool" for d :: "bytes list" where
  interrupted_refl: "interrupted d d"
| interrupted_step: "interrupted d e \<Longrightarrow> boots (r :: logst) e \<Longrightarrow> boot r = Done () u \<Longrightarrow>
    dtrace u = dtrace r @ W \<Longrightarrow> interrupted d (fold dput (take k W) e)"

lemma leads_to_interrupted:
  assumes "interrupted d e" and "leads_to st L v d"
  shows "leads_to st L v e"
  using assms
proof induction
  case (interrupted_step e r u W k)
  from leads_to_boot [OF interrupted_step.IH [OF interrupted_step.prems] interrupted_step.hyps(2)]
  obtain W' where "dtrace u = dtrace r @ W'" "\<forall>k. leads_to st L v (fold dput (take k W') e)"
    using interrupted_step.hyps(3) by auto
  then show ?case using interrupted_step.hyps(4) by simp
qed simp

text \<open>After any number of interrupted recoveries, recovery returns with an empty log and the contents \<open>v\<close>.\<close>

definition recovers_to :: "u32 \<Rightarrow> nat \<Rightarrow> (nat \<Rightarrow> bytes) \<Rightarrow> bytes list \<Rightarrow> bool" where
  "recovers_to st L v d \<longleftrightarrow> (\<forall>e (r :: logst). interrupted d e \<longrightarrow> boots r e \<longrightarrow>
     (\<exists>u. boot r = Done () u \<and> lh_n u = 0 \<and> holds_outside st L v (disk u)))"

lemma leads_to_recovers: "leads_to st L v d \<Longrightarrow> recovers_to st L v d"
  unfolding recovers_to_def using leads_to_boot leads_to_interrupted by metis

text \<open>
  A transaction ready to commit: its blocks \<open>bs\<close> are exactly the modified blocks, none of them is the
  super block, the log on disk is empty, and the super block describes where it is.
\<close>

definition can_commit :: "'z logst_scheme \<Rightarrow> u32 list \<Rightarrow> bool" where
  "can_commit s bs \<longleftrightarrow> tx s bs \<and> dirties s = set bs \<and> bs \<noteq> [] \<and> 1 \<notin> set bs \<and>
     \<not> in_log (log_start s) (nat (log_size s)) 1 \<and> log_at (disk s) (log_start s) (nat (log_size s)) \<and>
     log_size s \<le> int LOGSIZE \<and> header_for (disk s ! unat (log_start s)) []"

text \<open>
  C1: Atomicity of \<^verbatim>\<open>commit\<close>. It returns with an empty log and all modified blocks on the disk.
  If the machine stops after any number \<open>k\<close> of its block writes, and then stops again any number of times
  while it recovers, the next recovery (\<^verbatim>\<open>binit\<close> and \<^verbatim>\<open>initlog\<close> on the disk that is left) returns, and every
  block outside the log has the contents from before the transaction, or every block
  has the contents of the transaction; which of the two it is depends on \<open>k\<close> only.
\<close>

theorem commit_crash_atomic:
  assumes "can_commit s bs"
  defines "st \<equiv> log_start s" and "L \<equiv> nat (log_size s)"
  shows "\<exists>t W. commit s = Done () t \<and> lh_n t = 0 \<and> dirties t = {} \<and>
    disk t = fold dput W (disk s) \<and> dtrace t = dtrace s @ W \<and>
    holds_outside st L (\<lambda>n. bview s (of_nat n)) (disk t) \<and>
    (\<forall>k. recovers_to st L (\<lambda>n. disk s ! n) (fold dput (take k W) (disk s)) \<or>
         recovers_to st L (\<lambda>n. bview s (of_nat n)) (fold dput (take k W) (disk s)))"
proof -
  let ?old = "\<lambda>n. disk s ! n" and ?new = "\<lambda>n. bview s (of_nat n)"
  have x: "tx s bs" and dirt: "dirties s = set bs" and ne: "bs \<noteq> []" and one: "1 \<notin> set bs"
    and sb: "\<not> in_log st L 1" "log_at (disk s) st L" and sz: "log_size s \<le> int LOGSIZE"
    and hd: "header_for (disk s ! unat st) []"
    using assms(1) by (simp_all add: can_commit_def st_def L_def)
  have r: "bc_ready s" "handle s = Map.empty" and g: "log_geom (length (disk s)) st L bs"
    using x by (simp_all add: tx_def st_def L_def)
  have len: "\<forall>y \<in> set (disk s). length y = BSIZE" using r(1) by (simp add: bc_ready_def bc_inv_def)
  have "distinct bs" "length bs < L" using g by (simp_all add: log_geom_def)
  moreover have "L \<le> NBUF" using sz by (simp add: L_def LOGSIZE_def NBUF_def)
  ultimately have room: "card (dirties s) < NBUF" using dirt by (simp add: distinct_card)
  obtain t H H0 where t: "commit s = Done () t" "header_for H bs" "header_for H0 []" "lh_n t = 0"
    "dirties t = dirties s - fst ` set (commit_writes st bs (bview s) H H0)"
    "disk t = fold dput (map onto (commit_writes st bs (bview s) H H0)) (disk s)"
    "dtrace t = dtrace s @ map onto (commit_writes st bs (bview s) H H0)"
    using commit_spec [OF x ne _ room] dirt by (auto simp: st_def)
  let ?W = "map onto (commit_writes st bs (bview s) H H0)"
  have cl: "clean st L ?old (disk s)" using hd by (simp add: clean_def holds_outside_def)
  have v: "?old n = ?new n" if "n \<notin> unat ` set bs" "n < length (disk s)" for n
  proof -
    have u: "unat (of_nat n :: u32) = n" using that(2) g by (simp add: unat_of_nat log_geom_def)
    then have "(of_nat n :: u32) \<notin> dirties s" using that(1) dirt by force
    from bc.view_clean [OF r(1) this] show ?thesis using r(2) u by simp
  qed
  note P = commit_prefix [OF g cl t(2,3), of ?new "bview s", OF v _ refl, simplified]
  have "fst w \<noteq> 1 \<and> length (snd w) = BSIZE" if "w \<in> set ?W" for w
    using that t(2,3) one_not_written [OF g sb(1) one] bc.view_length [OF r(1)] g
    by (auto simp: commit_writes_def log_writes_def onto_def header_for_def log_geom_def)
  then have pre: "\<forall>w \<in> set (take k ?W). fst w \<noteq> 1 \<and> length (snd w) = BSIZE" for k
    using in_set_takeD by fast
  have g0: "log_geom (length (disk s)) st L []" using g by (auto simp: log_geom_def)
  have l0: "leads_to st L ?old (disk s)"
    using g0 cl sb len unfolding leads_to_def clean_logged by (intro conjI exI [of _ "[]"]) simp_all
  have "recovers_to st L ?old (fold dput (take k ?W) (disk s)) \<or> recovers_to st L ?new (fold dput (take k ?W) (disk s))" for k
    using P(1) [of k] leads_to_writes [OF l0 pre g0, of ?old k] leads_to_writes [OF l0 pre g one, of ?new k]
    by (auto intro: leads_to_recovers)
  moreover have "holds_outside st L ?new (disk t)"
    unfolding t(6) using P(2) [of "length ?W"] by (simp add: clean_def)
  moreover have "set bs \<subseteq> fst ` set (commit_writes st bs (bview s) H H0)"
    by (auto simp: commit_writes_def image_Un image_image)
  then have "dirties t = {}" using t(5) dirt by auto
  ultimately show ?thesis using t(1,4,6,7) by blast
qed

section \<open>Recording a write\<close>

lemma absorb_index_first:
  "absorb_index ys x i k \<le> i + k \<and> i \<le> absorb_index ys x i k \<and>
   (absorb_index ys x i k < i + k \<longrightarrow> ys ! absorb_index ys x i k = x) \<and>
   (\<forall>j. i \<le> j \<longrightarrow> j < absorb_index ys x i k \<longrightarrow> ys ! j \<noteq> x)"
proof (induction k arbitrary: i)
  case (Suc k)
  show ?case
  proof (cases "ys ! i = x")
    case False
    with Suc [of "Suc i"] show ?thesis by (auto simp: Suc_le_eq dest: le_neq_implies_less)
  qed simp
qed simp

text \<open>The list of blocks in the transaction after a write to block \<open>n\<close>: a block already there is absorbed.\<close>

definition absorbed :: "u32 list \<Rightarrow> u32 \<Rightarrow> u32 list" where
  "absorbed bs n = (if n \<in> set bs then bs else bs @ [n])"

lemma absorb_header:
  assumes "take k ys = bs" and "length bs = k" and "k < length ys"
  shows "(if absorb_index ys n 0 k = k then Suc k else k) = length (absorbed bs n)"
    and "take (length (absorbed bs n)) (ys[absorb_index ys n 0 k := n]) = absorbed bs n"
proof -
  let ?j = "absorb_index ys n 0 k"
  have j: "?j \<le> k" "?j < k \<Longrightarrow> ys ! ?j = n" "\<And>i. i < ?j \<Longrightarrow> ys ! i \<noteq> n"
    using absorb_index_first [of ys n 0 k] by auto
  have nth: "bs ! i = ys ! i" if "i < k" for i using assms(1) that by (metis nth_take)
  have "(if ?j = k then Suc k else k) = length (absorbed bs n) \<and>
    take (length (absorbed bs n)) (ys[?j := n]) = absorbed bs n"
  proof (cases "?j = k")
    case True
    then have "n \<notin> set bs" using j(3) nth assms(2) by (metis in_set_conv_nth)
    then show ?thesis using True assms by (simp add: absorbed_def take_Suc_conv_app_nth)
  next
    case False
    then have jk: "?j < k" using j(1) by simp
    then have "n \<in> set bs" using j(2) nth assms(2) by (metis nth_mem)
    moreover have "ys[?j := n] = ys" using j(2) [OF jk] by (metis list_update_id)
    ultimately show ?thesis using False assms(1,2) by (simp add: absorbed_def)
  qed
  then show "(if ?j = k then Suc k else k) = length (absorbed bs n)"
    "take (length (absorbed bs n)) (ys[?j := n]) = absorbed bs n" by blast+
qed

lemma abs_held [simp]:
  "bview (s\<lparr>held := h\<rparr>) = bview s" "handle (s\<lparr>held := h\<rparr>) = handle s" "dirties (s\<lparr>held := h\<rparr>) = dirties s"
  "bc_inv (s\<lparr>held := h\<rparr>) = bc_inv s"
  by (auto simp: bc_inv_def bview_def handle_def dirties_def fun_eq_iff split: option.split)

text \<open>The blocks of the open transaction.\<close>

definition log_blocks :: "'z logst_scheme \<Rightarrow> u32 list" where
  "log_blocks s = take (nat (lh_n s)) (lh_block s)"

definition log_ok :: "'z logst_scheme \<Rightarrow> bool" where
  "log_ok s \<longleftrightarrow> length (lh_block s) = LOGSIZE \<and> 0 \<le> lh_n s \<and> lh_n s \<le> int LOGSIZE"

lemma log_write_spec:
  assumes r: "bc_ready s" "LLog \<notin> held s" "log_ok s" and h: "handle s b = Some n"
    and room: "lh_n s < int LOGSIZE" "lh_n s < log_size s - 1" and out: "1 \<le> log_outstanding s"
  shows "\<exists>t. log_write b s = Done () t \<and> bc_ready t \<and> log_ok t \<and> held t = held s \<and> bview t = bview s \<and>
    handle t = handle s \<and> dirties t = insert n (dirties s) \<and> disk t = disk s \<and> dtrace t = dtrace s \<and>
    log_blocks t = absorbed (log_blocks s) n \<and> log_start t = log_start s \<and> log_size t = log_size s \<and>
    log_dev t = log_dev s \<and> log_outstanding t = log_outstanding s \<and> log_committing t = log_committing s"
proof -
  define k where "k = nat (lh_n s)"
  have n: "lh_n s = int k" "k < LOGSIZE" "length (lh_block s) = LOGSIZE"
    using r(3) room(1) by (simp_all add: log_ok_def k_def nat_less_iff)
  have inv: "bc_inv s" using r(1) by (simp add: bc_ready_def)
  define j where "j = absorb_index (lh_block s) n 0 k"
  define ys where "ys = (lh_block s)[j := n]"
  define m where "m = (if j = k then Suc k else k)"
  have bk: "take k (lh_block s) = log_blocks s" "length (log_blocks s) = k"
    using n by (simp_all add: log_blocks_def k_def)
  note A = absorb_header [OF bk, of n, folded j_def m_def ys_def]
  have jL: "j < LOGSIZE" using absorb_index_first [of "lh_block s" n 0 k] n(2) by (simp add: j_def)
  define u where "u = s\<lparr>held := insert LLog (held s), lh_block := ys, lh_n := int m\<rparr>"
  obtain v where v: "bmark b u = Done () v" and uv: "bc_to u v (bview u) (handle u) (insert n (dirties u)) (disk u) (dtrace u)"
    using bmark_spec [of u b n] inv h by (auto simp: u_def)
  note V = bc_toD [OF uv] and C = cframe_log [OF bc_toD(2) [OF uv]]
  have hv: "held v = insert LLog (held s)" using cframe_held(1) [OF V(2)] by (simp add: u_def)
  define t where "t = v\<lparr>held := held v - {LLog}\<rparr>"
  have blk: "bblockno (bufs s ! b) = n" by (rule handle_facts(4) [OF inv h])
  have lh: "lh_set j n (s\<lparr>held := insert LLog (held s)\<rparr>) = Done () (s\<lparr>held := insert LLog (held s), lh_block := ys\<rparr>)"
    using jL by (simp add: lh_set_def ys_def)
  have e: "s\<lparr>held := insert LLog (held s), lh_block := ys\<rparr> = u" if "j \<noteq> k" using that n(1) by (simp add: u_def m_def)
  have e': "s\<lparr>held := insert LLog (held s), lh_block := ys, lh_n := int k + 1\<rparr> = u" if "j = k" using that by (simp add: u_def m_def algebra_simps)
  have "log_write b s = Done () t"
  proof (cases "j = k")
    case True
    show ?thesis
      using room out r(2) n(1) lh v hv e' [OF True] True
      by (simp add: log_write_def bd_run acquire_run release_run blk t_def j_def [symmetric])
  next
    case False
    show ?thesis
      using room out r(2) n(1) lh v hv e [OF False] False
      by (simp add: log_write_def bd_run acquire_run release_run blk t_def j_def [symmetric])
  qed
  moreover have "bc_ready t" using V(1) r(1,2) hv by (auto simp: bc_ready_def t_def)
  moreover have "held t = held s" using hv r(2) by (simp add: t_def)
  moreover have "log_blocks t = absorbed (log_blocks s) n"
    using A(2) C(6,7) n by (simp add: log_blocks_def t_def u_def A(1))
  moreover have "log_ok t"
    using C(6,7) n by (simp add: log_ok_def t_def u_def m_def ys_def)
  ultimately show ?thesis using V(3-7) C by (intro exI [of _ t]) (simp add: t_def u_def)
qed

text \<open>
  C28: \<^verbatim>\<open>log_write\<close> on a buffer the caller holds, inside a system call and with room in the log: it adds the block to the
  transaction unless it is already there, and pins it in the cache by marking it dirty. No block's
  contents and nothing on the disk changes, and the locks are as before.
\<close>

theorem log_write_absorbs:
  assumes "bc_ready s" and "LLog \<notin> held s" and "log_ok s" and "handle s b = Some n"
    and "lh_n s < int LOGSIZE" and "lh_n s < log_size s - 1" and "1 \<le> log_outstanding s"
  shows "\<exists>t. log_write b s = Done () t \<and> bc_ready t \<and> log_ok t \<and> held t = held s \<and>
    log_blocks t = absorbed (log_blocks s) n \<and> dirties t = insert n (dirties s) \<and>
    bview t = bview s \<and> handle t = handle s \<and> disk t = disk s \<and> dtrace t = dtrace s"
  using log_write_spec [OF assms] by blast

text \<open>
  A disk of six blocks: boot block, super block, a log of three blocks from block 2, one data block.
\<close>

definition tiny_super :: bytes where
  "tiny_super = put32 (put32 (replicate BSIZE 0) 12 3) 16 2"

definition tiny_disk :: "bytes list" where
  "tiny_disk = [replicate BSIZE 0, tiny_super, replicate BSIZE 0, replicate BSIZE 0, replicate BSIZE 0, replicate BSIZE 0]"

definition tiny :: logst where
  "tiny = \<lparr>held = {}, ptable = replicate NPROC zero_proc, initproc = None, nextpid = 1,
     curproc = None, cr3 = 0, ts_esp0 = 0, kpgdir = 0,
     kmem_mem = (\<lambda>_. 0), use_lock = False, freelist = 0, kend = 0x8010A000,
     bufs = replicate (Suc NBUF) zero_buf, disk = tiny_disk, dtrace = [],
     log_start = 0, log_size = 0, log_outstanding = 0, log_committing = False, log_dev = 0,
     lh_n = 0, lh_block = replicate LOGSIZE 0\<rparr>"

lemma tiny_boots: "boots tiny tiny_disk"
  by (simp add: boots_def tiny_def zero_bufs_def zero_buf_def del: replicate_Suc)

lemma BSIZE_room [simp]: "20 \<le> BSIZE" "16 \<le> BSIZE" "4 \<le> BSIZE" "k \<le> 508 \<Longrightarrow> k + 4 \<le> BSIZE"
  by (simp_all add: BSIZE_def)

lemma get32_zeros: "k + 4 \<le> n \<Longrightarrow> get32 (replicate n 0) k = 0"
  by (simp add: get32_def slice_def of_le32_def nth_replicate)

lemma tiny_super: "length tiny_super = BSIZE" "get32 tiny_super 12 = 3" "get32 tiny_super 16 = 2"
  by (simp_all add: tiny_super_def get32_put32_other)

lemma tiny_disk_nth:
  "length tiny_disk = 6" "tiny_disk ! 1 = tiny_super" "tiny_disk ! 2 = replicate BSIZE 0"
  by (simp_all add: tiny_disk_def)

lemma tiny_lengths: "\<forall>x \<in> set tiny_disk. length x = BSIZE"
  by (simp add: tiny_disk_def tiny_super(1))

lemma tiny_at: "log_at tiny_disk 2 3"
  using tiny_disk_nth by (simp add: log_at_def sb_of_def tiny_super)

lemma tiny_header: "header_for (replicate BSIZE 0) []"
  by (simp add: header_for_def head_n_def get32_zeros)

lemma tiny_geom: "log_geom 6 2 3 []" "log_geom 6 2 3 [5]" "\<not> in_log 2 3 1"
  by (auto simp: log_geom_def in_log_def LOGSIZE_def MAXOPBLOCKS_def)

text \<open>A transaction that writes the data block: the state in which \<^verbatim>\<open>end_op\<close> calls \<^verbatim>\<open>commit\<close>.\<close>

lemma abs_outstanding [simp]:
  "bview (s\<lparr>log_outstanding := x\<rparr>) = bview s" "handle (s\<lparr>log_outstanding := x\<rparr>) = handle s"
  "dirties (s\<lparr>log_outstanding := x\<rparr>) = dirties s" "bc_ready (s\<lparr>log_outstanding := x\<rparr>) = bc_ready s"
  by (auto simp: bc_ready_def bc_inv_def bview_def handle_def dirties_def fun_eq_iff split: option.split)

lemma tiny_transaction:
  "\<exists>s b t u v w. boot tiny = Done () s \<and> bread 1 5 (s\<lparr>log_outstanding := 1\<rparr>) = Done b t \<and>
     bput b (replicate BSIZE 7) t = Done () u \<and> log_write b u = Done () v \<and> brelse b v = Done () w \<and>
     bc_ready u \<and> LLog \<notin> held u \<and> log_ok u \<and> handle u b = Some 5 \<and> lh_n u = 0 \<and> log_size u = 3 \<and>
     log_outstanding u = 1 \<and> can_commit w [5]"
proof -
  obtain s H0 where s: "boot tiny = Done () s" "header_for H0 []" "fresh s" "lh_n s = 0"
    "disk s = tiny_disk[2 := H0]" "held s = {}" "log_start s = 2" "log_size s = 3" "log_dev s = 1"
    using boot_spec [OF tiny_boots tiny_lengths tiny_at, of "[]"] tiny_geom(1) tiny_header tiny_disk_nth
    by (auto simp: recovery_writes_def dput_def sb_of_def tiny_super tiny_def)
  define s1 where "s1 = s\<lparr>log_outstanding := 1\<rparr>"
  have S: "bc_ready s1" "handle s1 = Map.empty" "dirties s1 = {}" "length (lh_block s1) = LOGSIZE" "disk s1 = disk s"
    "held s1 = {}" "lh_n s1 = 0" "log_start s1 = 2" "log_size s1 = 3" "log_dev s1 = 1" "log_outstanding s1 = 1"
    using s(3,4,6-9) by (simp_all add: s1_def fresh_def)
  have len: "length (disk s1) = 6" using s(5) S(5) tiny_disk_nth(1) by simp
  obtain b t where t: "bread 1 5 s1 = Done b t"
    "bc_to s1 t (bview s1) ((handle s1)(b \<mapsto> 5)) (dirties s1) (disk s1) (dtrace s1)"
    using bc.rd_law [of s1 5] S(1-3) len by (auto simp: NBUF_def MAXOPBLOCKS_def)
  note T = bc.to_abs [OF S(1) t(2)] and CT = cframe_log [OF bc_toD(2) [OF t(2)]] and HT = cframe_held(1) [OF bc_toD(2) [OF t(2)]]
  obtain u where u: "bput b (replicate BSIZE 7) t = Done () u"
    "bc_to t u ((bview t)(5 := replicate BSIZE 7)) (handle t) (dirties t) (disk t) (dtrace t)"
    using bc.put_law [of t b 5 "replicate BSIZE 7"] T by auto
  note U = bc.to_abs [OF conjunct1 [OF T] u(2)] and CU = cframe_log [OF bc_toD(2) [OF u(2)]]
    and HU = cframe_held(1) [OF bc_toD(2) [OF u(2)]]
  have u': "bc_ready u" "LLog \<notin> held u" "log_ok u" "handle u b = Some 5" "lh_n u = 0" "log_size u = 3" "log_outstanding u = 1"
    using U T CU CT HU HT S by (simp_all add: log_ok_def)
  obtain v where v: "log_write b u = Done () v" "bc_ready v" "log_ok v" "handle v = handle u"
    "dirties v = insert 5 (dirties u)" "disk v = disk u" "log_blocks v = absorbed (log_blocks u) 5"
    "log_start v = log_start u" "log_size v = log_size u" "log_dev v = log_dev u"
    using log_write_spec [OF u'(1-4)] u'(5-7) by (auto simp: LOGSIZE_def MAXOPBLOCKS_def)
  obtain w where w: "brelse b v = Done () w"
    "bc_to v w (bview v) ((handle v)(b := None)) (dirties v) (disk v) (dtrace v)"
    using bc.rl_law [of v b 5] v u'(4) by auto
  note W = bc.to_abs [OF v(2) w(2)] and CW = cframe_log [OF bc_toD(2) [OF w(2)]]
  have "log_blocks u = []" using u'(5) by (simp add: log_blocks_def)
  then have "log_blocks v = [5]" using v(7) by (simp add: absorbed_def)
  then have "take (nat (lh_n v)) (lh_block v) = [5]" by (simp add: log_blocks_def)
  moreover from this have "lh_n v = 1" using v(3) by (auto simp: log_ok_def dest!: arg_cong [of _ _ length])
  ultimately have "tx w [5]"
    using W CW v U T CU CT S tiny_geom(2) len by (auto simp: tx_def log_ok_def)
  moreover have "disk w = tiny_disk[2 := H0]" using W v(6) U T S(5) s(5) by simp
  moreover have "dirties w = {5}" using W v(5) U T S(3) by simp
  ultimately have "can_commit w [5]"
    using CW v(8,9) CU CT S(8,9) s(2) tiny_geom(3) tiny_at tiny_disk_nth
    by (simp add: can_commit_def LOGSIZE_def MAXOPBLOCKS_def log_at_def)
  with s(1) t(1) u(1) v(1) w(1) u' show ?thesis unfolding s1_def by blast
qed

theorem commit_crash_atomic_witness:
  "\<exists>(s :: logst) t. can_commit s [5] \<and> commit s = Done () t \<and> lh_n t = 0"
proof -
  obtain s :: logst where s: "can_commit s [5]" using tiny_transaction by blast
  with commit_crash_atomic [OF s] show ?thesis by blast
qed

theorem log_write_absorbs_witness:
  "\<exists>(s :: logst) b t. log_write b s = Done () t \<and> log_blocks t = [5]"
proof -
  obtain s :: logst and b where s: "bc_ready s" "LLog \<notin> held s" "log_ok s" "handle s b = Some 5" "lh_n s = 0"
    "log_size s = 3" "log_outstanding s = 1" using tiny_transaction by blast
  have "log_blocks s = []" using s(5) by (simp add: log_blocks_def)
  with log_write_absorbs [OF s(1-4)] s(5-7) show ?thesis
    by (auto simp: LOGSIZE_def MAXOPBLOCKS_def absorbed_def)
qed

section \<open>Admission\<close>

text \<open>
  C29: \<^verbatim>\<open>begin_op\<close> and the size of the log. A system call is let in exactly if no commit is going on and
  the log header has room for its ten blocks and those of all calls inside; otherwise it sleeps. The
  count keeps within \<^verbatim>\<open>LOGSIZE\<close> blocks, but the log on disk, whose \<^verbatim>\<open>LOGSIZE\<close> blocks include the
  header, holds one block less: three calls are let in together, and the thirtieth block they write panics.
\<close>

theorem begin_op_reserves:
  assumes "held s = {}" and "curproc s = Some p" and "p < length (ptable s)"
  shows "begin_op s =
     (if log_committing s \<or> lh_n s + (log_outstanding s + 1) * int MAXOPBLOCKS > int LOGSIZE
      then Switched (s\<lparr>held := {LPtable}, ptable := (ptable s)[p := (ptable s ! p)
             \<lparr>chan := Some ChanLog, state := SLEEPING\<rparr>]\<rparr>)
      else Done () (s\<lparr>log_outstanding := log_outstanding s + 1\<rparr>)) \<and>
    (lh_n s = int LOGSIZE - 1 \<longrightarrow> log_size s = int LOGSIZE \<longrightarrow> log_write b s = Panicked ''too big a transaction'') \<and>
    3 * int MAXOPBLOCKS \<le> int LOGSIZE"
proof -
  let ?a = "s\<lparr>held := {LLog}\<rparr>"
  have sl: "sleep ChanLog LLog ?a = Switched (s\<lparr>held := {LPtable}, ptable := (ptable s)[p := (ptable s ! p)
       \<lparr>chan := Some ChanLog, state := SLEEPING\<rparr>]\<rparr>)"
    using sleep_run [of ?a p LLog ChanLog] assms(2,3) by simp
  have "begin_op s =
     (if log_committing s \<or> lh_n s + (log_outstanding s + 1) * int MAXOPBLOCKS > int LOGSIZE
      then Switched (s\<lparr>held := {LPtable}, ptable := (ptable s)[p := (ptable s ! p)
             \<lparr>chan := Some ChanLog, state := SLEEPING\<rparr>]\<rparr>)
      else Done () (s\<lparr>log_outstanding := log_outstanding s + 1\<rparr>))"
    using assms(1) sl by (simp add: begin_op_def begin_op_loop_def bd_run acquire_run release_run)
  moreover have "log_write b s = Panicked ''too big a transaction''"
    if "lh_n s = int LOGSIZE - 1" "log_size s = int LOGSIZE"
    using that by (simp add: log_write_def bd_run)
  moreover have "3 * int MAXOPBLOCKS \<le> int LOGSIZE" by (simp add: LOGSIZE_def)
  ultimately show ?thesis by blast
qed

theorem begin_op_reserves_witness:
  "begin_op (tiny\<lparr>curproc := Some 0, log_outstanding := 2\<rparr>) = Done () (tiny\<lparr>curproc := Some 0, log_outstanding := 3\<rparr>) \<and>
   log_write 0 (tiny\<lparr>curproc := Some 0, lh_n := 29, log_size := 30\<rparr>) = Panicked ''too big a transaction''"
proof -
  have f: "held tiny = {}" "length (ptable tiny) = 64" "lh_n tiny = 0" "\<not> log_committing tiny"
    by (simp_all add: tiny_def NPROC_def del: replicate_Suc)
  have z: "log_size (tiny\<lparr>curproc := Some 0, lh_n := 29, log_size := 30\<rparr>) = int LOGSIZE"
    "lh_n (tiny\<lparr>curproc := Some 0, lh_n := 29, log_size := 30\<rparr>) = int LOGSIZE - 1"
    by (simp_all add: LOGSIZE_def MAXOPBLOCKS_def)
  show ?thesis
    using begin_op_reserves [of "tiny\<lparr>curproc := Some 0, log_outstanding := 2\<rparr>" 0]
      begin_op_reserves [of "tiny\<lparr>curproc := Some 0, lh_n := 29, log_size := 30\<rparr>" 0 0] z f
    by (simp add: LOGSIZE_def MAXOPBLOCKS_def)
qed

end
