(* ===== verification/Scheduler.thy ===== *)
theory Scheduler
  imports Sched
begin

text \<open>
  One round of \<^verbatim>\<open>scheduler\<close> in \<^verbatim>\<open>proc.c\<close>: the loop over the whole process table, with what a process does
  between the two switches as a parameter. The contract a process owes the scheduler is a locale, which
  processes that give the CPU back by \<^verbatim>\<open>yield\<close> and by \<^verbatim>\<open>sleep\<close> meet.
\<close>

section \<open>The loop\<close>

text \<open>The body of the loop for one slot; it returns the slot if its process ran. \<open>run i\<close> is the effect of \<^verbatim>\<open>swtch\<close> to process \<open>i\<close> until it switches back.\<close>

definition scheduler_slot :: "(nat \<Rightarrow> 'z ptst_scheme \<Rightarrow> 'z ptst_scheme) \<Rightarrow> nat \<Rightarrow> ('z ptst_scheme, nat list) kop" where
  "scheduler_slot run i =
     bd (gets (\<lambda>s. state (ptable s ! i))) (\<lambda>st.
     if st \<noteq> RUNNABLE then ret []
     else
       bd (modify (\<lambda>s. s\<lparr>curproc := Some i\<rparr>)) (\<lambda>_.
       bd (switchuvm i) (\<lambda>_.
       bd (modify (upd_proc i (\<lambda>p. p\<lparr>state := RUNNING\<rparr>))) (\<lambda>_.
       bd (modify (run i)) (\<lambda>_.
       bd scheduler_back (\<lambda>_.
       ret [i]))))))"

fun scheduler_slots :: "(nat \<Rightarrow> 'z ptst_scheme \<Rightarrow> 'z ptst_scheme) \<Rightarrow> nat list \<Rightarrow> ('z ptst_scheme, nat list) kop" where
  "scheduler_slots run [] = ret []"
| "scheduler_slots run (i # is) =
     bd (scheduler_slot run i) (\<lambda>d. bd (scheduler_slots run is) (\<lambda>ds. ret (d @ ds)))"

definition scheduler_round :: "(nat \<Rightarrow> 'z ptst_scheme \<Rightarrow> 'z ptst_scheme) \<Rightarrow> ('z ptst_scheme, nat list) kop" where
  "scheduler_round run =
     bd (acquire LPtable) (\<lambda>_.
     bd (scheduler_slots run [0..<NPROC]) (\<lambda>ds.
     bd (release LPtable) (\<lambda>_.
     ret ds)))"

section \<open>What a process owes the scheduler\<close>

text \<open>Every process that may be chosen has a page table.\<close>

definition schedulable :: "'z ptst_scheme \<Rightarrow> bool" where
  "schedulable s \<longleftrightarrow> length (ptable s) = NPROC \<and> (\<forall>i < NPROC. state (ptable s ! i) = RUNNABLE \<longrightarrow> pgdir (ptable s ! i) \<noteq> 0)"

definition given_cpu :: "nat \<Rightarrow> 'z ptst_scheme \<Rightarrow> bool" where
  "given_cpu i s \<longleftrightarrow> schedulable s \<and> i < NPROC \<and> curproc s = Some i \<and> state (ptable s ! i) = RUNNING \<and>
     pgdir (ptable s ! i) \<noteq> 0 \<and> held s = {LPtable}"

locale cpu_user =
  fixes run :: "nat \<Rightarrow> 'z ptst_scheme \<Rightarrow> 'z ptst_scheme"
  assumes run_schedulable: "given_cpu i s \<Longrightarrow> schedulable (run i s)"
    and run_held: "given_cpu i s \<Longrightarrow> held (run i s) = {LPtable}"
    and run_runnable: "given_cpu i s \<Longrightarrow> j < NPROC \<Longrightarrow> state (ptable s ! j) = RUNNABLE \<Longrightarrow> state (ptable (run i s) ! j) = RUNNABLE"
begin

lemma slot_serves:
  assumes "schedulable s" and "held s = {LPtable}" and "i < NPROC"
  shows "\<exists>t. scheduler_slot run i s = Done (if state (ptable s ! i) = RUNNABLE then [i] else []) t \<and> schedulable t \<and>
    held t = {LPtable} \<and> (\<forall>j < NPROC. j \<noteq> i \<longrightarrow> state (ptable s ! j) = RUNNABLE \<longrightarrow> state (ptable t ! j) = RUNNABLE)"
proof (cases "state (ptable s ! i) = RUNNABLE")
  case True
  define u where "u = upd_proc i (\<lambda>p. p\<lparr>state := RUNNING\<rparr>)
    (s\<lparr>curproc := Some i, ts_esp0 := kstack (ptable s ! i) + of_nat KSTACKSIZE, cr3 := v2p (pgdir (ptable s ! i))\<rparr>)"
  have len: "length (ptable s) = NPROC" and pd: "pgdir (ptable s ! i) \<noteq> 0"
    using assms(1,3) True by (simp_all add: schedulable_def)
  have u: "given_cpu i u"
    using assms len pd by (auto simp: given_cpu_def schedulable_def u_def nth_list_update)
  have "scheduler_slot run i s = Done [i] (run i u\<lparr>cr3 := v2p (kpgdir (run i u)), curproc := None\<rparr>)"
    using True pd by (simp add: scheduler_slot_def bd_run switchuvm_def scheduler_back_def switchkvm_def u_def)
  moreover have "state (ptable (run i u) ! j) = RUNNABLE"
    if "j < NPROC" "j \<noteq> i" "state (ptable s ! j) = RUNNABLE" for j
    using run_runnable [OF u that(1)] that len by (simp add: u_def)
  ultimately show ?thesis
    using True run_schedulable [OF u] run_held [OF u] by (auto simp: schedulable_def)
qed (use assms in \<open>simp add: scheduler_slot_def bd_run\<close>)

lemma slots_serve:
  assumes "schedulable s" and "held s = {LPtable}" and "set is \<subseteq> {..<NPROC}" and "sorted_wrt (<) is"
  shows "\<exists>ds t. scheduler_slots run is s = Done ds t \<and> schedulable t \<and> held t = {LPtable} \<and> sorted_wrt (<) ds \<and>
    set ds \<subseteq> set is \<and> (\<forall>j \<in> set is. state (ptable s ! j) = RUNNABLE \<longrightarrow> j \<in> set ds)"
  using assms
proof (induction "is" arbitrary: s)
  case (Cons i "is")
  from slot_serves [of s i] Cons.prems obtain t where
    t: "scheduler_slot run i s = Done (if state (ptable s ! i) = RUNNABLE then [i] else []) t" "schedulable t" "held t = {LPtable}"
      "\<forall>j < NPROC. j \<noteq> i \<longrightarrow> state (ptable s ! j) = RUNNABLE \<longrightarrow> state (ptable t ! j) = RUNNABLE"
    by auto
  from Cons.IH [OF t(2,3)] Cons.prems obtain ds u where
    u: "scheduler_slots run is t = Done ds u" "schedulable u" "held u = {LPtable}" "sorted_wrt (<) ds"
      "set ds \<subseteq> set is" "\<forall>j \<in> set is. state (ptable t ! j) = RUNNABLE \<longrightarrow> j \<in> set ds"
    by auto
  have later: "i < j" "j < NPROC" if "j \<in> set is" for j using Cons.prems(3,4) that by auto
  have "j \<in> set ds" if "j \<in> set is" "state (ptable s ! j) = RUNNABLE" for j
    using u(6) t(4) later [OF that(1)] that by blast
  moreover have "i < j" if "j \<in> set ds" for j using u(5) that later by blast
  ultimately show ?case using t(1) u by (auto simp: bd_run)
qed simp

lemma round_serves:
  assumes "schedulable s" and "held s = {}"
  shows "\<exists>ds t. scheduler_round run s = Done ds t \<and> schedulable t \<and> held t = {} \<and> sorted_wrt (<) ds \<and>
    set ds \<subseteq> {..<NPROC} \<and> (\<forall>j < NPROC. state (ptable s ! j) = RUNNABLE \<longrightarrow> j \<in> set ds)"
proof -
  have "schedulable (s\<lparr>held := {LPtable}\<rparr>)" using assms(1) by (simp add: schedulable_def)
  from slots_serve [OF this, of "[0..<NPROC]"] obtain ds t where
    "scheduler_slots run [0..<NPROC] (s\<lparr>held := {LPtable}\<rparr>) = Done ds t" "schedulable t" "held t = {LPtable}"
    "sorted_wrt (<) ds" "set ds \<subseteq> {..<NPROC}" "\<forall>j < NPROC. state (ptable s ! j) = RUNNABLE \<longrightarrow> j \<in> set ds"
    by (auto simp: atLeast0LessThan)
  moreover from this have "schedulable (t\<lparr>held := {}\<rparr>)" by (simp add: schedulable_def)
  ultimately show ?thesis
    using assms(2) by (auto simp: scheduler_round_def bd_run acquire_run release_run)
qed

end

text \<open>
  A process that comes back from \<^verbatim>\<open>yield\<close> and yields again, and one that comes back from \<^verbatim>\<open>yield\<close> and sleeps on
  a channel under a lock that no one else holds.
\<close>

definition run_yield :: "nat \<Rightarrow> 'z ptst_scheme \<Rightarrow> 'z ptst_scheme" where
  "run_yield i s = (case bd yield_resume (\<lambda>_. yield) s of Switched t \<Rightarrow> t | _ \<Rightarrow> s)"

definition run_sleep :: "chan \<Rightarrow> lockid \<Rightarrow> nat \<Rightarrow> 'z ptst_scheme \<Rightarrow> 'z ptst_scheme" where
  "run_sleep ch lk i s = (case bd yield_resume (\<lambda>_. bd (acquire lk) (\<lambda>_. sleep ch lk)) s of Switched t \<Rightarrow> t | _ \<Rightarrow> s)"

lemma run_yield_run:
  assumes "given_cpu i s"
  shows "run_yield i s = upd_proc i (\<lambda>p. p\<lparr>state := RUNNABLE\<rparr>) s"
proof -
  let ?t = "upd_proc i (\<lambda>p. p\<lparr>state := RUNNABLE\<rparr>) (s\<lparr>held := {LPtable}\<rparr>)"
  have "i < length (ptable s)" "held s = {LPtable}" "curproc s = Some i"
    using assms by (simp_all add: given_cpu_def schedulable_def)
  then have "sched ?t = Switched ?t" by (subst sched_run [of _ i]) simp_all
  then have "run_yield i s = ?t"
    using \<open>held s = {LPtable}\<close> \<open>curproc s = Some i\<close>
    by (simp add: run_yield_def yield_resume_def yield_def bd_run acquire_run release_run)
  moreover have "s\<lparr>held := {LPtable}\<rparr> = s" using \<open>held s = {LPtable}\<close> by simp
  ultimately show ?thesis by (simp only:)
qed

lemma run_sleep_run:
  assumes "given_cpu i s"
  shows "run_sleep ch lk i s = s\<lparr>ptable := (ptable s)[i := (ptable s ! i)\<lparr>chan := Some ch, state := SLEEPING\<rparr>]\<rparr>"
proof -
  have *: "i < length (ptable s)" "held s = {LPtable}" "curproc s = Some i"
    using assms by (simp_all add: given_cpu_def schedulable_def)
  then have "sleep ch lk (s\<lparr>held := {lk}\<rparr>) = Switched (s\<lparr>held := {LPtable},
      ptable := (ptable s)[i := (ptable s ! i)\<lparr>chan := Some ch, state := SLEEPING\<rparr>]\<rparr>)"
    by (subst sleep_run [of _ i]) simp_all
  with * show ?thesis
    by (simp add: run_sleep_def yield_resume_def bd_run acquire_run release_run)
qed

interpretation yielder: cpu_user run_yield
  by unfold_locales
    (auto simp: run_yield_run given_cpu_def schedulable_def nth_list_update)

interpretation sleeper: cpu_user "run_sleep ch lk" for ch lk
  by unfold_locales
    (auto simp: run_sleep_run given_cpu_def schedulable_def nth_list_update)

section \<open>Properties\<close>

text \<open>
  C15: No runnable process is passed over. If every process, when it is given the CPU, comes back with
  \<^verbatim>\<open>ptable.lock\<close> held and leaves the runnable processes runnable and with page tables, then a round of the
  scheduler ends, and every process that was runnable at its beginning has run in it exactly once (the slots of the
  processes that ran are strictly increasing). Then the lock is free again.
\<close>

theorem scheduler_round_serves_all:
  assumes "\<And>i u. given_cpu i u \<Longrightarrow> schedulable (run i u) \<and> held (run i u) = {LPtable} \<and>
      (\<forall>j < NPROC. state (ptable u ! j) = RUNNABLE \<longrightarrow> state (ptable (run i u) ! j) = RUNNABLE)"
    and "schedulable s" and "held s = {}"
  shows "\<exists>ds t. scheduler_round run s = Done ds t \<and> schedulable t \<and> held t = {} \<and> sorted_wrt (<) ds \<and>
    set ds \<subseteq> {..<NPROC} \<and> (\<forall>j < NPROC. state (ptable s ! j) = RUNNABLE \<longrightarrow> j \<in> set ds)"
proof -
  have "cpu_user run" using assms(1) by unfold_locales auto
  from cpu_user.round_serves [OF this assms(2,3)] show ?thesis .
qed

theorem scheduler_round_serves_all_witness:
  "\<exists>ds t. scheduler_round run_yield (boot_ptable\<lparr>ptable := (replicate NPROC zero_proc)
      [3 := zero_proc\<lparr>state := RUNNABLE, pgdir := 0x80001000\<rparr>]\<rparr>) = Done ds t \<and> 3 \<in> set ds"
proof -
  let ?s = "boot_ptable\<lparr>ptable := (replicate NPROC zero_proc)[3 := zero_proc\<lparr>state := RUNNABLE, pgdir := 0x80001000\<rparr>]\<rparr>"
  have n: "(3::nat) < NPROC" by (simp add: NPROC_def)
  have z: "state zero_proc = UNUSED" by (simp add: zero_proc_def)
  have s: "schedulable ?s" "held ?s = {}" "state (ptable ?s ! 3) = RUNNABLE"
    using n z by (auto simp: schedulable_def nth_list_update boot_ptable_def)
  have run: "schedulable (run_yield i u) \<and> held (run_yield i u) = {LPtable} \<and>
      (\<forall>j < NPROC. state (ptable u ! j) = RUNNABLE \<longrightarrow> state (ptable (run_yield i u) ! j) = RUNNABLE)"
    if "given_cpu i u" for i and u :: ptst
    using yielder.run_schedulable yielder.run_held yielder.run_runnable that by blast
  from scheduler_round_serves_all [of run_yield ?s, OF run s(1,2)] s(3) n show ?thesis by blast
qed

end
