(* ===== verification/Paging.thy ===== *)
theory Paging
  imports Vm
begin

text \<open>
  What the page table operations of \<^verbatim>\<open>vm.c\<close> mean for the translation of addresses. A page directory and its
  page tables in memory are abstracted to the function from addresses to page table entries; building
  a table leaves it alone and storing an entry changes it at one page. The lemmas follow \<^verbatim>\<open>walkpgdir\<close>,
  \<^verbatim>\<open>mappages\<close> and \<^verbatim>\<open>copyuvm\<close>.
\<close>

section \<open>Words of a page\<close>

definition wslot :: "u32 \<Rightarrow> nat \<Rightarrow> u32" where
  "wslot p i = p + 4 * of_nat i"

lemma slot_add: "wslot p i + of_nat j = p + of_nat (4 * i + j)"
  by (simp add: wslot_def)

lemma slot_in_page:
  assumes "page_aligned p" and "i < 1024" and "j < 4"
  shows "in_page p (wslot p i + of_nat j)"
  unfolding slot_add by (rule in_page_offset) (use assms in simp_all)

lemma unat_slot: "page_aligned p \<Longrightarrow> i < 1024 \<Longrightarrow> unat (wslot p i) = unat p + 4 * i"
  using in_page_offset(1) [of p "4 * i"] slot_add [of p i 0] by simp

lemma aligned4_slot: "page_aligned p \<Longrightarrow> i < 1024 \<Longrightarrow> aligned4 (wslot p i)"
  using page_aligned4 [of p] by (simp add: aligned4_def unat_slot)

lemma slot_eq:
  assumes "page_aligned p" and "page_aligned q" and "i < 1024" and "j < 1024"
  shows "wslot p i = wslot q j \<longleftrightarrow> p = q \<and> i = j"
proof
  assume e: "wslot p i = wslot q j"
  have "unat p div 4096 = unat q div 4096"
    using slot_in_page [OF assms(1,3), of 0] slot_in_page [OF assms(2,4), of 0] e assms(1,2)
    by (simp add: in_page_iff)
  then have "p = q" using assms(1,2) by (simp add: aligned_eq_div)
  moreover have "unat p + 4 * i = unat q + 4 * j" using e assms by (metis unat_slot)
  ultimately show "p = q \<and> i = j" by simp
qed simp

lemma load32_store32_slot:
  assumes "page_aligned p" and "page_aligned q" and "i < 1024" and "j < 1024"
  shows "load32 (store32 m (wslot p i) w) (wslot q j) = (if p = q \<and> i = j then w else load32 m (wslot q j))"
  using load32_store32_other [OF aligned4_slot [OF assms(1,3)] aligned4_slot [OF assms(2,4)]] slot_eq [OF assms]
  by auto

lemma store32_slot_out:
  assumes "page_aligned p" and "i < 1024" and "\<not> in_page p a"
  shows "store32 m (wslot p i) w a = m a"
  using assms(3) slot_in_page [OF assms(1,2), of 0] slot_in_page [OF assms(1,2), of 1]
    slot_in_page [OF assms(1,2), of 2] slot_in_page [OF assms(1,2), of 3]
  by (auto simp: store32_def)

lemma load32_slot_cong:
  assumes "page_aligned p" and "i < 1024" and "\<And>a. in_page p a \<Longrightarrow> m' a = m a"
  shows "load32 m' (wslot p i) = load32 m (wslot p i)"
  using assms(3) [OF slot_in_page [OF assms(1,2), of 0]] assms(3) [OF slot_in_page [OF assms(1,2), of 1]]
    assms(3) [OF slot_in_page [OF assms(1,2), of 2]] assms(3) [OF slot_in_page [OF assms(1,2), of 3]]
  by (simp add: load32_def)

lemma memset_page: "memset m p c PGSIZE a = (if in_page p a then ucast c else m a)"
  by (simp add: memset_at in_page_def PGSIZE_def)

lemma load32_zeroed:
  assumes "page_aligned p" and "i < 1024"
  shows "load32 (memset m p 0 PGSIZE) (wslot p i) = 0"
proof -
  have "load32 (memset m p 0 PGSIZE) (wslot p i) = load32 (\<lambda>_. 0) (wslot p i)"
    by (rule load32_slot_cong [OF assms]) (simp add: memset_page)
  then show ?thesis by (simp add: load32_def of_le32_def)
qed

lemma in_one_page: "page_aligned p \<Longrightarrow> page_aligned q \<Longrightarrow> in_page p a \<Longrightarrow> in_page q a \<Longrightarrow> p = q"
  by (simp add: in_page_iff aligned_eq_div)

lemma other_page: "page_aligned p \<Longrightarrow> page_aligned q \<Longrightarrow> p \<noteq> q \<Longrightarrow> in_page p a \<Longrightarrow> \<not> in_page q a"
  using in_one_page by blast

section \<open>Page tables as a function\<close>

definition pde :: "mem \<Rightarrow> u32 \<Rightarrow> nat \<Rightarrow> u32" where
  "pde m pd i = load32 m (wslot pd i)"

definition table :: "mem \<Rightarrow> u32 \<Rightarrow> nat \<Rightarrow> u32" where
  "table m pd i = p2v (PTE_ADDR (pde m pd i))"

definition present :: "mem \<Rightarrow> u32 \<Rightarrow> nat set" where
  "present m pd = {i. i < 1024 \<and> pde m pd i AND PTE_P \<noteq> 0}"

definition tables :: "mem \<Rightarrow> u32 \<Rightarrow> u32 set" where
  "tables m pd = table m pd ` present m pd"

text \<open>The directory and its tables are different pages.\<close>

definition pt_ok :: "mem \<Rightarrow> u32 \<Rightarrow> bool" where
  "pt_ok m pd \<longleftrightarrow> page_aligned pd \<and> 2 ^ 31 \<le> unat pd \<and> pd \<notin> tables m pd \<and> inj_on (table m pd) (present m pd) \<and>
     (\<forall>t \<in> tables m pd. 2 ^ 31 \<le> unat t)"

definition entry :: "mem \<Rightarrow> u32 \<Rightarrow> u32 \<Rightarrow> u32" where
  "entry m pd va =
     (let i = unat (PDX va) in
      if i \<in> present m pd then load32 m (wslot (table m pd i) (unat (PTX va))) else 0)"

definition agree :: "mem \<Rightarrow> mem \<Rightarrow> u32 set \<Rightarrow> bool" where
  "agree m m' P \<longleftrightarrow> (\<forall>p \<in> P. \<forall>a. in_page p a \<longrightarrow> m' a = m a)"

lemma pde_at_slot: "pde_at pd va = wslot pd (unat (PDX va))"
  by (simp add: pde_at_def wslot_def)

lemma pte_at_slot: "pte_at t va = wslot t (unat (PTX va))"
  by (simp add: pte_at_def wslot_def)

lemma p2v_aligned [simp]: "page_aligned a \<Longrightarrow> page_aligned (p2v a)"
  by (auto simp: page_aligned_def p2v_def KERNBASE_def unat_plus_if)

lemma v2p_aligned [simp]: "page_aligned a \<Longrightarrow> page_aligned (v2p a)"
proof -
  assume a: "page_aligned a"
  then obtain k where k: "unat a = 4096 * k" by (auto simp: page_aligned_def)
  show ?thesis using k unat_less_u32 [of a] by (auto simp: page_aligned_def v2p_def KERNBASE_def unat_sub_if' mod_eq_0_iff_dvd)
qed

lemma table_aligned [simp]: "page_aligned (table m pd i)"
  by (simp add: table_def)

lemma tables_aligned: "t \<in> tables m pd \<Longrightarrow> page_aligned t"
  by (auto simp: tables_def)

lemma translate_entry:
  "translate m pd va =
     (if entry m pd va AND PTE_P = 0 then None else Some (p2v (PTE_ADDR (entry m pd va)) + (va AND 0xFFF)))"
  by (simp add: translate_def entry_def pde_at_slot pte_at_slot present_def pde_def table_def Let_def)

text \<open>Only the directory and the tables matter.\<close>

lemma agree_dir:
  assumes "page_aligned pd" and "agree m m' (insert pd P)" and "i < 1024"
  shows "pde m' pd i = pde m pd i"
  using assms unfolding pde_def by (intro load32_slot_cong) (auto simp: agree_def)

lemma agree_tables:
  assumes "page_aligned pd" and "agree m m' (insert pd P)"
  shows "present m' pd = present m pd" and "i < 1024 \<Longrightarrow> table m' pd i = table m pd i" and "tables m' pd = tables m pd"
proof -
  show p: "present m' pd = present m pd" using agree_dir [OF assms] by (auto simp: present_def)
  show t: "table m' pd i = table m pd i" if "i < 1024" for i using agree_dir [OF assms that] by (simp add: table_def)
  show "tables m' pd = tables m pd" unfolding tables_def p by (rule image_cong) (simp_all add: t present_def)
qed

lemma agree_entry:
  assumes "page_aligned pd" and "agree m m' (insert pd (tables m pd))"
  shows "entry m' pd va = entry m pd va"
proof (cases "unat (PDX va) \<in> present m pd")
  case True
  then have "table m pd (unat (PDX va)) \<in> tables m pd" by (auto simp: tables_def)
  then have "load32 m' (wslot (table m pd (unat (PDX va))) (unat (PTX va))) = load32 m (wslot (table m pd (unat (PDX va))) (unat (PTX va)))"
    using assms(2) by (intro load32_slot_cong) (auto simp: agree_def)
  with True show ?thesis using agree_tables [OF assms] by (simp add: entry_def Let_def)
next
  case False
  then show ?thesis using agree_tables [OF assms] by (simp add: entry_def Let_def)
qed

lemma agree_pt_ok:
  assumes "pt_ok m pd" and "agree m m' (insert pd P)"
  shows "pt_ok m' pd"
proof -
  have "page_aligned pd" using assms(1) by (simp add: pt_ok_def)
  note t = agree_tables [OF this assms(2)]
  have "inj_on (table m' pd) (present m' pd)"
    using assms(1) t(1,2) by (simp add: pt_ok_def inj_on_def present_def)
  with assms(1) t(3) show ?thesis by (simp add: pt_ok_def)
qed

section \<open>Storing an entry and adding a table\<close>

lemma PTX_PDX_page: "PDX a = PDX b \<Longrightarrow> PTX a = PTX b \<longleftrightarrow> unat a div 4096 = unat b div 4096"
  using same_indices by blast

lemma set_entry:
  assumes "pt_ok m pd" and "unat (PDX va) \<in> present m pd"
    and m': "m' = store32 m (wslot (table m pd (unat (PDX va))) (unat (PTX va))) w"
  shows "pt_ok m' pd" and "tables m' pd = tables m pd"
    and "entry m' pd x = (if unat x div 4096 = unat va div 4096 then w else entry m pd x)"
    and "present m' pd = present m pd"
proof -
  define t where "t = table m pd (unat (PDX va))"
  have t: "t \<in> tables m pd" "page_aligned t" using assms(2) by (auto simp: t_def tables_def)
  have pd: "page_aligned pd" "pd \<noteq> t" using assms(1) t(1) by (auto simp: pt_ok_def)
  have ag: "agree m m' (insert pd {})"
    using store32_slot_out [OF t(2) PTX_less] other_page [OF pd(1) t(2) pd(2)]
    by (simp add: agree_def m' t_def [symmetric])
  note same = agree_tables [OF pd(1) ag]
  show "pt_ok m' pd" using agree_pt_ok [OF assms(1) ag] .
  show "tables m' pd = tables m pd" by (rule same)
  show "present m' pd = present m pd" by (rule same)
  show "entry m' pd x = (if unat x div 4096 = unat va div 4096 then w else entry m pd x)"
  proof (cases "unat (PDX x) \<in> present m pd")
    case True
    have tt: "table m pd (unat (PDX x)) = t \<longleftrightarrow> PDX x = PDX va"
      using assms(1,2) True by (auto simp: t_def pt_ok_def inj_on_def word_unat_eq_iff)
    have "entry m' pd x = load32 m' (wslot (table m pd (unat (PDX x))) (unat (PTX x)))"
      using True same(1) same(2) [OF PDX_less] by (simp add: entry_def)
    also have "\<dots> = (if table m pd (unat (PDX x)) = t \<and> unat (PTX x) = unat (PTX va) then w
        else load32 m (wslot (table m pd (unat (PDX x))) (unat (PTX x))))"
      unfolding m' t_def [symmetric] by (subst load32_store32_slot) (auto simp: t(2))
    also have "\<dots> = (if PDX x = PDX va \<and> PTX x = PTX va then w else entry m pd x)"
      using True tt word_unat_eq_iff [of "PTX x" "PTX va"] by (simp add: entry_def)
    finally have "entry m' pd x = (if PDX x = PDX va \<and> PTX x = PTX va then w else entry m pd x)" .
    then show ?thesis by (simp add: same_indices)
  next
    case False
    with assms(2) have "PDX x \<noteq> PDX va" by auto
    with False same show ?thesis by (auto simp: entry_def dest: same_indices [THEN iffD2])
  qed
qed

lemma entry_flags: "(0x7 :: u32) AND PTE_P \<noteq> 0" "PTE_P OR PTE_W OR PTE_U = 0x7"
  by (simp_all add: PTE_P_def PTE_W_def PTE_U_def)

lemma or_flag_present: "(a OR b OR PTE_P) AND PTE_P \<noteq> 0"
proof
  assume z: "(a OR b OR PTE_P) AND PTE_P = 0"
  have "bit ((a OR b OR PTE_P) AND PTE_P) 0" by (simp add: PTE_P_def bit_simps)
  with z show False by simp
qed

lemma add_table:
  assumes "pt_ok m pd" and "i < 1024" and "i \<notin> present m pd" and "page_aligned p" and "2 ^ 31 \<le> unat p"
    and "p \<notin> insert pd (tables m pd)"
    and m': "m' = store32 (memset m p 0 PGSIZE) (wslot pd i) (v2p p OR PTE_P OR PTE_W OR PTE_U)"
  shows "pt_ok m' pd" and "tables m' pd = insert p (tables m pd)" and "entry m' pd x = entry m pd x"
    and "present m' pd = insert i (present m pd)" and "table m' pd i = p"
    and "j < 1024 \<Longrightarrow> j \<noteq> i \<Longrightarrow> table m' pd j = table m pd j"
proof -
  have pd: "page_aligned pd" "p \<noteq> pd" using assms(1,6) by (auto simp: pt_ok_def)
  have out: "m' a = m a" if "\<not> in_page p a" "\<not> in_page pd a" for a
    using that assms(2) by (simp add: m' store32_slot_out pd(1) memset_page)
  have new: "m' a = 0" if "in_page p a" for a
  proof -
    have "\<not> in_page pd a" using that in_one_page [OF pd(1) assms(4)] pd(2) by blast
    then show ?thesis using that assms(2) by (simp add: m' store32_slot_out pd(1) memset_page)
  qed
  have e: "pde m' pd j = (if j = i then v2p p OR 7 else pde m pd j)" if "j < 1024" for j
  proof -
    have "load32 (memset m p 0 PGSIZE) (wslot pd j) = load32 m (wslot pd j)"
      by (rule load32_slot_cong [OF pd(1) that]) (use in_one_page [OF pd(1) assms(4)] pd(2) in \<open>auto simp: memset_page\<close>)
    then show ?thesis
      using that assms(2) by (simp add: pde_def m' load32_store32_slot pd(1) entry_flags or.assoc)
  qed
  have 7: "unat (7 :: u32) < 4096" by simp
  have f: "PTE_ADDR (v2p p OR 7) = v2p p" by (rule PTE_fields(1) [OF v2p_aligned [OF assms(4)] 7])
  have pr: "(v2p p OR 7) AND PTE_P \<noteq> 0"
    using or_flag_present [of "v2p p" 6] by (simp add: PTE_P_def or.assoc)
  show P: "present m' pd = insert i (present m pd)"
    using e pr assms(2) by (auto simp: present_def split: if_splits)
  show ti: "table m' pd i = p" using e [OF assms(2)] f by (simp add: table_def)
  show tj: "table m' pd j = table m pd j" if "j < 1024" "j \<noteq> i" for j using e [OF that(1)] that by (simp add: table_def)
  have ts: "table m' pd j = table m pd j" if "j \<in> present m pd" for j
    using that assms(3) tj [of j] by (auto simp: present_def)
  show T: "tables m' pd = insert p (tables m pd)"
    using ts by (auto simp: tables_def P ti)
  have "inj_on (table m' pd) (insert i (present m pd))"
    using assms(1,6) ts by (auto simp: pt_ok_def inj_on_def ti tables_def image_iff)
  then show "pt_ok m' pd"
    using assms(1,5) pd by (auto simp: pt_ok_def P T)
  show "entry m' pd x = entry m pd x"
  proof (cases "unat (PDX x) \<in> present m pd")
    case True
    let ?t = "table m pd (unat (PDX x))"
    have "?t \<in> tables m pd" using True by (auto simp: tables_def)
    then have "?t \<noteq> p" "?t \<noteq> pd" using assms(1,6) by (auto simp: pt_ok_def)
    then have "load32 m' (wslot ?t (unat (PTX x))) = load32 m (wslot ?t (unat (PTX x)))"
      by (intro load32_slot_cong out) (simp_all add: other_page [OF table_aligned assms(4)] other_page [OF table_aligned pd(1)])
    with True ts [OF True] show ?thesis by (simp add: entry_def P)
  next
    case False
    have "load32 m' (wslot p (unat (PTX x))) = load32 (\<lambda>_. 0) (wslot p (unat (PTX x)))"
      by (rule load32_slot_cong [OF assms(4)]) (simp_all add: new)
    then have "load32 m' (wslot p (unat (PTX x))) = 0" by (simp add: load32_def of_le32_def)
    with False ti show ?thesis by (simp add: entry_def P Let_def)
  qed
qed

section \<open>Page tables and the allocator\<close>

definition pt_pages :: "'z kmst_scheme \<Rightarrow> u32 \<Rightarrow> u32 set" where
  "pt_pages s pd = insert pd (tables (kmem_mem s) pd)"

definition vm_inv :: "'z kmst_scheme \<Rightarrow> u32 \<Rightarrow> u32 list \<Rightarrow> bool" where
  "vm_inv s pd xs \<longleftrightarrow> LKmem \<notin> held s \<and> free_pages s xs \<and> pt_ok (kmem_mem s) pd \<and> set xs \<inter> pt_pages s pd = {}"

text \<open>A change of the page tables: it takes pages from the free list and writes to no others.\<close>

definition vm_step :: "'z kmst_scheme \<Rightarrow> 'z kmst_scheme \<Rightarrow> u32 \<Rightarrow> u32 list \<Rightarrow> u32 list \<Rightarrow> bool" where
  "vm_step s t pd xs ys \<longleftrightarrow>
     t = s\<lparr>kmem_mem := kmem_mem t, freelist := freelist t\<rparr> \<and> vm_inv t pd ys \<and>
     set ys \<union> pt_pages t pd \<subseteq> set xs \<union> pt_pages s pd \<and> set ys \<subseteq> set xs \<and>
     agree (kmem_mem s) (kmem_mem t) {p. page_aligned p \<and> p \<notin> set xs \<union> pt_pages s pd}"

lemma vm_step_refl: "vm_inv s pd xs \<Longrightarrow> vm_step s s pd xs xs"
  by (simp add: vm_step_def agree_def)

lemma vm_step_fields:
  assumes "vm_step s t pd xs ys"
  shows "held t = held s" and "kend t = kend s" and "vm_inv t pd ys" and "set ys \<subseteq> set xs" and "cr3 t = cr3 s"
    and "ptable t = ptable s" and "curproc t = curproc s"
proof -
  have e: "t = s\<lparr>kmem_mem := kmem_mem t, freelist := freelist t\<rparr>" using assms by (simp add: vm_step_def)
  show "held t = held s" "kend t = kend s" "cr3 t = cr3 s" "ptable t = ptable s" "curproc t = curproc s"
    by (subst e, simp)+
qed (use assms in \<open>auto simp: vm_step_def\<close>)

lemma vm_step_trans:
  assumes "vm_step s t pd xs ys" and "vm_step t u pd ys zs"
  shows "vm_step s u pd xs zs"
proof -
  have st: "t = s\<lparr>kmem_mem := kmem_mem t, freelist := freelist t\<rparr>"
    and tu: "u = t\<lparr>kmem_mem := kmem_mem u, freelist := freelist u\<rparr>"
    and sub: "set ys \<union> pt_pages t pd \<subseteq> set xs \<union> pt_pages s pd" "set zs \<union> pt_pages u pd \<subseteq> set ys \<union> pt_pages t pd"
    using assms by (simp_all only: vm_step_def)
  have "u = s\<lparr>kmem_mem := kmem_mem u, freelist := freelist u\<rparr>" by (subst tu, subst st) simp
  moreover have "agree (kmem_mem s) (kmem_mem u) {p. page_aligned p \<and> p \<notin> set xs \<union> pt_pages s pd}"
    unfolding agree_def
  proof (intro ballI allI impI)
    fix p a assume p: "p \<in> {p. page_aligned p \<and> p \<notin> set xs \<union> pt_pages s pd}" and a: "in_page p a"
    then have "kmem_mem t a = kmem_mem s a" using assms(1) unfolding vm_step_def agree_def by blast
    moreover have "p \<in> {p. page_aligned p \<and> p \<notin> set ys \<union> pt_pages t pd}" using p sub(1) by blast
    then have "kmem_mem u a = kmem_mem t a" using assms(2) a unfolding vm_step_def agree_def by blast
    ultimately show "kmem_mem u a = kmem_mem s a" by simp
  qed
  moreover have "set zs \<union> pt_pages u pd \<subseteq> set xs \<union> pt_pages s pd" using sub by (rule order_trans [rotated])
  moreover have "set zs \<subseteq> set xs" "vm_inv u pd zs" using assms by (auto simp only: vm_step_def)
  ultimately show ?thesis unfolding vm_step_def by (intro conjI)
qed

lemma free_pages_agree:
  assumes "free_pages s xs" and "agree (kmem_mem s) (kmem_mem t) (set xs)" and "freelist t = freelist s" and "kend t = kend s"
  shows "free_pages t xs"
proof -
  have al: "page_aligned x" if "x \<in> set xs" for x using assms(1) that by (auto simp: free_pages_def good_page_def)
  have "load32 (kmem_mem t) x = load32 (kmem_mem s) x" if "x \<in> set xs" for x
    using assms(2) that by (intro load32_same_page [OF al [OF that]]) (auto simp: agree_def)
  then show ?thesis
    using assms flist_cong [of xs "kmem_mem t" "kmem_mem s"] by (simp add: free_pages_def)
qed

lemma vm_inv_facts:
  assumes "vm_inv s pd xs"
  shows "LKmem \<notin> held s" and "free_pages s xs" and "pt_ok (kmem_mem s) pd" and "page_aligned pd" and "pd \<noteq> 0"
    and "p \<in> set xs \<Longrightarrow> page_aligned p" and "p \<in> set xs \<Longrightarrow> 2 ^ 31 \<le> unat p" and "p \<in> pt_pages s pd \<Longrightarrow> page_aligned p"
    and "p \<in> set xs \<Longrightarrow> p \<notin> pt_pages s pd" and "distinct xs"
proof -
  show "LKmem \<notin> held s" "free_pages s xs" "pt_ok (kmem_mem s) pd" "page_aligned pd" "pd \<noteq> 0"
    using assms by (auto simp: vm_inv_def pt_ok_def)
  then show "p \<in> set xs \<Longrightarrow> page_aligned p" "p \<in> set xs \<Longrightarrow> 2 ^ 31 \<le> unat p"
    using good_pageD [of "kend s" p] by (auto simp: free_pages_def)
  show "p \<in> pt_pages s pd \<Longrightarrow> page_aligned p"
    using \<open>page_aligned pd\<close> tables_aligned by (auto simp: pt_pages_def)
  show "p \<in> set xs \<Longrightarrow> p \<notin> pt_pages s pd" using assms by (auto simp: vm_inv_def)
  show "distinct xs" using \<open>free_pages s xs\<close> by (rule pa.pages_distinct)
qed

text \<open>A store into the directory or one of the tables.\<close>

lemma vm_store:
  assumes "vm_inv s pd xs" and "p \<in> pt_pages s pd" and "i < 1024"
    and t: "t = s\<lparr>kmem_mem := store32 (kmem_mem s) (wslot p i) w\<rparr>"
    and "pt_ok (kmem_mem t) pd" and "tables (kmem_mem t) pd = tables (kmem_mem s) pd"
  shows "vm_step s t pd xs xs"
proof -
  note F = vm_inv_facts [OF assms(1)]
  have out: "kmem_mem t a = kmem_mem s a" if "\<not> in_page p a" for a
    using that store32_slot_out [OF F(8) [OF assms(2)] assms(3)] by (simp add: t)
  have ag: "agree (kmem_mem s) (kmem_mem t) {q. page_aligned q \<and> q \<noteq> p}"
    using out other_page [OF _ F(8) [OF assms(2)]] by (auto simp: agree_def)
  have "free_pages t xs"
  proof (rule free_pages_agree [OF F(2)])
    show "agree (kmem_mem s) (kmem_mem t) (set xs)"
      using ag F(6,9) assms(2) unfolding agree_def by blast
  qed (simp_all add: t)
  moreover have pp: "pt_pages t pd = pt_pages s pd" using assms(6) by (simp add: pt_pages_def)
  moreover have "agree (kmem_mem s) (kmem_mem t) {q. page_aligned q \<and> q \<notin> set xs \<union> pt_pages s pd}"
    using ag assms(2) by (auto simp: agree_def)
  ultimately show ?thesis using F assms(5) by (auto simp: vm_step_def vm_inv_def t)
qed

section \<open>Walking and mapping\<close>

lemma ldmem_run: "a \<noteq> 0 \<Longrightarrow> ldmem a s = Done (load32 (kmem_mem s) a) s"
  by (simp add: ldmem_def)

lemma stmem_run: "a \<noteq> 0 \<Longrightarrow> stmem a w s = Done () (s\<lparr>kmem_mem := store32 (kmem_mem s) a w\<rparr>)"
  by (simp add: stmem_def)

lemma wslot_nonzero: "page_aligned p \<Longrightarrow> i < 1024 \<Longrightarrow> 2 ^ 31 \<le> unat p \<Longrightarrow> wslot p i \<noteq> 0"
  using unat_slot [of p i] by fastforce

lemma pt_ok_slots:
  assumes "pt_ok m pd" and "i < 1024"
  shows "wslot pd i \<noteq> 0" and "j \<in> present m pd \<Longrightarrow> wslot (table m pd j) i \<noteq> 0"
  using assms wslot_nonzero [of pd i] wslot_nonzero [of "table m pd j" i] by (simp_all add: pt_ok_def tables_def)

text \<open>Without allocation: the entry's address, or 0 where the directory has no table.\<close>

lemma walkpgdir_find:
  assumes "pt_ok (kmem_mem s) pd"
  shows "walkpgdir pd va False s = Done
    (if unat (PDX va) \<in> present (kmem_mem s) pd then wslot (table (kmem_mem s) pd (unat (PDX va))) (unat (PTX va)) else 0) s"
  using pt_ok_slots(1) [OF assms PDX_less, of va]
  by (simp add: walkpgdir_def bd_run pde_at_slot pte_at_slot ldmem_run present_def pde_def table_def)

text \<open>With allocation: the entry's address, in a table that is there now; no entry has changed.\<close>

lemma walkpgdir_alloc:
  assumes "vm_inv s pd xs"
  shows "xs = [] \<and> walkpgdir pd va True s = Done 0 s \<or>
    (\<exists>t ys. walkpgdir pd va True s = Done (wslot (table (kmem_mem t) pd (unat (PDX va))) (unat (PTX va))) t \<and>
       vm_step s t pd xs ys \<and> length xs \<le> Suc (length ys) \<and> unat (PDX va) \<in> present (kmem_mem t) pd \<and>
       (\<forall>x. entry (kmem_mem t) pd x = entry (kmem_mem s) pd x))"
proof (cases "unat (PDX va) \<in> present (kmem_mem s) pd")
  case True
  with pt_ok_slots(1) [OF vm_inv_facts(3) [OF assms] PDX_less, of va]
  have "walkpgdir pd va True s = Done (wslot (table (kmem_mem s) pd (unat (PDX va))) (unat (PTX va))) s"
    by (simp add: walkpgdir_def bd_run pde_at_slot pte_at_slot ldmem_run present_def pde_def table_def)
  with True vm_step_refl [OF assms] show ?thesis by auto
next
  case False
  note F = vm_inv_facts [OF assms]
  note nz = pt_ok_slots(1) [OF F(3) PDX_less, of va]
  have absent: "load32 (kmem_mem s) (wslot pd (unat (PDX va))) AND PTE_P = 0"
    using False by (simp add: present_def pde_def)
  show ?thesis
  proof (cases xs)
    case Nil
    then have "kalloc s = Done 0 s" using F(1,2) pa.alloc_Nil by blast
    with Nil absent nz show ?thesis by (simp add: walkpgdir_def bd_run pde_at_slot ldmem_run)
  next
    case (Cons p ys)
    obtain u where u: "kalloc s = Done p u" "free_pages u ys" and su: "u = s\<lparr>freelist := freelist u\<rparr>"
      using kalloc_Cons F(1,2) Cons by blast
    have um: "kmem_mem u = kmem_mem s" "kend u = kend s" "held u = held s" by (subst su, simp)+
    have p: "page_aligned p" "2 ^ 31 \<le> unat p" "p \<notin> pt_pages s pd" "p \<noteq> 0" using F(6,7,9) [of p] Cons by auto
    define t where "t = u\<lparr>kmem_mem := store32 (memset (kmem_mem s) p 0 PGSIZE) (wslot pd (unat (PDX va))) (v2p p OR PTE_P OR PTE_W OR PTE_U)\<rparr>"
    have tm: "kmem_mem t = store32 (memset (kmem_mem s) p 0 PGSIZE) (wslot pd (unat (PDX va))) (v2p p OR PTE_P OR PTE_W OR PTE_U)"
      by (simp add: t_def)
    note A = add_table [OF F(3) PDX_less False p(1,2) p(3) [unfolded pt_pages_def] tm]
    have run: "walkpgdir pd va True s = Done (wslot (table (kmem_mem t) pd (unat (PDX va))) (unat (PTX va))) t"
      using absent nz u(1) p(4)
      by (simp add: walkpgdir_def bd_run pde_at_slot pte_at_slot ldmem_run stmem_run zero_page_def A(5)) (simp add: t_def um)
    have out: "kmem_mem t a = kmem_mem s a" if "\<not> in_page p a" "\<not> in_page pd a" for a
      using that by (simp add: tm store32_slot_out F(4) memset_page)
    have ag: "agree (kmem_mem s) (kmem_mem t) {q. page_aligned q \<and> q \<noteq> p \<and> q \<noteq> pd}"
      using out other_page [OF _ p(1)] other_page [OF _ F(4)] by (auto simp: agree_def)
    have pp: "pt_pages t pd = insert p (pt_pages s pd)" using A(2) by (auto simp: pt_pages_def)
    have ys: "set ys \<subseteq> set xs" "p \<notin> set ys" "pd \<notin> set xs" using F(9,10) Cons by (auto simp: pt_pages_def)
    have "agree (kmem_mem u) (kmem_mem t) (set ys)"
      using ag F(6) ys unfolding um agree_def by blast
    then have "free_pages t ys" by (rule free_pages_agree [OF u(2)]) (simp_all add: t_def)
    moreover have "set ys \<inter> pt_pages t pd = {}" using pp ys F(9) by auto
    ultimately have "vm_inv t pd ys" using A(1) F(1) um(3) by (simp add: vm_inv_def t_def)
    moreover have "t = s\<lparr>kmem_mem := kmem_mem t, freelist := freelist t\<rparr>" unfolding t_def by (subst su) simp
    moreover have "agree (kmem_mem s) (kmem_mem t) {q. page_aligned q \<and> q \<notin> set xs \<union> pt_pages s pd}"
      using ag Cons by (auto simp: agree_def pt_pages_def)
    ultimately have "vm_step s t pd xs ys" using pp ys Cons by (auto simp: vm_step_def)
    with run A(3,4) Cons show ?thesis by auto
  qed
qed

lemma map_page:
  assumes "vm_inv s pd xs" and "entry (kmem_mem s) pd va AND PTE_P = 0"
  shows "xs = [] \<and> walkpgdir pd va True s = Done 0 s \<or>
    (\<exists>pte t u ys. pte \<noteq> 0 \<and> walkpgdir pd va True s = Done pte t \<and> ldmem pte t = Done (entry (kmem_mem s) pd va) t \<and>
       stmem pte w t = Done () u \<and> vm_step s u pd xs ys \<and> length xs \<le> Suc (length ys) \<and>
       (\<forall>x. entry (kmem_mem u) pd x = (if unat x div 4096 = unat va div 4096 then w else entry (kmem_mem s) pd x)))"
proof (cases "xs = [] \<and> walkpgdir pd va True s = Done 0 s")
  case False
  with walkpgdir_alloc [OF assms(1), of va] obtain t ys where
    t: "walkpgdir pd va True s = Done (wslot (table (kmem_mem t) pd (unat (PDX va))) (unat (PTX va))) t"
      "vm_step s t pd xs ys" "unat (PDX va) \<in> present (kmem_mem t) pd" "\<forall>x. entry (kmem_mem t) pd x = entry (kmem_mem s) pd x"
      "length xs \<le> Suc (length ys)"
    by blast
  define u where "u = t\<lparr>kmem_mem := store32 (kmem_mem t) (wslot (table (kmem_mem t) pd (unat (PDX va))) (unat (PTX va))) w\<rparr>"
  note inv = vm_step_fields(3) [OF t(2)]
  have um: "kmem_mem u = store32 (kmem_mem t) (wslot (table (kmem_mem t) pd (unat (PDX va))) (unat (PTX va))) w"
    by (simp add: u_def)
  note S = set_entry [OF vm_inv_facts(3) [OF inv] t(3) um]
  have "vm_step t u pd ys ys"
    by (rule vm_store [OF inv _ PTX_less u_def S(1,2)]) (use t(3) in \<open>auto simp: pt_pages_def tables_def\<close>)
  with t(2) have "vm_step s u pd xs ys" by (rule vm_step_trans)
  moreover have nz: "wslot (table (kmem_mem t) pd (unat (PDX va))) (unat (PTX va)) \<noteq> 0"
    by (rule pt_ok_slots(2) [OF vm_inv_facts(3) [OF inv] PTX_less t(3)])
  moreover have "load32 (kmem_mem t) (wslot (table (kmem_mem t) pd (unat (PDX va))) (unat (PTX va))) = entry (kmem_mem s) pd va"
    using t(3,4) by (metis entry_def)
  ultimately show ?thesis
    using t(1,4,5) S(3) ldmem_run [OF nz, of t] stmem_run [OF nz, of w t] by (metis u_def)
qed blast

text \<open>The entry of a page of a mapped range.\<close>

definition range_entry :: "u32 \<Rightarrow> nat \<Rightarrow> u32 \<Rightarrow> u32 \<Rightarrow> u32 \<Rightarrow> u32 option" where
  "range_entry a k pa perm x =
     (if unat a div 4096 \<le> unat x div 4096 \<and> unat x div 4096 \<le> unat a div 4096 + k
      then Some ((pa + of_nat (4096 * (unat x div 4096 - unat a div 4096))) OR perm OR PTE_P) else None)"

definition with_range :: "u32 \<Rightarrow> nat \<Rightarrow> u32 \<Rightarrow> u32 \<Rightarrow> (u32 \<Rightarrow> u32) \<Rightarrow> u32 \<Rightarrow> u32" where
  "with_range a k pa perm f x = (case range_entry a k pa perm x of Some e \<Rightarrow> e | None \<Rightarrow> f x)"

lemma next_page:
  assumes "page_aligned a" and "unat a div 4096 + Suc k < 2 ^ 20"
  shows "unat (a + PGSIZE) div 4096 = Suc (unat a div 4096)" and "page_aligned (a + PGSIZE)"
proof -
  obtain j where j: "unat a = 4096 * j" using assms(1) by (auto simp: page_aligned_def)
  then have "unat a + 4096 < 2 ^ 32" using assms(2) by simp
  then have "unat (a + PGSIZE) = 4096 * Suc j" using unat_add_small [of a 4096] j by (simp add: PGSIZE_def)
  then show "unat (a + PGSIZE) div 4096 = Suc (unat a div 4096)" "page_aligned (a + PGSIZE)"
    using j by (simp_all add: page_aligned_def)
qed

lemma with_range_Suc:
  assumes "page_aligned a" and "unat a div 4096 + Suc k < 2 ^ 20"
  shows "with_range (a + PGSIZE) k (pa + PGSIZE) perm (\<lambda>x. if unat x div 4096 = unat a div 4096 then pa OR perm OR PTE_P else f x) =
    with_range a (Suc k) pa perm f"
proof
  fix x :: u32
  define i where "i = unat a div 4096"
  define j where "j = unat x div 4096"
  show "with_range (a + PGSIZE) k (pa + PGSIZE) perm (\<lambda>x. if unat x div 4096 = unat a div 4096 then pa OR perm OR PTE_P else f x) x =
      with_range a (Suc k) pa perm f x"
    unfolding with_range_def range_entry_def next_page [OF assms] i_def [symmetric] j_def [symmetric]
    by (auto simp: le_less_Suc_eq not_less_eq_eq PGSIZE_def algebra_simps)
qed

lemma mappages_loop_step:
  assumes "vm_inv s pd xs" and "entry (kmem_mem s) pd a AND PTE_P = 0"
  shows "xs = [] \<and> mappages_loop pd a pa perm k s = Done (- 1) s \<or>
    (\<exists>u ys. mappages_loop pd a pa perm k s =
         (case k of 0 \<Rightarrow> Done 0 u | Suc k' \<Rightarrow> mappages_loop pd (a + PGSIZE) (pa + PGSIZE) perm k' u) \<and>
       vm_step s u pd xs ys \<and> length xs \<le> Suc (length ys) \<and>
       entry (kmem_mem u) pd = (\<lambda>x. if unat x div 4096 = unat a div 4096 then pa OR perm OR PTE_P else entry (kmem_mem s) pd x))"
proof (cases "xs = [] \<and> walkpgdir pd a True s = Done 0 s")
  case True
  then show ?thesis by (simp add: mappages_loop.simps [of pd a] bd_run)
next
  case False
  with map_page [OF assms, of "pa OR perm OR PTE_P"] obtain pte t u ys where
    u: "pte \<noteq> 0" "walkpgdir pd a True s = Done pte t" "ldmem pte t = Done (entry (kmem_mem s) pd a) t"
      "stmem pte (pa OR perm OR PTE_P) t = Done () u" "vm_step s u pd xs ys"
      "\<forall>x. entry (kmem_mem u) pd x = (if unat x div 4096 = unat a div 4096 then pa OR perm OR PTE_P else entry (kmem_mem s) pd x)"
      "length xs \<le> Suc (length ys)"
    by blast
  have "mappages_loop pd a pa perm k s =
      (case k of 0 \<Rightarrow> Done 0 u | Suc k' \<Rightarrow> mappages_loop pd (a + PGSIZE) (pa + PGSIZE) perm k' u)"
    using u(1-4) assms(2) by (simp add: mappages_loop.simps [of pd a] bd_run split: nat.split)
  with u(5-7) show ?thesis by blast
qed

lemma mappages_loop_spec:
  assumes "vm_inv s pd xs" and "page_aligned a" and "unat a div 4096 + k < 2 ^ 20"
    and "\<forall>x. range_entry a k pa perm x \<noteq> None \<longrightarrow> entry (kmem_mem s) pd x AND PTE_P = 0"
  shows "\<exists>r t ys. mappages_loop pd a pa perm k s = Done r t \<and> vm_step s t pd xs ys \<and>
    (r = 0 \<and> entry (kmem_mem t) pd = with_range a k pa perm (entry (kmem_mem s) pd) \<or> r = - 1 \<and> ys = [])"
  using assms
proof (induction k arbitrary: a pa s xs)
  case 0
  have "range_entry a 0 pa perm a \<noteq> None" by (simp add: range_entry_def)
  then have free: "entry (kmem_mem s) pd a AND PTE_P = 0" using "0.prems"(4) by blast
  have "with_range a 0 pa perm f = (\<lambda>x. if unat x div 4096 = unat a div 4096 then pa OR perm OR PTE_P else f x)" for f
    by (auto simp: with_range_def range_entry_def fun_eq_iff)
  with mappages_loop_step [OF "0.prems"(1) free, of pa perm 0] vm_step_refl [OF "0.prems"(1)] show ?case by auto
next
  case (Suc k)
  have "range_entry a (Suc k) pa perm a \<noteq> None" by (simp add: range_entry_def)
  then have free: "entry (kmem_mem s) pd a AND PTE_P = 0" using Suc.prems(4) by blast
  note n = next_page [OF Suc.prems(2,3)]
  show ?case
  proof (cases "xs = [] \<and> mappages_loop pd a pa perm (Suc k) s = Done (- 1) s")
    case True
    then show ?thesis using vm_step_refl [OF Suc.prems(1)] by auto
  next
    case False
    with mappages_loop_step [OF Suc.prems(1) free, of pa perm "Suc k"] obtain u ys where
      u: "mappages_loop pd a pa perm (Suc k) s = mappages_loop pd (a + PGSIZE) (pa + PGSIZE) perm k u" "vm_step s u pd xs ys"
      and e: "entry (kmem_mem u) pd = (\<lambda>x. if unat x div 4096 = unat a div 4096 then pa OR perm OR PTE_P else entry (kmem_mem s) pd x)"
      by auto
    have "\<forall>x. range_entry (a + PGSIZE) k (pa + PGSIZE) perm x \<noteq> None \<longrightarrow> entry (kmem_mem u) pd x AND PTE_P = 0"
      using Suc.prems(4) n(1) by (auto simp: range_entry_def e)
    with Suc.IH [OF vm_step_fields(3) [OF u(2)] n(2)] n(1) Suc.prems(3) obtain r v zs where
      v: "mappages_loop pd (a + PGSIZE) (pa + PGSIZE) perm k u = Done r v" "vm_step u v pd ys zs"
        "r = 0 \<and> entry (kmem_mem v) pd = with_range (a + PGSIZE) k (pa + PGSIZE) perm (entry (kmem_mem u) pd) \<or> r = - 1 \<and> zs = []"
      by (metis add_Suc add_Suc_right)
    from v(3) have "r = 0 \<and> entry (kmem_mem v) pd = with_range a (Suc k) pa perm (entry (kmem_mem s) pd) \<or> r = - 1 \<and> zs = []"
      unfolding e with_range_Suc [OF Suc.prems(2,3)] .
    with u(1) v(1) vm_step_trans [OF u(2) v(2)] show ?thesis by metis
  qed
qed

lemma page_start: "of_nat (4096 * (unat x div 4096)) = PGROUNDDOWN x"
proof -
  have "unat (PGROUNDDOWN x) = 4096 * (unat x div 4096)"
    by (metis unat_PGROUNDDOWN minus_mod_eq_mult_div)
  then have "(of_nat (unat (PGROUNDDOWN x)) :: u32) = of_nat (4096 * (unat x div 4096))" by (rule arg_cong)
  then show ?thesis by simp
qed

lemma aligned_dvd: "page_aligned a \<longleftrightarrow> 4096 dvd unat a"
  by (simp add: page_aligned_def mod_eq_0_iff_dvd)

lemma aligned_add: "page_aligned a \<Longrightarrow> page_aligned b \<Longrightarrow> page_aligned (a + b)"
  by (auto simp: aligned_dvd unat_plus_if intro!: dvd_diff_nat)

lemma aligned_diff: "page_aligned a \<Longrightarrow> page_aligned b \<Longrightarrow> page_aligned (a - b)"
  by (auto simp: aligned_dvd unat_sub_if' intro!: dvd_diff_nat)

lemma flags_or_P: "unat perm < 4096 \<Longrightarrow> unat (perm OR PTE_P) < 4096"
proof -
  assume "unat perm < 4096"
  then have "take_bit 12 perm = perm" by (simp only: word_unat_eq_iff unat_take_bit) simp
  moreover have "take_bit 12 PTE_P = PTE_P" by (simp add: PTE_P_def)
  ultimately have "take_bit 12 (perm OR PTE_P) = perm OR PTE_P" by simp
  then have "unat (perm OR PTE_P) mod 2 ^ 12 = unat (perm OR PTE_P)" by (metis unat_take_bit)
  with mod_less_divisor [of "2 ^ 12" "unat (perm OR PTE_P)"] show ?thesis by simp
qed

lemma range_entry_addr:
  assumes "range_entry a k pa perm x = Some e" and "page_aligned a" and "page_aligned pa" and "unat perm < 4096"
  shows "PTE_ADDR e + (x AND 0xFFF) = pa + (x - a)" and "e AND PTE_P \<noteq> 0" and "PTE_FLAGS e = perm OR PTE_P"
proof -
  define b :: u32 where "b = of_nat (4096 * (unat x div 4096 - unat a div 4096))"
  have le: "unat a div 4096 \<le> unat x div 4096" and e: "e = (pa + b) OR (perm OR PTE_P)"
    using assms(1) by (auto simp: range_entry_def b_def or.assoc split: if_splits)
  have b: "b = PGROUNDDOWN x - a"
    using le page_start [of x] page_start [of a] PGROUNDDOWN_id [OF assms(2)]
    by (simp add: b_def diff_mult_distrib2)
  have al: "page_aligned (pa + b)"
    unfolding b by (intro aligned_add aligned_diff assms PGROUNDDOWN_aligned)
  note f = PTE_fields [OF al flags_or_P [OF assms(4)]]
  have "x AND 0xFFF = x - PGROUNDDOWN x"
    by (simp add: PGROUNDDOWN_def and_not_mask mask12 take_bit_eq_mask [symmetric])
  then show "PTE_ADDR e + (x AND 0xFFF) = pa + (x - a)" using f(1) b by (simp add: e)
  show "e AND PTE_P \<noteq> 0" using or_flag_present [of "pa + b" perm] by (simp add: e or.assoc)
  show "PTE_FLAGS e = perm OR PTE_P" using f(2) by (simp add: e)
qed

text \<open>The number of pages \<^verbatim>\<open>mappages\<close> maps behind the first one.\<close>

definition last_page :: "u32 \<Rightarrow> u32 \<Rightarrow> nat" where
  "last_page va szb = (unat va + unat szb - 1) div 4096 - unat va div 4096"

lemma mappages_loop_of:
  assumes "0 < unat szb" and "unat va + unat szb \<le> 2 ^ 32"
  shows "mappages pd va szb pa perm = mappages_loop pd (PGROUNDDOWN va) pa perm (last_page va szb)"
    and "unat (PGROUNDDOWN va) div 4096 + last_page va szb < 2 ^ 20"
proof -
  have e: "unat (va + szb - 1) = unat va + unat szb - 1"
  proof -
    have "va + szb - 1 = va + of_nat (unat szb - 1)" using assms(1) by (simp add: of_nat_diff)
    moreover have "unat (va + of_nat (unat szb - 1)) = unat va + (unat szb - 1)"
      using assms by (intro unat_add_small) linarith
    ultimately show ?thesis using assms(1) by (simp only:)
  qed
  have d: "unat (PGROUNDDOWN x) = 4096 * (unat x div 4096)" for x by (metis unat_PGROUNDDOWN minus_mod_eq_mult_div)
  have le: "unat va div 4096 \<le> (unat va + unat szb - 1) div 4096" using assms(1) by (intro div_le_mono) simp
  have "unat (PGROUNDDOWN (va + szb - 1) - PGROUNDDOWN va) = 4096 * last_page va szb"
    using le by (simp add: unat_sub word_le_nat_alt d e last_page_def diff_mult_distrib2)
  then show "mappages pd va szb pa perm = mappages_loop pd (PGROUNDDOWN va) pa perm (last_page va szb)"
    by (simp add: mappages_def)
  have "(unat va + unat szb - 1) div 4096 < 2 ^ 20" using assms by (simp add: div_less_iff_less_mult)
  then show "unat (PGROUNDDOWN va) div 4096 + last_page va szb < 2 ^ 20" using le by (simp add: d last_page_def)
qed

lemma mappages_spec:
  assumes "vm_inv s pd xs" and "0 < unat szb" and "unat va + unat szb \<le> 2 ^ 32"
    and "\<forall>x. range_entry (PGROUNDDOWN va) (last_page va szb) pa perm x \<noteq> None \<longrightarrow> entry (kmem_mem s) pd x AND PTE_P = 0"
  shows "\<exists>r t ys. mappages pd va szb pa perm s = Done r t \<and> vm_step s t pd xs ys \<and>
    (r = 0 \<and> entry (kmem_mem t) pd = with_range (PGROUNDDOWN va) (last_page va szb) pa perm (entry (kmem_mem s) pd) \<or> r = - 1 \<and> ys = [])"
  unfolding mappages_loop_of(1) [OF assms(2,3)]
  by (rule mappages_loop_spec [OF assms(1) PGROUNDDOWN_aligned mappages_loop_of(2) [OF assms(2,3)] assms(4)])

section \<open>The kernel's mappings\<close>

text \<open>A region of \<open>kmap\<close>: its pages and its entries.\<close>

fun region_entry :: "u32 \<times> u32 \<times> u32 \<times> u32 \<Rightarrow> u32 \<Rightarrow> u32 option" where
  "region_entry (v, ps, pe, perm) = range_entry v (last_page v (pe - ps)) ps perm"

fun region_ok :: "u32 \<times> u32 \<times> u32 \<times> u32 \<Rightarrow> bool" where
  "region_ok (v, ps, pe, perm) \<longleftrightarrow> page_aligned v \<and> 0 < unat (pe - ps) \<and> unat v + unat (pe - ps) \<le> 2 ^ 32"

definition apart_regions :: "(u32 \<times> u32 \<times> u32 \<times> u32) \<Rightarrow> (u32 \<times> u32 \<times> u32 \<times> u32) \<Rightarrow> bool" where
  "apart_regions r q \<longleftrightarrow> (\<forall>x. region_entry r x = None \<or> region_entry q x = None)"

definition with_region :: "u32 \<times> u32 \<times> u32 \<times> u32 \<Rightarrow> (u32 \<Rightarrow> u32) \<Rightarrow> u32 \<Rightarrow> u32" where
  "with_region r f x = (case region_entry r x of Some e \<Rightarrow> e | None \<Rightarrow> f x)"

lemma with_region_other: "region_entry r x = None \<Longrightarrow> with_region r f x = f x"
  by (simp add: with_region_def)

lemma setupkvm_loop_spec:
  assumes "vm_inv s pd xs" and "list_all region_ok ks" and "sorted_wrt apart_regions ks"
    and "\<forall>r \<in> set ks. \<forall>x. region_entry r x \<noteq> None \<longrightarrow> entry (kmem_mem s) pd x AND PTE_P = 0"
  shows "\<exists>q t ys. setupkvm_loop pd ks s = Done q t \<and> vm_step s t pd xs ys \<and>
    (q = pd \<and> entry (kmem_mem t) pd = fold with_region ks (entry (kmem_mem s) pd) \<or> q = 0 \<and> ys = [])"
  using assms
proof (induction ks arbitrary: s xs)
  case Nil
  then show ?case using vm_step_refl [of s pd xs] by auto
next
  case (Cons r ks)
  obtain v ps pe perm where r: "r = (v, ps, pe, perm)" by (cases r)
  have v: "page_aligned v" "0 < unat (pe - ps)" "unat v + unat (pe - ps) \<le> 2 ^ 32" using Cons.prems(2) by (simp_all add: r)
  have fr: "\<forall>x. range_entry (PGROUNDDOWN v) (last_page v (pe - ps)) ps perm x \<noteq> None \<longrightarrow> entry (kmem_mem s) pd x AND PTE_P = 0"
    using Cons.prems(4) by (simp add: r PGROUNDDOWN_id [OF v(1)])
  have wr: "with_range v (last_page v (pe - ps)) ps perm f = with_region r f" for f
    by (simp add: fun_eq_iff with_region_def with_range_def r)
  obtain c t ys where
    t: "mappages pd v (pe - ps) ps perm s = Done c t" "vm_step s t pd xs ys"
      "c = 0 \<and> entry (kmem_mem t) pd = with_region r (entry (kmem_mem s) pd) \<or> c = - 1 \<and> ys = []"
    using mappages_spec [OF Cons.prems(1) v(2,3) fr] unfolding PGROUNDDOWN_id [OF v(1)] wr by blast
  have ks: "list_all region_ok ks" "sorted_wrt apart_regions ks" using Cons.prems(2,3) by simp_all
  show ?case
  proof (cases "c = 0")
    case True
    have e: "entry (kmem_mem t) pd = with_region r (entry (kmem_mem s) pd)" using t(3) True by simp
    have "\<forall>q \<in> set ks. \<forall>x. region_entry q x \<noteq> None \<longrightarrow> entry (kmem_mem t) pd x AND PTE_P = 0"
    proof (intro ballI allI impI)
      fix q x assume q: "q \<in> set ks" "region_entry q x \<noteq> None"
      have "apart_regions r q" using Cons.prems(3) q(1) by simp
      then have "region_entry r x = None \<or> region_entry q x = None" unfolding apart_regions_def by (rule spec)
      with q(2) have "region_entry r x = None" by auto
      then show "entry (kmem_mem t) pd x AND PTE_P = 0" using Cons.prems(4) q by (simp add: e with_region_other)
    qed
    from Cons.IH [OF vm_step_fields(3) [OF t(2)] ks this] obtain q u zs where
      u: "setupkvm_loop pd ks t = Done q u" "vm_step t u pd ys zs"
        "q = pd \<and> entry (kmem_mem u) pd = fold with_region ks (entry (kmem_mem t) pd) \<or> q = 0 \<and> zs = []"
      by blast
    have "setupkvm_loop pd (r # ks) s = Done q u" using t(1) u(1) True by (simp add: r bd_run)
    moreover have "q = pd \<and> entry (kmem_mem u) pd = fold with_region (r # ks) (entry (kmem_mem s) pd) \<or> q = 0 \<and> zs = []"
      using u(3) by (simp add: e)
    ultimately show ?thesis using vm_step_trans [OF t(2) u(2)] by blast
  next
    case False
    then have "setupkvm_loop pd (r # ks) s = Done 0 t" "ys = []" using t(1,3) by (simp_all add: r bd_run)
    with t(2) show ?thesis by blast
  qed
qed

text \<open>Pages of the four regions.\<close>

lemma region_pages:
  assumes "region_ok (v, ps, pe, perm)"
  shows "region_entry (v, ps, pe, perm) x \<noteq> None \<longleftrightarrow> v \<le> x \<and> unat x div 4096 \<le> (unat v + unat (pe - ps) - 1) div 4096"
proof -
  obtain j where j: "unat v = 4096 * j" using assms by (auto simp: page_aligned_def)
  have "j \<le> (4096 * j + unat (pe - ps) - 1) div 4096" using assms by (auto simp: less_eq_div_iff_mult_less_eq)
  moreover have "v \<le> x \<longleftrightarrow> j \<le> unat x div 4096" by (simp add: word_le_nat_alt j less_eq_div_iff_mult_less_eq mult.commute)
  ultimately show ?thesis by (auto simp: range_entry_def last_page_def j)
qed

lemmas layout_defs = KERNBASE_def KERNLINK_def EXTMEM_def PHYSTOP_def DEVSPACE_def v2p_def p2v_def PTE_W_def PTE_U_def PTE_P_def

definition data_ok :: "u32 \<Rightarrow> bool" where
  "data_ok d \<longleftrightarrow> page_aligned d \<and> KERNLINK < d \<and> d < p2v PHYSTOP"

lemma data_okE:
  assumes "data_ok d"
  obtains j where "unat d = 4096 * j" "0x80100 < j" "j < 0x8E000" "unat (v2p d - v2p KERNLINK) = 4096 * j - 0x80100000"
    "unat (PHYSTOP - v2p d) = 0x8E000000 - 4096 * j"
proof -
  have b: "page_aligned d" "0x80100000 < unat d" "unat d < 0x8E000000"
    using assms by (simp_all add: data_ok_def layout_defs word_less_nat_alt)
  from b(1) obtain j where j: "unat d = 4096 * j" by (auto simp: page_aligned_def)
  have "v2p d - v2p KERNLINK = d - 0x80100000" "PHYSTOP - v2p d = 0x8E000000 - d" by (simp_all add: layout_defs)
  then have "unat (v2p d - v2p KERNLINK) = 4096 * j - 0x80100000" "unat (PHYSTOP - v2p d) = 0x8E000000 - 4096 * j"
    using b(2,3) j by (simp_all add: unat_sub word_le_nat_alt)
  moreover have "0x80100 < j" "j < 0x8E000" using b(2,3) j by linarith+
  ultimately show ?thesis using that j by blast
qed

lemma kmap_ok:
  assumes "data_ok d"
  shows "list_all region_ok (kmap d)"
proof -
  obtain j where j: "unat d = 4096 * j" "0x80100 < j" "j < 0x8E000" "unat (v2p d - v2p KERNLINK) = 4096 * j - 0x80100000"
    "unat (PHYSTOP - v2p d) = 0x8E000000 - 4096 * j" using data_okE [OF assms] .
  have "unat (KERNLINK :: u32) = 0x80100000" by (simp add: layout_defs)
  with j have "region_ok (KERNLINK, v2p KERNLINK, v2p d, 0)" "region_ok (d, v2p d, PHYSTOP, PTE_W)"
    by (simp_all add: page_aligned_def)
  moreover have "region_ok (KERNBASE, 0, EXTMEM, PTE_W)" "region_ok (DEVSPACE, DEVSPACE, 0, PTE_W)"
    by (simp_all add: page_aligned_def layout_defs)
  ultimately show ?thesis by (simp add: kmap_def del: region_ok.simps)
qed

lemma kmap_regions:
  assumes "data_ok d"
  shows "region_entry (KERNBASE, 0, EXTMEM, PTE_W) x \<noteq> None \<longleftrightarrow> KERNBASE \<le> x \<and> x < KERNLINK"
    and "region_entry (KERNLINK, v2p KERNLINK, v2p d, 0) x \<noteq> None \<longleftrightarrow> KERNLINK \<le> x \<and> x < d"
    and "region_entry (d, v2p d, PHYSTOP, PTE_W) x \<noteq> None \<longleftrightarrow> d \<le> x \<and> x < p2v PHYSTOP"
    and "region_entry (DEVSPACE, DEVSPACE, 0, PTE_W) x \<noteq> None \<longleftrightarrow> DEVSPACE \<le> x"
proof -
  obtain j where j: "unat d = 4096 * j" "0x80100 < j" "j < 0x8E000" "unat (v2p d - v2p KERNLINK) = 4096 * j - 0x80100000"
    "unat (PHYSTOP - v2p d) = 0x8E000000 - 4096 * j" using data_okE [OF assms] .
  have ok: "region_ok (KERNBASE, 0, EXTMEM, PTE_W)" "region_ok (KERNLINK, v2p KERNLINK, v2p d, 0)"
    "region_ok (d, v2p d, PHYSTOP, PTE_W)" "region_ok (DEVSPACE, DEVSPACE, 0, PTE_W)"
    using kmap_ok [OF assms] by (simp_all add: kmap_def del: region_ok.simps)
  have K: "unat (KERNLINK :: u32) = 0x80100000" "unat (DEVSPACE :: u32) = 0xFE000000" "unat (KERNBASE :: u32) = 0x80000000"
    "unat (p2v PHYSTOP) = 0x8E000000" "unat (EXTMEM :: u32) = 0x100000" "unat (- DEVSPACE) = 0x2000000"
    by (simp_all add: layout_defs)
  have lt: "unat x div 4096 \<le> (4096 * k - 1) div 4096 \<longleftrightarrow> unat x < 4096 * k" if "0 < k" for k :: nat
    using that by (cases k) (auto simp: div_less_iff_less_mult less_Suc_eq_le [symmetric])
  show "region_entry (KERNBASE, 0, EXTMEM, PTE_W) x \<noteq> None \<longleftrightarrow> KERNBASE \<le> x \<and> x < KERNLINK"
    unfolding region_pages [OF ok(1)] using lt [of "0x80100"] by (simp add: word_less_nat_alt K)
  show "region_entry (KERNLINK, v2p KERNLINK, v2p d, 0) x \<noteq> None \<longleftrightarrow> KERNLINK \<le> x \<and> x < d"
    unfolding region_pages [OF ok(2)] using lt [of j] j by (simp add: word_less_nat_alt K)
  show "region_entry (d, v2p d, PHYSTOP, PTE_W) x \<noteq> None \<longleftrightarrow> d \<le> x \<and> x < p2v PHYSTOP"
    unfolding region_pages [OF ok(3)] using lt [of "0x8E000"] j by (simp add: word_less_nat_alt K)
  show "region_entry (DEVSPACE, DEVSPACE, 0, PTE_W) x \<noteq> None \<longleftrightarrow> DEVSPACE \<le> x"
    unfolding region_pages [OF ok(4)] using lt [of "0x100000"] unat_less_u32 [of x] by (simp add: word_less_nat_alt K)
qed

lemma iff_None: "(a \<noteq> None \<longleftrightarrow> Q) \<Longrightarrow> (a = None \<longleftrightarrow> \<not> Q)"
  by blast

lemmas kmap_none = kmap_regions [THEN iff_None]

lemma kmap_order:
  "data_ok d \<Longrightarrow> KERNBASE < KERNLINK \<and> KERNLINK < d \<and> d < p2v PHYSTOP \<and> p2v PHYSTOP < DEVSPACE"
  by (auto simp: data_ok_def layout_defs)

lemma kmap_apart:
  assumes "data_ok d"
  shows "sorted_wrt apart_regions (kmap d)"
  using kmap_order [OF assms] unfolding kmap_def sorted_wrt.simps apart_regions_def ball_simps list.set kmap_none [OF assms]
  by auto

lemma flag_bits: "PTE_FLAGS e AND PTE_W = e AND PTE_W" "PTE_FLAGS e AND PTE_U = e AND PTE_U"
  by (simp_all add: PTE_FLAGS_def PTE_W_def PTE_U_def and.assoc)

lemma region_facts:
  assumes "region_entry (v, ps, pe, perm) x = Some e" and "page_aligned v" and "page_aligned ps" and "perm = PTE_W \<or> perm = 0"
  shows "PTE_ADDR e + (x AND 0xFFF) = ps + (x - v)" and "e AND PTE_P \<noteq> 0" and "e AND PTE_U = 0"
    and "e AND PTE_W \<noteq> 0 \<longleftrightarrow> perm = PTE_W"
proof -
  have perm: "unat perm < 4096" using assms(4) by (auto simp: PTE_W_def)
  have r: "range_entry v (last_page v (pe - ps)) ps perm x = Some e" using assms(1) by simp
  note f = range_entry_addr [OF r assms(2,3) perm]
  show "PTE_ADDR e + (x AND 0xFFF) = ps + (x - v)" "e AND PTE_P \<noteq> 0" by (rule f)+
  show "e AND PTE_U = 0" "e AND PTE_W \<noteq> 0 \<longleftrightarrow> perm = PTE_W"
    using f(3) flag_bits [of e] assms(4) by (auto simp: PTE_W_def PTE_U_def PTE_P_def)
qed

text \<open>What the four mappings amount to.\<close>

lemma kmap_entry:
  assumes "data_ok d" and e: "e = fold with_region (kmap d) (\<lambda>_. 0) x"
  shows "(e AND PTE_P \<noteq> 0 \<longleftrightarrow> KERNBASE \<le> x \<and> x < p2v PHYSTOP \<or> DEVSPACE \<le> x) \<and>
    (KERNBASE \<le> x \<longrightarrow> x < p2v PHYSTOP \<longrightarrow> PTE_ADDR e + (x AND 0xFFF) = v2p x) \<and>
    (DEVSPACE \<le> x \<longrightarrow> PTE_ADDR e + (x AND 0xFFF) = x) \<and> e AND PTE_U = 0 \<and>
    (e AND PTE_W \<noteq> 0 \<longleftrightarrow> KERNBASE \<le> x \<and> x < KERNLINK \<or> d \<le> x \<and> x < p2v PHYSTOP \<or> DEVSPACE \<le> x)"
proof -
  let ?r1 = "(KERNBASE, 0, EXTMEM, PTE_W)" and ?r2 = "(KERNLINK, v2p KERNLINK, v2p d, 0)"
  let ?r3 = "(d, v2p d, PHYSTOP, PTE_W)" and ?r4 = "(DEVSPACE, DEVSPACE, 0, PTE_W)"
  note R = kmap_none [OF assms(1)] and o = kmap_order [OF assms(1)]
  have al: "page_aligned KERNBASE" "page_aligned KERNLINK" "page_aligned d" "page_aligned DEVSPACE" "page_aligned 0"
    using assms(1) by (auto simp: data_ok_def layout_defs page_aligned_def)
  have pw: "(0 :: u32) \<noteq> PTE_W" by (simp add: PTE_W_def)
  have E: "e = with_region ?r4 (with_region ?r3 (with_region ?r2 (with_region ?r1 (\<lambda>_. 0)))) x" using e by (simp add: kmap_def)
  consider "x < KERNBASE \<or> p2v PHYSTOP \<le> x \<and> x < DEVSPACE" | "KERNBASE \<le> x" "x < KERNLINK" | "KERNLINK \<le> x" "x < d"
    | "d \<le> x" "x < p2v PHYSTOP" | "DEVSPACE \<le> x" using linorder_not_le by blast
  then show ?thesis
  proof cases
    case 1
    have "region_entry ?r1 x = None" "region_entry ?r2 x = None" "region_entry ?r3 x = None" "region_entry ?r4 x = None"
      unfolding R using 1 o by auto
    then have "e = 0" unfolding E by (simp add: with_region_def del: region_entry.simps)
    with 1 o show ?thesis by auto
  next
    case 2
    have "region_entry ?r2 x = None" "region_entry ?r3 x = None" "region_entry ?r4 x = None"
      unfolding R using 2 o by auto
    moreover obtain a where a: "region_entry ?r1 x = Some a" using R(1) 2 by (metis not_None_eq)
    ultimately have "e = a" unfolding E by (simp add: with_region_def del: region_entry.simps)
    note f = region_facts [OF a al(1) al(5) disjI1 [OF refl]]
    have "PTE_ADDR a + (x AND 0xFFF) = v2p x" unfolding f(1) by (simp add: v2p_def)
    with \<open>e = a\<close> f(2-4) 2 o pw show ?thesis by auto
  next
    case 3
    have "region_entry ?r1 x = None" "region_entry ?r3 x = None" "region_entry ?r4 x = None"
      unfolding R using 3 o by auto
    moreover obtain a where a: "region_entry ?r2 x = Some a" using R(2) 3 by (metis not_None_eq)
    ultimately have "e = a" unfolding E by (simp add: with_region_def del: region_entry.simps)
    note f = region_facts [OF a al(2) v2p_aligned [OF al(2)] disjI2 [OF refl]]
    have "PTE_ADDR a + (x AND 0xFFF) = v2p x" unfolding f(1) by (simp add: v2p_def)
    with \<open>e = a\<close> f(2-4) 3 o pw show ?thesis by auto
  next
    case 4
    have "region_entry ?r1 x = None" "region_entry ?r2 x = None" "region_entry ?r4 x = None"
      unfolding R using 4 o by auto
    moreover obtain a where a: "region_entry ?r3 x = Some a" using R(3) 4 by (metis not_None_eq)
    ultimately have "e = a" unfolding E by (simp add: with_region_def del: region_entry.simps)
    note f = region_facts [OF a al(3) v2p_aligned [OF al(3)] disjI1 [OF refl]]
    have "PTE_ADDR a + (x AND 0xFFF) = v2p x" unfolding f(1) by (simp add: v2p_def)
    with \<open>e = a\<close> f(2-4) 4 o pw show ?thesis by auto
  next
    case 5
    have "region_entry ?r1 x = None" "region_entry ?r2 x = None" "region_entry ?r3 x = None"
      unfolding R using 5 o by auto
    moreover obtain a where a: "region_entry ?r4 x = Some a" using R(4) 5 by (metis not_None_eq)
    ultimately have "e = a" unfolding E by (simp add: with_region_def del: region_entry.simps)
    note f = region_facts [OF a al(4) al(4) disjI1 [OF refl]]
    have "PTE_ADDR a + (x AND 0xFFF) = x" unfolding f(1) by (simp add: v2p_def)
    with \<open>e = a\<close> f(2-4) 5 o pw show ?thesis by auto
  qed
qed

lemma zeroed_dir:
  assumes "page_aligned pd" and "2 ^ 31 \<le> unat pd"
  shows "pt_ok (memset m pd 0 PGSIZE) pd" and "tables (memset m pd 0 PGSIZE) pd = {}"
    and "entry (memset m pd 0 PGSIZE) pd = (\<lambda>_. 0)"
proof -
  have "present (memset m pd 0 PGSIZE) pd = {}"
    using load32_zeroed [OF assms(1)] by (auto simp: present_def pde_def)
  then show "pt_ok (memset m pd 0 PGSIZE) pd" "tables (memset m pd 0 PGSIZE) pd = {}"
    "entry (memset m pd 0 PGSIZE) pd = (\<lambda>_. 0)"
    using assms by (auto simp: pt_ok_def tables_def entry_def fun_eq_iff)
qed

lemma setupkvm_spec:
  assumes "LKmem \<notin> held s" and "free_pages s xs" and "data_ok (kdata s)"
  shows "\<exists>pd t ys. setupkvm s = Done pd t \<and> t = s\<lparr>kmem_mem := kmem_mem t, freelist := freelist t\<rparr> \<and>
    agree (kmem_mem s) (kmem_mem t) {p. page_aligned p \<and> p \<notin> set xs} \<and>
    (pd = 0 \<and> free_pages t [] \<or>
     pd \<in> set xs \<and> vm_inv t pd ys \<and> set ys \<union> pt_pages t pd \<subseteq> set xs \<and>
     entry (kmem_mem t) pd = fold with_region (kmap (kdata s)) (\<lambda>_. 0))"
proof (cases xs)
  case Nil
  then have "kalloc s = Done 0 s" using assms(1,2) by (intro kalloc_Nil) simp_all
  then have "setupkvm s = Done 0 s" by (simp add: setupkvm_def bd_run)
  with assms(2) Nil show ?thesis by (auto simp: agree_def)
next
  case (Cons pd ys)
  obtain u where u: "kalloc s = Done pd u" "free_pages u ys" and su: "u = s\<lparr>freelist := freelist u\<rparr>"
    using kalloc_Cons assms(1,2) Cons by blast
  have um: "kmem_mem u = kmem_mem s" "kend u = kend s" "held u = held s" "kdata u = kdata s" by (subst su, simp)+
  have "good_page (kend s) pd" using assms(2) Cons by (simp add: free_pages_def)
  note pd = good_pageD [OF this]
  have ys: "pd \<notin> set ys" "page_aligned q" if "q \<in> set ys" for q
    using free_pages_distinct [OF assms(2)] assms(2) Cons that by (auto simp: free_pages_def good_page_def)
  define v where "v = u\<lparr>kmem_mem := memset (kmem_mem u) pd 0 PGSIZE\<rparr>"
  note z = zeroed_dir [OF pd(1,5), of "kmem_mem u"]
  have ag: "agree (kmem_mem u) (kmem_mem v) {q. page_aligned q \<and> q \<noteq> pd}"
    using other_page [OF _ pd(1)] by (auto simp: agree_def v_def memset_page)
  have "free_pages v ys"
    by (rule free_pages_agree [OF u(2)]) (use ag ys in \<open>auto simp: agree_def v_def\<close>)
  then have inv: "vm_inv v pd ys"
    using z ys assms(1) um(3) by (auto simp: vm_inv_def pt_pages_def v_def)
  have e: "entry (kmem_mem v) pd = (\<lambda>_. 0)" using z by (simp add: v_def)
  obtain q t zs where t: "setupkvm_loop pd (kmap (kdata s)) v = Done q t" "vm_step v t pd ys zs"
      "q = pd \<and> entry (kmem_mem t) pd = fold with_region (kmap (kdata s)) (\<lambda>_. 0) \<or> q = 0 \<and> zs = []"
    using setupkvm_loop_spec [OF inv kmap_ok [OF assms(3)] kmap_apart [OF assms(3)]] unfolding e by auto
  have run: "setupkvm s = Done q t"
    using u(1) t(1) pd(4) um(4) by (simp add: setupkvm_def bd_run zero_page_def layout_defs v_def [symmetric]) (simp add: v_def)
  have pp: "pt_pages v pd = {pd}" using z by (simp add: pt_pages_def v_def)
  have st: "t = v\<lparr>kmem_mem := kmem_mem t, freelist := freelist t\<rparr>" using t(2) by (simp add: vm_step_def)
  have "t = s\<lparr>kmem_mem := kmem_mem t, freelist := freelist t\<rparr>" by (subst st, simp add: v_def, subst su) simp
  moreover have "agree (kmem_mem s) (kmem_mem t) {p. page_aligned p \<and> p \<notin> set xs}"
    using t(2) ag pp Cons um(1) by (auto simp: vm_step_def agree_def)
  moreover have "set zs \<union> pt_pages t pd \<subseteq> set xs" "vm_inv t pd zs" using t(2) pp Cons by (auto simp: vm_step_def)
  moreover have "free_pages t zs" using \<open>vm_inv t pd zs\<close> by (simp add: vm_inv_def)
  ultimately show ?thesis using run t(3) Cons by auto
qed

section \<open>Properties of the mappings\<close>

text \<open>
  C19: \<^verbatim>\<open>mappages\<close> on a range of unmapped addresses maps the page of every address of the range to consecutive
  physical memory from \<^verbatim>\<open>pa\<close> and changes the translation of no other address; it writes only to the page
  directory, its page tables and pages it takes off the free list for new tables. It fails, with -1, only when
  the free list runs empty. It does not panic.
\<close>

theorem mappages_translates:
  assumes "vm_inv s pd xs" and "0 < unat szb" and "unat va + unat szb \<le> 2 ^ 32" and "page_aligned pa" and "unat perm < 4096"
    and "\<forall>x. unat va div 4096 \<le> unat x div 4096 \<and> unat x div 4096 \<le> (unat va + unat szb - 1) div 4096 \<longrightarrow>
      translate (kmem_mem s) pd x = None"
  shows "\<exists>r t ys. mappages pd va szb pa perm s = Done r t \<and> vm_step s t pd xs ys \<and>
    (r = - 1 \<and> ys = [] \<or>
     r = 0 \<and> (\<forall>x. translate (kmem_mem t) pd x =
       (if unat va div 4096 \<le> unat x div 4096 \<and> unat x div 4096 \<le> (unat va + unat szb - 1) div 4096
        then Some (p2v (pa + (x - PGROUNDDOWN va))) else translate (kmem_mem s) pd x)))"
proof -
  define k where "k = last_page va szb"
  define a where "a = PGROUNDDOWN va"
  have d: "unat a div 4096 = unat va div 4096"
    using unat_PGROUNDDOWN [of va] by (metis a_def minus_mod_eq_mult_div nonzero_mult_div_cancel_left zero_neq_numeral)
  have le: "unat va div 4096 \<le> (unat va + unat szb - 1) div 4096" using assms(2) by (intro div_le_mono) simp
  have R: "range_entry a k pa perm x \<noteq> None \<longleftrightarrow>
      unat va div 4096 \<le> unat x div 4096 \<and> unat x div 4096 \<le> (unat va + unat szb - 1) div 4096" for x
    using le by (simp add: range_entry_def d k_def last_page_def)
  have "\<forall>x. range_entry a k pa perm x \<noteq> None \<longrightarrow> entry (kmem_mem s) pd x AND PTE_P = 0"
    using assms(6) unfolding R translate_entry by (metis option.distinct(1))
  from mappages_spec [OF assms(1-3) this [unfolded a_def k_def]] obtain r t ys where
    t: "mappages pd va szb pa perm s = Done r t" "vm_step s t pd xs ys"
      "r = 0 \<and> entry (kmem_mem t) pd = with_range a k pa perm (entry (kmem_mem s) pd) \<or> r = - 1 \<and> ys = []"
    unfolding a_def k_def by blast
  have "translate (kmem_mem t) pd x = (if range_entry a k pa perm x \<noteq> None then Some (p2v (pa + (x - a))) else translate (kmem_mem s) pd x)"
    if e: "entry (kmem_mem t) pd = with_range a k pa perm (entry (kmem_mem s) pd)" for x
  proof (cases "range_entry a k pa perm x")
    case None
    then show ?thesis by (simp add: translate_entry e with_range_def)
  next
    case (Some f)
    note f = range_entry_addr [OF Some PGROUNDDOWN_aligned [of va, folded a_def] assms(4,5)]
    have "p2v (PTE_ADDR f) + (x AND 0xFFF) = p2v (pa + (x - a))" using f(1) by (simp add: p2v_def algebra_simps)
    with Some f(2) show ?thesis by (simp add: translate_entry e with_range_def)
  qed
  with t show ?thesis unfolding R a_def [symmetric] by blast
qed

text \<open>
  C18: \<^verbatim>\<open>setupkvm\<close> builds the kernel half of an address space: every address from \<^verbatim>\<open>KERNBASE\<close> to the end of
  physical memory is mapped to the physical address \<^verbatim>\<open>KERNBASE\<close> below it and every device address to itself;
  nothing else is mapped, so the user half is empty. No entry is accessible in user mode, and exactly the kernel's
  text is write-protected. It returns 0 only when the free list runs empty.
\<close>

theorem setupkvm_maps_kernel:
  assumes "LKmem \<notin> held s" and "free_pages s xs" and "data_ok (kdata s)"
  shows "\<exists>pd t. setupkvm s = Done pd t \<and>
    (pd = 0 \<and> free_pages t [] \<or>
     pd \<in> set xs \<and> (\<exists>ys. vm_inv t pd ys) \<and>
     (\<forall>va. translate (kmem_mem t) pd va =
        (if KERNBASE \<le> va \<and> va < p2v PHYSTOP then Some (p2v (v2p va)) else if DEVSPACE \<le> va then Some (p2v va) else None)) \<and>
     (\<forall>va. entry (kmem_mem t) pd va AND PTE_U = 0 \<and>
        (translate (kmem_mem t) pd va \<noteq> None \<longrightarrow>
          (entry (kmem_mem t) pd va AND PTE_W = 0 \<longleftrightarrow> KERNLINK \<le> va \<and> va < kdata s))))"
proof -
  obtain pd t ys where t: "setupkvm s = Done pd t" "pd = 0 \<and> free_pages t [] \<or> pd \<in> set xs \<and> vm_inv t pd ys \<and>
      entry (kmem_mem t) pd = fold with_region (kmap (kdata s)) (\<lambda>_. 0)"
    using setupkvm_spec [OF assms] by auto
  show ?thesis
  proof (cases "pd = 0 \<and> free_pages t []")
    case False
    with t(2) have pd: "pd \<in> set xs" "vm_inv t pd ys" and
      e: "entry (kmem_mem t) pd va = fold with_region (kmap (kdata s)) (\<lambda>_. 0) va" for va by auto
    note K = kmap_entry [OF assms(3) e]
    note o = kmap_order [OF assms(3)]
    have T: "translate (kmem_mem t) pd va =
        (if KERNBASE \<le> va \<and> va < p2v PHYSTOP then Some (p2v (v2p va)) else if DEVSPACE \<le> va then Some (p2v va) else None)" for va
      using K [of va] o unfolding translate_entry by (auto simp: p2v_def algebra_simps)
    have "entry (kmem_mem t) pd va AND PTE_U = 0 \<and> (translate (kmem_mem t) pd va \<noteq> None \<longrightarrow>
        (entry (kmem_mem t) pd va AND PTE_W = 0 \<longleftrightarrow> KERNLINK \<le> va \<and> va < kdata s))" for va
      using K [of va] o unfolding translate_entry by auto
    with T pd t(1) show ?thesis by blast
  qed (use t(1) in blast)
qed

text \<open>An empty directory and one free page; the linker's symbol and the rest of the machine as after booting.\<close>

definition boot_vm :: vmst where
  "boot_vm = filest.extend (pipest.extend (boot_pipes\<lparr>freelist := 0x8DFFE000\<rparr>) (filest.fields []))
     (vmst.fields 0x80108000 0x80103000 0x80105000 [])"

lemma boot_vm_fields:
  "held boot_vm = {}" "kmem_mem boot_vm = (\<lambda>_. 0)" "kdata boot_vm = 0x80108000" "freelist boot_vm = 0x8DFFE000"
  "kend boot_vm = 0x8010A000"
  by (simp_all add: boot_vm_def boot_pipes_def boot_fs_def boot_console_def pipest.defs filest.defs vmst.defs fsst.defs consst.defs)

lemma boot_vm_inv: "free_pages boot_vm [0x8DFFE000]" "vm_inv boot_vm 0x8DFFF000 [0x8DFFE000]" "translate (kmem_mem boot_vm) 0x8DFFF000 x = None"
proof -
  have z: "load32 (\<lambda>_. 0) a = 0" for a by (simp add: load32_def of_le32_def)
  show fp: "free_pages boot_vm [0x8DFFE000]"
    by (simp add: free_pages_def boot_vm_fields z good_page_def page_aligned_def v2p_def KERNBASE_def PHYSTOP_def)
  have pr: "present (\<lambda>_. 0) 0x8DFFF000 = {}" by (simp add: present_def pde_def z)
  with fp show "vm_inv boot_vm 0x8DFFF000 [0x8DFFE000]"
    by (simp add: vm_inv_def boot_vm_fields pt_ok_def tables_def pt_pages_def page_aligned_def)
  show "translate (kmem_mem boot_vm) 0x8DFFF000 x = None" using pr by (simp add: translate_entry entry_def boot_vm_fields)
qed

theorem mappages_translates_witness:
  "\<exists>r t. mappages 0x8DFFF000 0x400000 0x2000 0x7000 6 boot_vm = Done r t \<and>
     (r = 0 \<longrightarrow> translate (kmem_mem t) 0x8DFFF000 0x401234 = Some 0x80008234 \<and> translate (kmem_mem t) 0x8DFFF000 0x402000 = None)"
proof -
  have a: "page_aligned 0x7000" "unat (6 :: u32) < 4096" "0 < unat (0x2000 :: u32)" "unat (0x400000 :: u32) + unat (0x2000 :: u32) \<le> 2 ^ 32"
    by (simp_all add: page_aligned_def)
  have "PGROUNDDOWN 0x400000 = 0x400000" by (rule PGROUNDDOWN_id) (simp add: page_aligned_def)
  with mappages_translates [OF boot_vm_inv(2) a(3,4,1,2)] boot_vm_inv(3) show ?thesis
    by (auto simp: p2v_def KERNBASE_def)
qed

theorem setupkvm_maps_kernel_witness:
  "\<exists>pd t. setupkvm boot_vm = Done pd t \<and>
     (pd = 0 \<or> translate (kmem_mem t) pd 0x80101234 = Some (p2v 0x101234) \<and> translate (kmem_mem t) pd 0 = None)"
proof -
  have "data_ok (kdata boot_vm)" by (simp add: data_ok_def boot_vm_fields page_aligned_def layout_defs)
  from setupkvm_maps_kernel [OF _ boot_vm_inv(1) this] show ?thesis
    by (auto simp: boot_vm_fields layout_defs)
qed

end
