(* ===== verification/Uvm.thy ===== *)
theory Uvm
  imports Paging
begin

text \<open>
  \<^verbatim>\<open>copyuvm\<close> of \<^verbatim>\<open>vm.c\<close>, by which \<^verbatim>\<open>fork\<close> copies the memory of a process: the copy has the same contents in
  pages of its own. The proof follows the loop page by page over the abstraction of theory \<open>Paging\<close>.
\<close>

section \<open>Two address spaces\<close>

text \<open>The parent's page tables \<open>pd\<close> lie outside the free pages and the child's page tables \<open>d\<close>.\<close>

definition two_spaces :: "'z kmst_scheme \<Rightarrow> u32 \<Rightarrow> u32 \<Rightarrow> u32 list \<Rightarrow> bool" where
  "two_spaces s pd d xs \<longleftrightarrow> vm_inv s d xs \<and> pt_ok (kmem_mem s) pd \<and> pt_pages s pd \<inter> (set xs \<union> pt_pages s d) = {}"

definition user_frame :: "'z kmst_scheme \<Rightarrow> u32 \<Rightarrow> nat \<Rightarrow> u32" where
  "user_frame s pd i = p2v (PTE_ADDR (entry (kmem_mem s) pd (of_nat (4096 * i))))"

text \<open>The first \<open>n\<close> pages of a process are mapped to physical memory outside a set of pages.\<close>

definition user_pages :: "'z kmst_scheme \<Rightarrow> u32 \<Rightarrow> nat \<Rightarrow> u32 set \<Rightarrow> bool" where
  "user_pages s pd n P \<longleftrightarrow> (\<forall>i < n. entry (kmem_mem s) pd (of_nat (4096 * i)) AND PTE_P \<noteq> 0 \<and>
     user_frame s pd i \<notin> P \<and> unat (user_frame s pd i) < 0x8E000000)"

lemma user_frame_aligned [simp]: "page_aligned (user_frame s pd i)"
  by (simp add: user_frame_def)

lemma copy_page:
  assumes "page_aligned p" and "page_aligned f" and "unat f < 0x8E000000"
  shows "memmove m p f PGSIZE a = (if in_page p a then m (f + (a - p)) else m a)"
proof -
  obtain j where "unat p = 4096 * j" using assms(1) by (auto simp: page_aligned_def)
  then have "unat p + unat PGSIZE \<le> 2 ^ 32" using unat_less_u32 [of p] by (simp add: PGSIZE_def)
  then show ?thesis using assms(3) memmove_at [of f PGSIZE p m a] by (simp add: PGSIZE_def in_page_def)
qed

lemma page_sum: "page_aligned f \<Longrightarrow> k < 4096 \<Longrightarrow> unat ((f + of_nat k) - f) = k"
  by (simp add: unat_of_nat)

text \<open>Writing to a page that belongs to neither keeps both spaces.\<close>

lemma vm_inv_agree:
  assumes "vm_inv s d xs" and "agree (kmem_mem s) (kmem_mem t) (set xs \<union> pt_pages s d)"
    and "freelist t = freelist s" and "kend t = kend s" and "held t = held s"
  shows "vm_inv t d xs" and "pt_pages t d = pt_pages s d" and "entry (kmem_mem t) d = entry (kmem_mem s) d"
proof -
  note F = vm_inv_facts [OF assms(1)]
  have ag: "agree (kmem_mem s) (kmem_mem t) (insert d (tables (kmem_mem s) d))" "agree (kmem_mem s) (kmem_mem t) (set xs)"
    using assms(2) by (auto simp: agree_def pt_pages_def)
  show pp: "pt_pages t d = pt_pages s d" using agree_tables(3) [OF F(4) ag(1)] by (simp add: pt_pages_def)
  show "entry (kmem_mem t) d = entry (kmem_mem s) d" using agree_entry [OF F(4) ag(1)] by blast
  have "free_pages t xs" by (rule free_pages_agree [OF F(2) ag(2) assms(3,4)])
  with F agree_pt_ok [OF F(3) ag(1)] pp assms(5) show "vm_inv t d xs" by (auto simp: vm_inv_def)
qed

lemma parent_agree:
  assumes "pt_ok (kmem_mem s) pd" and "agree (kmem_mem s) (kmem_mem t) (pt_pages s pd)"
  shows "pt_ok (kmem_mem t) pd" and "pt_pages t pd = pt_pages s pd" and "entry (kmem_mem t) pd = entry (kmem_mem s) pd"
    and "user_frame t pd i = user_frame s pd i"
proof -
  have al: "page_aligned pd" using assms(1) by (simp add: pt_ok_def)
  have ag: "agree (kmem_mem s) (kmem_mem t) (insert pd (tables (kmem_mem s) pd))" using assms(2) by (simp add: pt_pages_def)
  show "pt_ok (kmem_mem t) pd" by (rule agree_pt_ok [OF assms(1) ag])
  show "pt_pages t pd = pt_pages s pd" using agree_tables(3) [OF al ag] by (simp add: pt_pages_def)
  show e: "entry (kmem_mem t) pd = entry (kmem_mem s) pd" using agree_entry [OF al ag] by blast
  show "user_frame t pd i = user_frame s pd i" by (simp add: user_frame_def e)
qed

section \<open>One page\<close>

lemma unat_page: "i < 2 ^ 20 \<Longrightarrow> unat (of_nat (4096 * i) :: u32) = 4096 * i"
  by (subst unsigned_of_nat) (simp add: take_bit_nat_eq_self)

lemma page_number: "i < 2 ^ 20 \<Longrightarrow> unat (of_nat (4096 * i) :: u32) div 4096 = i" "i < 2 ^ 20 \<Longrightarrow> page_aligned (of_nat (4096 * i))"
  unfolding page_aligned_def by (simp_all only: unat_page) simp_all

lemma map_one_page:
  assumes "i < 2 ^ 19"
  shows "mappages d (of_nat (4096 * i)) PGSIZE pa perm = mappages_loop d (of_nat (4096 * i)) pa perm 0"
proof -
  have i: "i < 2 ^ 20" using assms by simp
  have "last_page (of_nat (4096 * i)) PGSIZE = 0"
    unfolding last_page_def unat_page [OF i] by (simp add: PGSIZE_def)
  moreover have pos: "0 < unat PGSIZE" by (simp add: PGSIZE_def)
  moreover have le: "unat (of_nat (4096 * i) :: u32) + unat PGSIZE \<le> 2 ^ 32" unfolding unat_page [OF i] using assms by (simp add: PGSIZE_def)
  ultimately show ?thesis
    using mappages_loop_of(1) [OF pos le, of d pa perm] PGROUNDDOWN_id [OF page_number(2) [OF i]] by (simp only:)
qed

text \<open>One iteration: a page off the free list is filled with the parent's page and mapped.\<close>

lemma copyuvm_step:
  assumes "two_spaces s pd d xs" and "user_pages s pd n (set xs \<union> pt_pages s d)" and "i < n" and "n \<le> 2 ^ 19" and "4096 * i < szb"
    and "entry (kmem_mem s) d (of_nat (4096 * i)) AND PTE_P = 0" and "2 \<le> length xs"
  shows "\<exists>t ys p. copyuvm_loop pd d szb (4096 * i) s = copyuvm_loop pd d szb (4096 * i + 4096) t \<and> vm_step s t d xs ys \<and>
    length xs \<le> length ys + 2 \<and> p \<in> set xs \<and> p \<notin> set ys \<union> pt_pages t d \<and>
    (\<forall>a. in_page p a \<longrightarrow> kmem_mem t a = kmem_mem s (user_frame s pd i + (a - p))) \<and>
    entry (kmem_mem t) d = (\<lambda>x. if unat x div 4096 = i
      then v2p p OR PTE_FLAGS (entry (kmem_mem s) pd (of_nat (4096 * i))) OR PTE_P else entry (kmem_mem s) d x)"
proof -
  let ?va = "of_nat (4096 * i) :: u32"
  define v where "v = entry (kmem_mem s) pd ?va"
  define f where "f = user_frame s pd i"
  have i: "i < 2 ^ 19" "i < 2 ^ 20" using assms(3,4) by simp_all
  have par: "pt_ok (kmem_mem s) pd" "pt_pages s pd \<inter> (set xs \<union> pt_pages s d) = {}" and inv: "vm_inv s d xs"
    using assms(1) by (auto simp: two_spaces_def)
  note F = vm_inv_facts [OF inv]
  have here: "v AND PTE_P \<noteq> 0" "f \<notin> set xs \<union> pt_pages s d" "unat f < 0x8E000000" "f = p2v (PTE_ADDR v)"
    using assms(2,3) by (auto simp: user_pages_def v_def f_def user_frame_def)
  then have pr: "unat (PDX ?va) \<in> present (kmem_mem s) pd" by (auto simp: v_def entry_def Let_def split: if_splits)
  define pte where "pte = wslot (table (kmem_mem s) pd (unat (PDX ?va))) (unat (PTX ?va))"
  have w: "walkpgdir pd ?va False s = Done pte s" using walkpgdir_find [OF par(1), of ?va] pr by (simp add: pte_def)
  have nz: "pte \<noteq> 0" using pt_ok_slots(2) [OF par(1) PTX_less pr] by (simp add: pte_def)
  have ld: "ldmem pte s = Done v s" using nz pr by (simp add: ldmem_run v_def entry_def pte_def)
  obtain p zs where xs: "xs = p # zs" "zs \<noteq> []" using assms(7) by (cases xs; cases "tl xs") auto
  obtain u where u: "kalloc s = Done p u" "free_pages u zs" and su: "u = s\<lparr>freelist := freelist u\<rparr>"
    using kalloc_Cons F(1,2) xs(1) by blast
  have um: "kmem_mem u = kmem_mem s" "kend u = kend s" "held u = held s" by (subst su, simp)+
  have p: "page_aligned p" "p \<notin> pt_pages s d" "p \<noteq> 0" "p \<notin> set zs" using F(6,7,9) [of p] F(10) xs(1) by auto
  define m where "m = memmove (kmem_mem s) p f PGSIZE"
  have m: "m a = (if in_page p a then kmem_mem s (f + (a - p)) else kmem_mem s a)" for a
    unfolding m_def by (rule copy_page [OF p(1) _ here(3)]) (simp add: f_def)
  define w' where "w' = u\<lparr>kmem_mem := m\<rparr>"
  have ag: "agree (kmem_mem s) m {q. page_aligned q \<and> q \<noteq> p}"
    using other_page [OF _ p(1)] by (auto simp: agree_def m)
  have sub: "set zs \<union> pt_pages s d \<subseteq> {q. page_aligned q \<and> q \<noteq> p}" using p F(6,8) xs(1) by auto
  have "pt_pages u d = pt_pages s d" by (simp add: pt_pages_def um)
  then have iu: "vm_inv u d zs" using u(2) F xs(1) um by (auto simp: vm_inv_def)
  have "agree (kmem_mem u) (kmem_mem w') (set zs \<union> pt_pages u d)"
    using ag sub \<open>pt_pages u d = pt_pages s d\<close> by (auto simp: agree_def w'_def um)
  note W = vm_inv_agree [OF iu this]
  have W: "vm_inv w' d zs" "pt_pages w' d = pt_pages s d" "entry (kmem_mem w') d = entry (kmem_mem s) d"
    using W \<open>pt_pages u d = pt_pages s d\<close> by (simp_all add: w'_def um)
  have st1: "vm_step s w' d xs zs"
  proof -
    have "w' = s\<lparr>kmem_mem := kmem_mem w', freelist := freelist w'\<rparr>" unfolding w'_def by (subst su) simp
    moreover have "agree (kmem_mem s) (kmem_mem w') {q. page_aligned q \<and> q \<notin> set xs \<union> pt_pages s d}"
      using ag xs(1) by (auto simp: agree_def w'_def)
    ultimately show ?thesis using W(1,2) xs(1) by (auto simp: vm_step_def)
  qed
  have "entry (kmem_mem w') d ?va AND PTE_P = 0" using assms(6) W(3) by simp
  from mappages_loop_step [OF W(1) this, of "v2p p" "PTE_FLAGS v" 0] xs(2) obtain t ys where
    t: "mappages_loop d ?va (v2p p) (PTE_FLAGS v) 0 w' = Done 0 t" "vm_step w' t d zs ys" "length zs \<le> Suc (length ys)"
      "entry (kmem_mem t) d = (\<lambda>x. if unat x div 4096 = unat ?va div 4096 then v2p p OR PTE_FLAGS v OR PTE_P else entry (kmem_mem w') d x)"
    by auto
  have run: "copyuvm_loop pd d szb (4096 * i) s = copyuvm_loop pd d szb (4096 * i + 4096) t"
    using assms(5) w nz ld here(1) u(1) p(3) t(1)
    by (simp add: copyuvm_loop.simps [of pd d szb "4096 * i"] bd_run map_one_page [OF i(1)] w'_def m_def here(4) um
        del: of_nat_mult of_nat_numeral)
  have keep: "set ys \<union> pt_pages t d \<subseteq> set zs \<union> pt_pages s d" using t(2) W(2) by (simp add: vm_step_def)
  then have "p \<notin> set ys \<union> pt_pages t d" using p(2,4) by blast
  moreover have "kmem_mem t a = kmem_mem s (f + (a - p))" if "in_page p a" for a
  proof -
    have "p \<in> {q. page_aligned q \<and> q \<notin> set zs \<union> pt_pages w' d}" using p W(2) by simp
    then have "kmem_mem t a = kmem_mem w' a" using t(2) that unfolding vm_step_def agree_def by blast
    then show ?thesis using that by (simp add: w'_def m)
  qed
  moreover have "vm_step s t d xs ys" by (rule vm_step_trans [OF st1 t(2)])
  moreover have "entry (kmem_mem t) d = (\<lambda>x. if unat x div 4096 = i then v2p p OR PTE_FLAGS v OR PTE_P else entry (kmem_mem s) d x)"
    using t(4) W(3) page_number(1) [OF i(2)] by (simp only:)
  ultimately show ?thesis
    using run t(3) xs(1) unfolding f_def v_def by (intro exI [of _ t] exI [of _ ys] exI [of _ p]) simp
qed

section \<open>The whole copy\<close>

lemma two_spaces_step:
  assumes "two_spaces s pd d xs" and "vm_step s t d xs ys" and "user_pages s pd n (set xs \<union> pt_pages s d)"
  shows "two_spaces t pd d ys" and "entry (kmem_mem t) pd = entry (kmem_mem s) pd" and "user_frame t pd i = user_frame s pd i"
    and "user_pages t pd n (set ys \<union> pt_pages t d)" and "pt_pages t pd = pt_pages s pd"
    and "i < n \<Longrightarrow> in_page (user_frame s pd i) a \<Longrightarrow> kmem_mem t a = kmem_mem s a"
proof -
  have par: "pt_ok (kmem_mem s) pd" "pt_pages s pd \<inter> (set xs \<union> pt_pages s d) = {}" using assms(1) by (auto simp: two_spaces_def)
  have al: "page_aligned q" if "q \<in> pt_pages s pd" for q
    using that par(1) tables_aligned by (auto simp: pt_pages_def pt_ok_def)
  have sub: "set ys \<union> pt_pages t d \<subseteq> set xs \<union> pt_pages s d"
    and ag: "agree (kmem_mem s) (kmem_mem t) {q. page_aligned q \<and> q \<notin> set xs \<union> pt_pages s d}"
    using assms(2) by (simp_all add: vm_step_def)
  have "agree (kmem_mem s) (kmem_mem t) (pt_pages s pd)" using ag al par(2) unfolding agree_def by blast
  note P = parent_agree [OF par(1) this]
  show "entry (kmem_mem t) pd = entry (kmem_mem s) pd" "user_frame t pd i = user_frame s pd i" "pt_pages t pd = pt_pages s pd"
    by (rule P)+
  show "two_spaces t pd d ys" using P(1,2) sub par(2) vm_step_fields(3) [OF assms(2)] by (auto simp: two_spaces_def)
  show "user_pages t pd n (set ys \<union> pt_pages t d)" using assms(3) sub unfolding user_pages_def P by blast
  show "kmem_mem t a = kmem_mem s a" if "i < n" "in_page (user_frame s pd i) a"
  proof -
    have "user_frame s pd i \<notin> set xs \<union> pt_pages s d" using assms(3) that(1) unfolding user_pages_def by blast
    with ag that(2) user_frame_aligned show ?thesis unfolding agree_def by blast
  qed
qed

definition pages_of :: "nat \<Rightarrow> nat" where
  "pages_of szb = (szb + 4095) div 4096"

lemma pages_of_less: "i < pages_of szb \<longleftrightarrow> 4096 * i < szb"
proof -
  have "i < pages_of szb \<longleftrightarrow> Suc i * 4096 \<le> szb + 4095"
    unfolding pages_of_def Suc_le_eq [symmetric] by (rule less_eq_div_iff_mult_less_eq) simp
  then show ?thesis by auto
qed

text \<open>\<open>fs\<close> are the child's pages from page \<open>i\<close> on.\<close>

definition copied_from :: "nat \<Rightarrow> nat \<Rightarrow> u32 list \<Rightarrow> 'z kmst_scheme \<Rightarrow> 'z kmst_scheme \<Rightarrow> u32 \<Rightarrow> u32 \<Rightarrow> bool" where
  "copied_from i n fs s t pd d \<longleftrightarrow>
     (\<forall>j < n - i. \<forall>a. in_page (fs ! j) a \<longrightarrow> kmem_mem t a = kmem_mem s (user_frame s pd (i + j) + (a - fs ! j))) \<and>
     (\<forall>x. entry (kmem_mem t) d x =
        (if i \<le> unat x div 4096 \<and> unat x div 4096 < n
         then v2p (fs ! (unat x div 4096 - i)) OR PTE_FLAGS (entry (kmem_mem s) pd (of_nat (4096 * (unat x div 4096)))) OR PTE_P
         else entry (kmem_mem s) d x))"

lemma copied_from_Suc:
  assumes "copied_from (Suc i) n fs t u pd d" and "i < n"
    and "\<forall>a. in_page p a \<longrightarrow> kmem_mem u a = kmem_mem s (user_frame s pd i + (a - p))"
    and "entry (kmem_mem t) d = (\<lambda>x. if unat x div 4096 = i
      then v2p p OR PTE_FLAGS (entry (kmem_mem s) pd (of_nat (4096 * i))) OR PTE_P else entry (kmem_mem s) d x)"
    and "entry (kmem_mem t) pd = entry (kmem_mem s) pd"
    and "\<And>j a. j < n \<Longrightarrow> in_page (user_frame s pd j) a \<Longrightarrow> kmem_mem t a = kmem_mem s a"
    and "\<And>q. q \<in> set fs \<Longrightarrow> page_aligned q" and "length fs = n - Suc i"
  shows "copied_from i n (p # fs) s u pd d"
proof -
  have uf: "user_frame t pd j = user_frame s pd j" for j by (simp add: user_frame_def assms(5))
  have "kmem_mem u a = kmem_mem s (user_frame s pd (i + j) + (a - (p # fs) ! j))" if "j < n - i" "in_page ((p # fs) ! j) a" for j a
  proof (cases j)
    case 0
    then show ?thesis using assms(3) that(2) by simp
  next
    case (Suc k)
    have k: "k < n - Suc i" "k < length fs" using that(1) Suc assms(8) by simp_all
    have a: "in_page (fs ! k) a" using that(2) Suc by simp
    have "kmem_mem u a = kmem_mem t (user_frame s pd (Suc i + k) + (a - fs ! k))"
      using assms(1) k(1) a by (simp add: copied_from_def uf)
    moreover have "in_page (user_frame s pd (Suc i + k)) (user_frame s pd (Suc i + k) + (a - fs ! k))"
      using a by (simp add: in_page_def)
    then have "kmem_mem t (user_frame s pd (Suc i + k) + (a - fs ! k)) = kmem_mem s (user_frame s pd (Suc i + k) + (a - fs ! k))"
      by (rule assms(6) [rotated]) (use k(1) in simp)
    ultimately show ?thesis using Suc by simp
  qed
  moreover have "entry (kmem_mem u) d x =
      (if i \<le> unat x div 4096 \<and> unat x div 4096 < n
       then v2p ((p # fs) ! (unat x div 4096 - i)) OR PTE_FLAGS (entry (kmem_mem s) pd (of_nat (4096 * (unat x div 4096)))) OR PTE_P
       else entry (kmem_mem s) d x)" for x
  proof -
    have e: "entry (kmem_mem u) d x =
      (if Suc i \<le> unat x div 4096 \<and> unat x div 4096 < n
       then v2p (fs ! (unat x div 4096 - Suc i)) OR PTE_FLAGS (entry (kmem_mem s) pd (of_nat (4096 * (unat x div 4096)))) OR PTE_P
       else entry (kmem_mem t) d x)"
      using assms(1) unfolding copied_from_def assms(5) by blast
    consider "unat x div 4096 < i" | "unat x div 4096 = i" | "Suc i \<le> unat x div 4096" by linarith
    then show ?thesis
    proof cases
      case 3
      then have "unat x div 4096 - i = Suc (unat x div 4096 - Suc i)" by simp
      with 3 show ?thesis using e by (simp add: assms(4))
    qed (use e assms(2,4) in simp_all)
  qed
  ultimately show ?thesis unfolding copied_from_def by blast
qed

lemma copyuvm_loop_spec:
  assumes "two_spaces s pd d xs" and "user_pages s pd n (set xs \<union> pt_pages s d)" and "n = pages_of szb" and "n \<le> 2 ^ 19" and "i \<le> n"
    and "\<forall>j. i \<le> j \<and> j < n \<longrightarrow> entry (kmem_mem s) d (of_nat (4096 * j)) AND PTE_P = 0" and "2 * (n - i) \<le> length xs"
  shows "\<exists>t ys fs. copyuvm_loop pd d szb (4096 * i) s = Done d t \<and> vm_step s t d xs ys \<and> length fs = n - i \<and> distinct fs \<and>
    set fs \<subseteq> set xs \<and> set fs \<inter> (set ys \<union> pt_pages t d) = {} \<and> copied_from i n fs s t pd d"
  using assms
proof (induction "n - i" arbitrary: i s xs)
  case 0
  then have "\<not> 4096 * i < szb" using pages_of_less [of i szb] by simp
  then have "copyuvm_loop pd d szb (4096 * i) s = Done d s" by (simp add: copyuvm_loop.simps [of pd d szb "4096 * i"])
  moreover have "vm_step s s d xs xs" using "0.prems"(1) by (intro vm_step_refl) (simp add: two_spaces_def)
  moreover have "copied_from i n [] s s pd d" using "0.hyps" "0.prems"(5) by (auto simp: copied_from_def)
  ultimately show ?case using "0.hyps" by (metis empty_subsetI inf_bot_left distinct.simps(1) list.set(1) list.size(3))
next
  case (Suc k)
  have "i < n" using Suc.hyps(2) by simp
  then have i: "i < n" "4096 * i < szb" "2 \<le> length xs" using Suc.prems(3,7) pages_of_less [of i szb] by simp_all
  have fr: "entry (kmem_mem s) d (of_nat (4096 * i)) AND PTE_P = 0" using Suc.prems(6) i(1) by blast
  obtain t ys p where t: "copyuvm_loop pd d szb (4096 * i) s = copyuvm_loop pd d szb (4096 * i + 4096) t" "vm_step s t d xs ys"
    "length xs \<le> length ys + 2" "p \<in> set xs" "p \<notin> set ys \<union> pt_pages t d"
    and pa: "\<forall>a. in_page p a \<longrightarrow> kmem_mem t a = kmem_mem s (user_frame s pd i + (a - p))"
    and e: "entry (kmem_mem t) d = (\<lambda>x. if unat x div 4096 = i
      then v2p p OR PTE_FLAGS (entry (kmem_mem s) pd (of_nat (4096 * i))) OR PTE_P else entry (kmem_mem s) d x)"
    using copyuvm_step [OF Suc.prems(1,2) i(1) Suc.prems(4) i(2) fr i(3)] by blast
  note S = two_spaces_step [OF Suc.prems(1) t(2) Suc.prems(2)]
  have later: "\<forall>j. Suc i \<le> j \<and> j < n \<longrightarrow> entry (kmem_mem t) d (of_nat (4096 * j)) AND PTE_P = 0"
  proof (intro allI impI)
    fix j assume j: "Suc i \<le> j \<and> j < n"
    then have "unat (of_nat (4096 * j) :: u32) div 4096 \<noteq> i" using page_number(1) [of j] Suc.prems(4) by simp
    then show "entry (kmem_mem t) d (of_nat (4096 * j)) AND PTE_P = 0" using Suc.prems(6) j unfolding e by simp
  qed
  have "\<exists>u zs fs. copyuvm_loop pd d szb (4096 * Suc i) t = Done d u \<and> vm_step t u d ys zs \<and> length fs = n - Suc i \<and> distinct fs \<and>
      set fs \<subseteq> set ys \<and> set fs \<inter> (set zs \<union> pt_pages u d) = {} \<and> copied_from (Suc i) n fs t u pd d"
    by (rule Suc.hyps(1) [OF _ S(1,4) Suc.prems(3,4) _ later]) (use Suc.hyps(2) Suc.prems(7) t(3) i(1) in simp_all)
  then obtain u zs fs where u: "copyuvm_loop pd d szb (4096 * Suc i) t = Done d u" "vm_step t u d ys zs" "length fs = n - Suc i"
    "distinct fs" "set fs \<subseteq> set ys" "set fs \<inter> (set zs \<union> pt_pages u d) = {}" "copied_from (Suc i) n fs t u pd d"
    by blast
  have sub: "set zs \<union> pt_pages u d \<subseteq> set ys \<union> pt_pages t d" "set ys \<subseteq> set xs" using u(2) t(2) by (simp_all add: vm_step_def)
  have al: "page_aligned q" if "q \<in> set xs" for q using Suc.prems(1) that vm_inv_facts(6) unfolding two_spaces_def by blast
  have "kmem_mem u a = kmem_mem t a" if "in_page p a" for a
    using u(2) t(5) al [OF t(4)] that unfolding vm_step_def agree_def by blast
  with pa have pu: "\<forall>a. in_page p a \<longrightarrow> kmem_mem u a = kmem_mem s (user_frame s pd i + (a - p))" by simp
  have "copied_from i n (p # fs) s u pd d"
    by (rule copied_from_Suc [OF u(7) i(1) pu e S(2) S(6) _ u(3)]) (use u(5) sub(2) al in blast)+
  moreover have "copyuvm_loop pd d szb (4096 * i) s = Done d u" using t(1) u(1) by (simp add: add.commute)
  moreover have "vm_step s u d xs zs" by (rule vm_step_trans [OF t(2) u(2)])
  moreover have "distinct (p # fs)" "set (p # fs) \<subseteq> set xs" "set (p # fs) \<inter> (set zs \<union> pt_pages u d) = {}" "length (p # fs) = n - i"
    using u(3-6) t(4,5) sub i(1) by auto
  ultimately show ?case by blast
qed

lemma entry_page: "unat x div 4096 = unat y div 4096 \<Longrightarrow> entry m pd x = entry m pd y"
  unfolding entry_def using same_indices by metis

lemma unat_low12: "unat (x AND 0xFFF :: u32) < 4096"
  using unat_take_bit [of 12 x] by (simp add: mask12 take_bit_eq_mask [symmetric])

text \<open>Both translations of one address, once the pages are copied.\<close>

lemma copied_byte:
  assumes "copied_from 0 n fs s t pd d" and "user_pages s pd n P" and "n \<le> 2 ^ 19" and "unat va < 4096 * n"
    and "page_aligned (fs ! (unat va div 4096))"
  shows "\<exists>k. unat k < 4096 \<and> translate (kmem_mem s) pd va = Some (user_frame s pd (unat va div 4096) + k) \<and>
    translate (kmem_mem t) d va = Some (fs ! (unat va div 4096) + k) \<and>
    kmem_mem t (fs ! (unat va div 4096) + k) = kmem_mem s (user_frame s pd (unat va div 4096) + k)"
proof -
  define i where "i = unat va div 4096"
  define k where "k = va AND 0xFFF"
  define g where "g = PTE_FLAGS (entry (kmem_mem s) pd (of_nat (4096 * i)))"
  have i: "i < n" using assms(4) by (simp add: i_def div_less_iff_less_mult mult.commute)
  have k: "unat k < 4096" by (simp add: k_def unat_low12)
  have page: "entry m pd' va = entry m pd' (of_nat (4096 * i))" for m pd'
    by (rule entry_page) (use page_number(1) [of i] i assms(3) in \<open>simp add: i_def\<close>)
  have "translate (kmem_mem s) pd va = Some (user_frame s pd i + k)"
    using assms(2) i unfolding translate_entry page user_frame_def user_pages_def k_def by auto
  moreover have "entry (kmem_mem t) d va = v2p (fs ! i) OR (g OR PTE_P)"
    using assms(1) i unfolding copied_from_def i_def [symmetric] g_def by (simp add: i_def or.assoc)
  then have "translate (kmem_mem t) d va = Some (fs ! i + k)"
    using PTE_fields(1) [OF v2p_aligned [OF assms(5)] flags_or_P [of g]] or_flag_present [of "v2p (fs ! i)" g]
      unat_low12 [of "entry (kmem_mem s) pd (of_nat (4096 * i))"]
    unfolding translate_entry i_def [symmetric] by (simp add: k_def g_def PTE_FLAGS_def or.assoc)
  moreover have "in_page (fs ! i) (fs ! i + k)" using k by (simp add: in_page_def)
  then have "kmem_mem t (fs ! i + k) = kmem_mem s (user_frame s pd i + k)"
    using assms(1) i unfolding copied_from_def by simp
  ultimately show ?thesis using k unfolding i_def by blast
qed

text \<open>
  C14: \<^verbatim>\<open>copyuvm\<close> gives \<^verbatim>\<open>fork\<close> a faithful copy. Let the parent's first pages, up to the size, be mapped,
  outside the free pages and the child's page tables, let the child's user half be empty there, and let there
  be two free pages for each page to copy. Then the loop ends with the child's directory; at every address below the
  size the child has, in a page of its own that was free before and is now neither free nor a page table, the byte the parent has; and
  the parent's mappings and its memory are unchanged.
\<close>

theorem copyuvm_copies:
  assumes "two_spaces s pd d xs" and "n = pages_of szb" and "n \<le> 2 ^ 19"
    and "user_pages s pd n (set xs \<union> pt_pages s d)"
    and "\<forall>va. unat va < 4096 * n \<longrightarrow> translate (kmem_mem s) d va = None" and "2 * n \<le> length xs"
  shows "\<exists>t ys fs. copyuvm_loop pd d szb 0 s = Done d t \<and> two_spaces t pd d ys \<and> length fs = n \<and> distinct fs \<and>
    set fs \<subseteq> set xs \<and> set fs \<inter> (set ys \<union> pt_pages t d) = {} \<and>
    (\<forall>va. unat va < 4096 * n \<longrightarrow>
       (\<exists>a b. translate (kmem_mem s) pd va = Some a \<and> translate (kmem_mem t) pd va = Some a \<and>
          translate (kmem_mem t) d va = Some b \<and> in_page (fs ! (unat va div 4096)) b \<and>
          kmem_mem t b = kmem_mem s a \<and> kmem_mem t a = kmem_mem s a))"
proof -
  have none: "\<forall>j. 0 \<le> j \<and> j < n \<longrightarrow> entry (kmem_mem s) d (of_nat (4096 * j)) AND PTE_P = 0"
  proof (intro allI impI)
    fix j assume j: "0 \<le> j \<and> j < n"
    then have "unat (of_nat (4096 * j) :: u32) < 4096 * n" using unat_page [of j] assms(3) by simp
    with assms(5) have "translate (kmem_mem s) d (of_nat (4096 * j)) = None" by blast
    then show "entry (kmem_mem s) d (of_nat (4096 * j)) AND PTE_P = 0" unfolding translate_entry by (metis option.distinct(1))
  qed
  obtain t ys fs where t: "copyuvm_loop pd d szb (4096 * 0) s = Done d t" "vm_step s t d xs ys" "length fs = n" "distinct fs"
    "set fs \<subseteq> set xs" "set fs \<inter> (set ys \<union> pt_pages t d) = {}" "copied_from 0 n fs s t pd d"
    using copyuvm_loop_spec [OF assms(1,4,2,3) le0 none] assms(6) by auto
  note S = two_spaces_step [OF assms(1) t(2) assms(4)]
  have "\<exists>a b. translate (kmem_mem s) pd va = Some a \<and> translate (kmem_mem t) pd va = Some a \<and>
      translate (kmem_mem t) d va = Some b \<and> in_page (fs ! (unat va div 4096)) b \<and>
      kmem_mem t b = kmem_mem s a \<and> kmem_mem t a = kmem_mem s a" if va: "unat va < 4096 * n" for va
  proof -
    have i: "unat va div 4096 < n" using va by (simp add: div_less_iff_less_mult mult.commute)
    have "fs ! (unat va div 4096) \<in> set xs" using t(3,5) i by auto
    then have "page_aligned (fs ! (unat va div 4096))" using assms(1) vm_inv_facts(6) unfolding two_spaces_def by blast
    from copied_byte [OF t(7) assms(4,3) va this] obtain k where k: "unat k < 4096"
      "translate (kmem_mem s) pd va = Some (user_frame s pd (unat va div 4096) + k)"
      "translate (kmem_mem t) d va = Some (fs ! (unat va div 4096) + k)"
      "kmem_mem t (fs ! (unat va div 4096) + k) = kmem_mem s (user_frame s pd (unat va div 4096) + k)" by blast
    moreover have "in_page (user_frame s pd (unat va div 4096)) (user_frame s pd (unat va div 4096) + k)"
      "in_page (fs ! (unat va div 4096)) (fs ! (unat va div 4096) + k)" using k(1) by (simp_all add: in_page_def)
    moreover have "translate (kmem_mem t) pd va = translate (kmem_mem s) pd va" unfolding translate_entry S(2) ..
    ultimately show ?thesis using S(6) [OF i] by auto
  qed
  then show ?thesis using t(1,3-6) S(1) by auto
qed

text \<open>
  A parent with directory \<open>0x8DFFF000\<close>, page table \<open>0x8DFFE000\<close> and one page \<open>0x8DFFD000\<close>, a child with the empty
  directory \<open>0x8DFFC000\<close>, and two free pages.
\<close>

definition fork_mem :: mem where
  "fork_mem = store32 (store32 (store32 (\<lambda>_. 0) (wslot 0x8DFFF000 0) 0xDFFE007) (wslot 0x8DFFE000 0) 0xDFFD007)
     (wslot 0x8DFFB000 0) 0x8DFFA000"

definition fork_state :: kmst where
  "fork_state = boot_kmem\<lparr>kmem_mem := fork_mem, freelist := 0x8DFFB000\<rparr>"

lemma fork_mem_load:
  assumes "page_aligned q" and "j < 1024"
  shows "load32 fork_mem (wslot q j) = (if j \<noteq> 0 then 0 else if q = 0x8DFFB000 then 0x8DFFA000
    else if q = 0x8DFFE000 then 0xDFFD007 else if q = 0x8DFFF000 then 0xDFFE007 else 0)"
proof -
  have "page_aligned 0x8DFFB000" "page_aligned 0x8DFFE000" "page_aligned 0x8DFFF000" by (simp_all add: page_aligned_def)
  moreover have "load32 (\<lambda>_. 0) (wslot q j) = 0" by (simp add: load32_def of_le32_def)
  ultimately show ?thesis using assms by (auto simp: fork_mem_def load32_store32_slot)
qed

lemma fork_dirs:
  "present fork_mem 0x8DFFF000 = {0}" "table fork_mem 0x8DFFF000 0 = 0x8DFFE000" "present fork_mem 0x8DFFC000 = {}"
proof -
  have al: "page_aligned 0x8DFFF000" "page_aligned 0x8DFFC000" by (simp_all add: page_aligned_def)
  have p: "pde fork_mem 0x8DFFF000 i = (if i \<noteq> 0 then 0 else 0xDFFE007)" "pde fork_mem 0x8DFFC000 i = 0" if "i < 1024" for i
    using fork_mem_load [OF al(1) that] fork_mem_load [OF al(2) that] by (simp_all add: pde_def)
  show "present fork_mem 0x8DFFF000 = {0}" "present fork_mem 0x8DFFC000 = {}"
    using p by (auto simp: present_def PTE_P_def split: if_splits)
  show "table fork_mem 0x8DFFF000 0 = 0x8DFFE000" using p(1) [of 0] by (simp add: table_def PTE_ADDR_def p2v_def KERNBASE_def)
qed

lemma fork_state_spaces:
  "two_spaces fork_state 0x8DFFF000 0x8DFFC000 [0x8DFFB000, 0x8DFFA000]"
  "user_pages fork_state 0x8DFFF000 1 (set [0x8DFFB000, 0x8DFFA000] \<union> pt_pages fork_state 0x8DFFC000)"
  "translate (kmem_mem fork_state) 0x8DFFC000 va = None"
proof -
  have m: "kmem_mem fork_state = fork_mem" "freelist fork_state = 0x8DFFB000" "kend fork_state = 0x8010A000" "held fork_state = {}"
    by (simp_all add: fork_state_def boot_kmem_def)
  have al: "page_aligned 0x8DFFB000" "page_aligned 0x8DFFA000" "page_aligned 0x8DFFE000" by (simp_all add: page_aligned_def)
  have "load32 fork_mem 0x8DFFB000 = 0x8DFFA000" "load32 fork_mem 0x8DFFA000 = 0"
    using fork_mem_load [OF al(1), of 0] fork_mem_load [OF al(2), of 0] by (simp_all add: wslot_def)
  then have fp: "free_pages fork_state [0x8DFFB000, 0x8DFFA000]"
    using al by (simp add: free_pages_def m good_page_def v2p_def KERNBASE_def PHYSTOP_def)
  have ts: "tables fork_mem 0x8DFFF000 = {0x8DFFE000}" "tables fork_mem 0x8DFFC000 = {}" by (simp_all add: tables_def fork_dirs)
  have "pt_ok fork_mem 0x8DFFF000" "pt_ok fork_mem 0x8DFFC000" by (simp_all add: pt_ok_def ts fork_dirs page_aligned_def)
  with fp show "two_spaces fork_state 0x8DFFF000 0x8DFFC000 [0x8DFFB000, 0x8DFFA000]"
    by (simp add: two_spaces_def vm_inv_def pt_pages_def m ts)
  have e: "entry fork_mem 0x8DFFF000 0 = 0xDFFD007"
    using fork_mem_load [OF al(3), of 0] by (simp add: entry_def fork_dirs PDX_def PTX_def)
  then show "user_pages fork_state 0x8DFFF000 1 (set [0x8DFFB000, 0x8DFFA000] \<union> pt_pages fork_state 0x8DFFC000)"
    by (simp add: user_pages_def user_frame_def pt_pages_def m ts PTE_P_def PTE_ADDR_def p2v_def KERNBASE_def)
  show "translate (kmem_mem fork_state) 0x8DFFC000 va = None" by (simp add: translate_entry entry_def m fork_dirs)
qed

theorem copyuvm_copies_witness:
  "\<exists>t b. copyuvm_loop 0x8DFFF000 0x8DFFC000 100 0 fork_state = Done 0x8DFFC000 t \<and>
     translate (kmem_mem t) 0x8DFFC000 99 = Some b \<and> (\<exists>a. translate (kmem_mem fork_state) 0x8DFFF000 99 = Some a \<and> kmem_mem t b = kmem_mem fork_state a)"
proof -
  have n: "1 = pages_of 100" "(1 :: nat) \<le> 2 ^ 19" by (simp_all add: pages_of_def)
  have none: "\<forall>va. unat va < 4096 * 1 \<longrightarrow> translate (kmem_mem fork_state) 0x8DFFC000 va = None" using fork_state_spaces(3) by blast
  have va: "unat (99 :: u32) < 4096 * 1" by simp
  from copyuvm_copies [OF fork_state_spaces(1) n fork_state_spaces(2) none] va show ?thesis by (simp only: list.size) fastforce
qed

end
