(* ===== verification/Sysargs.thy ===== *)
theory Sysargs
  imports Syscall Uvm
begin

text \<open>
  What the argument checks of \<^verbatim>\<open>syscall.c\<close> guarantee: a system call reads its arguments only from the memory of
  the process that makes it, and rejects addresses outside of it. The exception is a negative length, which
  \<^verbatim>\<open>argptr\<close> lets through.
\<close>

section \<open>User memory of the running process\<close>

definition umem :: "'z kmst_scheme \<Rightarrow> u32 \<Rightarrow> u8 option" where
  "umem s va = map_option (kmem_mem s) (translate (kmem_mem s) (cur_pgdir s) va)"

text \<open>A process runs with its page table loaded, all its memory is mapped, and its size is that of a user address space.\<close>

definition user_running :: "'z kmst_scheme \<Rightarrow> nat \<Rightarrow> bool" where
  "user_running s i \<longleftrightarrow> curproc s = Some i \<and> i < length (ptable s) \<and> sz (ptable s ! i) \<le> KERNBASE \<and>
     (\<forall>va < sz (ptable s ! i). umem s va \<noteq> None)"

definition ubyte :: "'z kmst_scheme \<Rightarrow> u32 \<Rightarrow> u8" where
  "ubyte s va = the (umem s va)"

definition uword :: "'z kmst_scheme \<Rightarrow> u32 \<Rightarrow> u32" where
  "uword s va = of_le32 (map (\<lambda>i. ubyte s (va + of_nat i)) [0..<4])"

lemma uload_run: "umem s va \<noteq> None \<Longrightarrow> uload va s = Done (ubyte s va) s"
  by (auto simp: uload_def umem_def ubyte_def)

lemma offset_step: "(a :: u32) + of_nat (Suc j) = a + 1 + of_nat j"
  by (simp add: add.assoc)

lemma map_upt_step: "map (\<lambda>j. f (a + of_nat j)) [0..<Suc k] = f (a :: u32) # map (\<lambda>j. f (a + 1 + of_nat j)) [0..<k]"
  by (simp only: upt_conv_Cons [OF zero_less_Suc] map_Suc_upt [symmetric] list.map map_map o_def offset_step) simp

lemma uloads_run:
  assumes "\<And>i. i < n \<Longrightarrow> umem s (va + of_nat i) \<noteq> None"
  shows "uloads va n s = Done (map (\<lambda>i. ubyte s (va + of_nat i)) [0..<n]) s"
  using assms
proof (induction n arbitrary: va)
  case (Suc n)
  have "umem s (va + 1 + of_nat j) \<noteq> None" if "j < n" for j
    using Suc.prems [of "Suc j"] that unfolding offset_step by simp
  note IH = Suc.IH [OF this]
  have "uload va s = Done (ubyte s va) s" using Suc.prems [of 0] by (intro uload_run) simp
  with IH show ?case unfolding map_upt_step by (simp add: bd_run)
qed simp

lemma user_runningD:
  assumes "user_running s i"
  shows "curget f s = Done (f (ptable s ! i)) s" and "unat (sz (ptable s ! i)) \<le> 2 ^ 31"
    and "unat va < unat (sz (ptable s ! i)) \<Longrightarrow> umem s va \<noteq> None"
  using assms by (auto simp: user_running_def curget_def curidx_def bd_run KERNBASE_def word_le_nat_alt word_less_nat_alt)

lemma small_add: "unat (a :: u32) < 2 ^ 31 \<Longrightarrow> k < 2 ^ 31 \<Longrightarrow> unat (a + of_nat k) = unat a + k"
  by (rule unat_add_small) simp

section \<open>The checks\<close>

lemma fetchint_run:
  assumes "user_running s i"
  shows "fetchint addr s = Done (if unat addr + 4 \<le> unat (sz (ptable s ! i)) then Some (uword s addr) else None) s"
proof (cases "addr \<ge> sz (ptable s ! i)")
  case True
  then show ?thesis by (simp add: fetchint_def bd_run user_runningD [OF assms] word_le_nat_alt)
next
  case False
  then have lt: "unat addr < unat (sz (ptable s ! i))" by (simp add: word_le_nat_alt)
  then have add: "unat (addr + of_nat k) = unat addr + k" if "k < 5" for k
    using that user_runningD(2) [OF assms] by (intro small_add) simp_all
  from add [of 4] have over: "addr + 4 > sz (ptable s ! i) \<longleftrightarrow> \<not> unat addr + 4 \<le> unat (sz (ptable s ! i))"
    by (simp add: word_less_nat_alt not_le)
  show ?thesis
  proof (cases "unat addr + 4 \<le> unat (sz (ptable s ! i))")
    case True
    have "umem s (addr + of_nat k) \<noteq> None" if "k < 4" for k
      using True add [of k] that user_runningD(3) [OF assms] by simp
    from uloads_run [OF this] True over False show ?thesis
      by (simp add: fetchint_def bd_run user_runningD [OF assms] uword_def)
  next
    case no: False
    with over False show ?thesis by (simp add: fetchint_def bd_run user_runningD [OF assms])
  qed
qed

lemma fetchstr_loop_run:
  assumes "\<And>j. j < k \<Longrightarrow> umem s (a + of_nat j) \<noteq> None"
  shows "fetchstr_loop a k acc s =
    (if \<exists>j < k. ubyte s (a + of_nat j) = 0
     then Done (Some (acc @ takeWhile (\<lambda>c. c \<noteq> 0) (map (\<lambda>j. ubyte s (a + of_nat j)) [0..<k]))) s else Done None s)"
  using assms
proof (induction k arbitrary: a acc)
  case (Suc k)
  have "umem s (a + 1 + of_nat j) \<noteq> None" if "j < k" for j
    using Suc.prems [of "Suc j"] that unfolding offset_step by simp
  note IH = Suc.IH [OF this]
  have here: "uload a s = Done (ubyte s a) s" using Suc.prems [of 0] by (intro uload_run) simp
  have ex: "(\<exists>j < Suc k. ubyte s (a + of_nat j) = 0) \<longleftrightarrow> ubyte s a = 0 \<or> (\<exists>j < k. ubyte s (a + 1 + of_nat j) = 0)"
    unfolding Ex_less_Suc2 offset_step by simp
  show ?case unfolding map_upt_step ex using IH [of "acc @ [ubyte s a]"] here by (simp add: bd_run)
qed simp

lemma in_map_upt: "x \<in> set (map f [0..<n]) \<longleftrightarrow> (\<exists>j < n. f j = x)"
  by auto

lemma fetchstr_run:
  assumes "user_running s i"
  shows "fetchstr addr s =
    (let room = unat (sz (ptable s ! i)) - unat addr;
         cs = map (\<lambda>j. ubyte s (addr + of_nat j)) [0..<room]
     in Done (if 0 \<in> set cs then Some (takeWhile (\<lambda>c. c \<noteq> 0) cs) else None) s)"
proof (cases "addr \<ge> sz (ptable s ! i)")
  case True
  then show ?thesis by (simp add: fetchstr_def bd_run user_runningD [OF assms] word_le_nat_alt)
next
  case False
  then have lt: "unat addr < unat (sz (ptable s ! i))" by (simp add: word_le_nat_alt)
  have "umem s (addr + of_nat j) \<noteq> None" if "j < unat (sz (ptable s ! i)) - unat addr" for j
    using that lt user_runningD(2,3) [OF assms] small_add [of addr j] by simp
  note loop = fetchstr_loop_run [where acc = "[]", OF this]
  have "0 \<in> set (map (\<lambda>j. ubyte s (addr + of_nat j)) [0..<n]) \<longleftrightarrow> (\<exists>j < n. ubyte s (addr + of_nat j) = 0)" for n
    by (rule in_map_upt)
  then show ?thesis
    using loop False by (simp add: fetchstr_def bd_run user_runningD [OF assms] Let_def)
qed

lemma argint_run:
  assumes "user_running s i"
  shows "argint n s = Done (let a = tf_esp (tf (ptable s ! i)) + 4 + 4 * of_nat n
    in if unat a + 4 \<le> unat (sz (ptable s ! i)) then Some (uword s a) else None) s"
  by (simp add: argint_def bd_run user_runningD(1) [OF assms] fetchint_run [OF assms] Let_def)

section \<open>Properties\<close>

text \<open>
  C20: \<^verbatim>\<open>argptr\<close> checks a block of user memory. Let the \<open>n\<close>th argument word lie in the memory of the process. For a
  block whose length is not negative as a C int, the address is accepted exactly if it lies below the size of the process and the whole
  block ends at or below it; nothing in the state changes. For a negative length the check wraps around: every address that is at
  least the absolute value of the length is accepted, so that \<^verbatim>\<open>read\<close> with length -1 gets past it.
\<close>

theorem argptr_checks:
  assumes "user_running s i" and a: "a = tf_esp (tf (ptable s ! i)) + 4 + 4 * of_nat n"
    and "unat a + 4 \<le> unat (sz (ptable s ! i))"
  shows "(0 \<le> sint len \<longrightarrow> argptr n len s = Done
      (if uword s a < sz (ptable s ! i) \<and> unat (uword s a) + unat len \<le> unat (sz (ptable s ! i)) then Some (uword s a) else None) s) \<and>
    (sint len < 0 \<longrightarrow> uword s a < sz (ptable s ! i) \<longrightarrow> - sint len \<le> uint (uword s a) \<longrightarrow>
      argptr n len s = Done (Some (uword s a)) s)"
proof -
  define w where "w = uword s a"
  define lim where "lim = sz (ptable s ! i)"
  have lim: "unat lim \<le> 2 ^ 31" using user_runningD(2) [OF assms(1)] by (simp add: lim_def)
  have run: "argptr n len s = Done (if w \<ge> lim \<or> w + len > lim then None else Some w) s"
    using assms(3) by (simp add: argptr_def bd_run user_runningD(1) [OF assms(1)] argint_run [OF assms(1)] a [symmetric] w_def lim_def)
  define k where "k = unat len"
  have k: "k < 4294967296" using unat_less_u32 [of len] by (simp add: k_def)
  have si: "sint len = (if k < 2147483648 then int k else int k - 4294967296)" using sint_u32 [of len] by (simp add: k_def)
  have sum: "unat (w + len) = (if unat w + k < 4294967296 then unat w + k else unat w + k - 4294967296)"
    by (simp add: unat_plus_if k_def)
  have pos: "w + len > lim \<longleftrightarrow> \<not> unat w + unat len \<le> unat lim" if "0 \<le> sint len" "w < lim"
  proof -
    have "k < 2147483648" using that(1) si k by (simp split: if_splits)
    then show ?thesis using that(2) lim sum by (simp add: word_less_nat_alt k_def [symmetric] not_le)
  qed
  have neg: "\<not> w + len > lim" if "sint len < 0" "w < lim" "- sint len \<le> uint w"
  proof -
    define j where "j = unat w"
    have "uint w = int j" by (simp add: j_def)
    then have "4294967296 \<le> j + k" using that(1,3) si by (simp split: if_splits)
    then have "4294967296 \<le> unat w + k" by (simp add: j_def)
    then have "unat (w + len) \<le> unat w" using sum k by simp
    then show ?thesis using that(2) by (simp add: word_less_nat_alt)
  qed
  show ?thesis
    unfolding w_def [symmetric] lim_def [symmetric]
  proof (intro conjI impI)
    assume "0 \<le> sint len"
    then show "argptr n len s = Done (if w < lim \<and> unat w + unat len \<le> unat lim then Some w else None) s"
      using run pos by (cases "w < lim") (auto simp: not_le not_less)
  next
    assume "sint len < 0" "w < lim" "- sint len \<le> uint w"
    then show "argptr n len s = Done (Some w) s" using run neg by (auto simp: not_le not_less)
  qed
qed

text \<open>
  C21: \<^verbatim>\<open>fetchstr\<close> returns a string exactly if there is a NUL byte between the address and the end of the process's memory, and then
  it is the bytes before the first one; otherwise, and for any address outside the process, it reports an error. It always
  returns, reads no byte at or beyond the end of the process, and changes nothing.
\<close>

theorem fetchstr_finds_string:
  assumes "user_running s i"
  shows "(\<exists>str. fetchstr addr s = Done (Some str) s \<and> unat addr + length str < unat (sz (ptable s ! i)) \<and>
      (\<forall>j < length str. umem s (addr + of_nat j) = Some (str ! j) \<and> str ! j \<noteq> 0) \<and> umem s (addr + of_nat (length str)) = Some 0) \<or>
    fetchstr addr s = Done None s \<and> (\<forall>j. unat addr + j < unat (sz (ptable s ! i)) \<longrightarrow> umem s (addr + of_nat j) \<noteq> Some 0)"
proof -
  define room where "room = unat (sz (ptable s ! i)) - unat addr"
  define cs where "cs = map (\<lambda>j. ubyte s (addr + of_nat j)) [0..<room]"
  have run: "fetchstr addr s = Done (if 0 \<in> set cs then Some (takeWhile (\<lambda>c. c \<noteq> 0) cs) else None) s"
    using fetchstr_run [OF assms, of addr] by (simp only: cs_def room_def Let_def)
  have um: "umem s (addr + of_nat j) = Some (cs ! j)" if "j < room" for j
  proof -
    have "unat (addr + of_nat j) = unat addr + j"
      using that user_runningD(2) [OF assms] by (intro small_add) (simp_all add: room_def)
    then have "umem s (addr + of_nat j) \<noteq> None" using that user_runningD(3) [OF assms] by (simp add: room_def)
    then show ?thesis using that by (simp add: cs_def ubyte_def)
  qed
  show ?thesis
  proof (cases "0 \<in> set cs")
    case True
    let ?str = "takeWhile (\<lambda>c. c \<noteq> 0) cs"
    have "dropWhile (\<lambda>c. c \<noteq> 0) cs \<noteq> []" using True by (auto simp: dropWhile_eq_Nil_conv)
    then have "0 < length (dropWhile (\<lambda>c. c \<noteq> 0) cs)" by (simp only: length_greater_0_conv not_False_eq_True)
    moreover have "length ?str + length (dropWhile (\<lambda>c. c \<noteq> 0) cs) = length cs"
      by (metis length_append takeWhile_dropWhile_id)
    ultimately have len: "length ?str < length cs" by linarith
    then have "cs ! length ?str = 0" using nth_length_takeWhile [of "\<lambda>c. c \<noteq> 0" cs] by simp
    moreover have lr: "length ?str < room" using len by (simp add: cs_def)
    moreover have "cs ! j = ?str ! j \<and> ?str ! j \<noteq> 0" if "j < length ?str" for j
      using that nth_mem [OF that] by (auto simp: takeWhile_nth dest: set_takeWhileD)
    ultimately show ?thesis
      using True run um by (intro disjI1 exI [of _ ?str]) (auto simp: room_def)
  next
    case False
    have "umem s (addr + of_nat j) \<noteq> Some 0" if "unat addr + j < unat (sz (ptable s ! i))" for j
    proof -
      have j: "j < room" using that by (simp add: room_def)
      then have "cs ! j \<in> set cs" by (simp add: cs_def)
      with False um [OF j] show ?thesis by auto
    qed
    with False run show ?thesis by simp
  qed
qed

text \<open>A process with one page of zeros, its stack pointer at \<open>0x100\<close>.\<close>

definition small_proc :: kmst where
  "small_proc = fork_state\<lparr>ptable := [zero_proc\<lparr>sz := 0x1000, tf := (tf zero_proc)\<lparr>tf_esp := 0x100\<rparr>\<rparr>], curproc := Some 0, cr3 := 0xDFFF000\<rparr>"

lemma small_proc_mem:
  assumes "unat va < 4096"
  shows "umem small_proc va = Some 0"
proof -
  have m: "kmem_mem small_proc = fork_mem" "cur_pgdir small_proc = 0x8DFFF000"
    by (simp_all add: small_proc_def fork_state_def cur_pgdir_def p2v_def KERNBASE_def)
  have al: "page_aligned 0x8DFFE000" "page_aligned 0x8DFFF000" "page_aligned 0x8DFFB000" by (simp_all add: page_aligned_def)
  have "entry fork_mem 0x8DFFF000 va = entry fork_mem 0x8DFFF000 0" by (rule entry_page) (use assms in simp)
  also have "\<dots> = 0xDFFD007" using fork_mem_load [OF al(1), of 0] by (simp add: entry_def fork_dirs PDX_def PTX_def)
  finally have tr: "translate fork_mem 0x8DFFF000 va = Some (0x8DFFD000 + (va AND 0xFFF))"
    by (simp add: translate_entry PTE_P_def PTE_ADDR_def p2v_def KERNBASE_def)
  have "in_page 0x8DFFD000 (0x8DFFD000 + (va AND 0xFFF))" using unat_low12 [of va] by (simp add: in_page_def)
  then have "\<not> in_page 0x8DFFE000 (0x8DFFD000 + (va AND 0xFFF))" "\<not> in_page 0x8DFFF000 (0x8DFFD000 + (va AND 0xFFF))"
    "\<not> in_page 0x8DFFB000 (0x8DFFD000 + (va AND 0xFFF))"
    using other_page [of "0x8DFFD000"] al by (simp_all add: page_aligned_def)
  then have "fork_mem (0x8DFFD000 + (va AND 0xFFF)) = 0" using al by (simp add: fork_mem_def store32_slot_out)
  with tr m show ?thesis by (simp add: umem_def)
qed

lemma small_proc_running: "user_running small_proc 0" "sz (ptable small_proc ! 0) = 0x1000" "tf_esp (tf (ptable small_proc ! 0)) = 0x100"
proof -
  show "sz (ptable small_proc ! 0) = 0x1000" "tf_esp (tf (ptable small_proc ! 0)) = 0x100" by (simp_all add: small_proc_def)
  then show "user_running small_proc 0"
    using small_proc_mem by (auto simp: user_running_def word_less_nat_alt KERNBASE_def) (simp_all add: small_proc_def)
qed

lemma small_proc_word: "unat a < 4092 \<Longrightarrow> uword small_proc a = 0"
proof -
  assume a: "unat a < 4092"
  have "ubyte small_proc (a + of_nat j) = 0" if "j < 4" for j
  proof -
    have "unat (a + of_nat j) = unat a + j" using a that by (intro small_add) simp_all
    then show ?thesis using a that by (simp add: ubyte_def small_proc_mem)
  qed
  then have "map (\<lambda>j. ubyte small_proc (a + of_nat j)) [0..<4] = map (\<lambda>_. 0) [0..<4]" by (intro map_cong) simp_all
  then show ?thesis unfolding uword_def by (simp add: upt_rec of_le32_def)
qed

theorem argptr_checks_witness:
  "argptr 1 20 small_proc = Done (Some 0) small_proc \<and> argptr 1 0x1001 small_proc = Done None small_proc"
proof -
  have a: "unat (tf_esp (tf (ptable small_proc ! 0)) + 4 + 4 * of_nat 1) + 4 \<le> unat (sz (ptable small_proc ! 0))"
    by (simp add: small_proc_running)
  have w: "uword small_proc (tf_esp (tf (ptable small_proc ! 0)) + 4 + 4 * of_nat 1) = 0"
    by (rule small_proc_word) (simp add: small_proc_running)
  show ?thesis
    using argptr_checks [OF small_proc_running(1) refl a, of 20] argptr_checks [OF small_proc_running(1) refl a, of "0x1001"]
    unfolding w by (simp add: small_proc_running)
qed

text \<open>Address 0x2000 is outside the process; the memory of the process is zero, so the string at 0x10 is empty.\<close>

theorem fetchstr_finds_string_witness:
  "fetchstr 0x2000 small_proc = Done None small_proc \<and> fetchstr 0x10 small_proc = Done (Some []) small_proc"
proof -
  have z: "umem small_proc 0x10 = Some 0" "unat (0x10 :: u32) < unat (sz (ptable small_proc ! 0))"
    using small_proc_mem [of "0x10"] by (simp_all add: small_proc_running)
  from fetchstr_finds_string [OF small_proc_running(1), of "0x10"] have "fetchstr 0x10 small_proc = Done (Some []) small_proc"
  proof (elim disjE exE conjE)
    fix str assume r: "fetchstr 0x10 small_proc = Done (Some str) small_proc"
      and n: "\<forall>j < length str. umem small_proc (0x10 + of_nat j) = Some (str ! j) \<and> str ! j \<noteq> 0"
    have "length str = 0" using n [rule_format, of 0] z(1) by fastforce
    with r show ?thesis by simp
  next
    assume "\<forall>j. unat (0x10 :: u32) + j < unat (sz (ptable small_proc ! 0)) \<longrightarrow> umem small_proc (0x10 + of_nat j) \<noteq> Some 0"
    from this [rule_format, of 0] z show ?thesis by simp
  qed
  moreover have "fetchstr 0x2000 small_proc = Done None small_proc"
    using fetchstr_finds_string [OF small_proc_running(1), of "0x2000"] by (auto simp: small_proc_running)
  ultimately show ?thesis by simp
qed

end
