(* ===== verification/Lifecycle.thy ===== *)
theory Lifecycle
  imports Proc Paging
begin

text \<open>
  The life cycle of processes in \<^verbatim>\<open>proc.c\<close>: what \<^verbatim>\<open>exit\<close> does to the process table, that a parent in \<^verbatim>\<open>wait\<close> does not miss
  it, and the identity of a new process.
\<close>

section \<open>Giving away the children\<close>

definition woken_on :: "chan option \<Rightarrow> proc \<Rightarrow> proc" where
  "woken_on c p = (if c \<noteq> None \<and> state p = SLEEPING \<and> chan p = c then p\<lparr>state := RUNNABLE\<rparr> else p)"

definition reparented :: "nat \<Rightarrow> nat option \<Rightarrow> proc \<Rightarrow> proc" where
  "reparented me ip p = (if parent p = Some me then p\<lparr>parent := ip\<rparr> else p)"

definition orphan_zombie :: "nat \<Rightarrow> proc \<Rightarrow> bool" where
  "orphan_zombie me p \<longleftrightarrow> parent p = Some me \<and> state p = ZOMBIE"

lemma woken_on_fields [simp]:
  "parent (woken_on c p) = parent p" "state (woken_on c p) = ZOMBIE \<longleftrightarrow> state p = ZOMBIE"
  "pid (woken_on c p) = pid p" "chan (woken_on c p) = chan p" "killed (woken_on c p) = killed p"
  "woken_on c (p\<lparr>parent := q\<rparr>) = (woken_on c p)\<lparr>parent := q\<rparr>" "woken_on c (woken_on c p) = woken_on c p"
  "woken_on None p = p"
  by (simp_all add: woken_on_def)

lemma reparented_fields [simp]:
  "state (reparented me ip p) = state p" "pid (reparented me ip p) = pid p" "chan (reparented me ip p) = chan p"
  "killed (reparented me ip p) = killed p"
  by (simp_all add: reparented_def)

lemma wake_proc_run: "wake_proc q s = Done () (s\<lparr>ptable := map (woken_on (map_option ChanProc q)) (ptable s)\<rparr>)"
proof (cases q)
  case None
  have "woken_on None = id" by (simp add: woken_on_def fun_eq_iff)
  with None show ?thesis by (simp add: wake_proc_def)
next
  case (Some i)
  have "(\<lambda>p. if state p = SLEEPING \<and> chan p = Some (ChanProc i) then p\<lparr>state := RUNNABLE\<rparr> else p) = woken_on (Some (ChanProc i))"
    by (simp add: woken_on_def fun_eq_iff)
  with Some show ?thesis by (simp add: wake_proc_def wakeup1_run)
qed

text \<open>The table after the loop of \<^verbatim>\<open>exit\<close> has passed the first \<open>k\<close> slots.\<close>

definition exit_table :: "nat \<Rightarrow> nat option \<Rightarrow> nat \<Rightarrow> proc list \<Rightarrow> proc list" where
  "exit_table me ip k ps =
     map (if \<exists>p \<in> set (take k ps). orphan_zombie me p then woken_on (map_option ChanProc ip) else id)
       (map (reparented me ip) (take k ps) @ drop k ps)"

lemma exit_table_0: "exit_table me ip 0 ps = ps"
  by (simp add: exit_table_def)

lemma exit_table_Suc:
  assumes "k < length ps"
  shows "exit_table me ip (Suc k) ps =
    (let qs = exit_table me ip k ps; p = qs ! k
     in if parent p = Some me
        then map (if state p = ZOMBIE then woken_on (map_option ChanProc ip) else id) (qs[k := p\<lparr>parent := ip\<rparr>])
        else qs)"
proof -
  define w where "w = woken_on (map_option ChanProc ip)"
  define f where "f = (if \<exists>p \<in> set (take k ps). orphan_zombie me p then w else id)"
  have f: "f (p\<lparr>parent := q\<rparr>) = (f p)\<lparr>parent := q\<rparr>" "parent (f p) = parent p" "state (f p) = ZOMBIE \<longleftrightarrow> state p = ZOMBIE"
    "w (f p) = w p" "w (p\<lparr>parent := q\<rparr>) = (w p)\<lparr>parent := q\<rparr>" for p q by (simp_all add: f_def w_def)
  have ps: "take (Suc k) ps = take k ps @ [ps ! k]" "drop k ps = ps ! k # drop (Suc k) ps"
    using assms by (simp_all add: take_Suc_conv_app_nth Cons_nth_drop_Suc)
  have qs: "exit_table me ip k ps = map f (map (reparented me ip) (take k ps)) @ f (ps ! k) # map f (drop (Suc k) ps)"
    by (simp add: exit_table_def f_def w_def ps(2))
  have lk: "length (map f (map (reparented me ip) (take k ps))) = k" using assms by simp
  have at: "exit_table me ip k ps ! k = f (ps ! k)" unfolding qs using lk by (metis nth_append_length)
  have upd: "(exit_table me ip k ps)[k := x] = map f (map (reparented me ip) (take k ps)) @ x # map f (drop (Suc k) ps)" for x
    unfolding qs using lk by (metis list_update_length)
  define g where "g = (if \<exists>p \<in> set (take (Suc k) ps). orphan_zombie me p then w else id)"
  have new: "exit_table me ip (Suc k) ps = map g (map (reparented me ip) (take k ps)) @ g (reparented me ip (ps ! k)) # map g (drop (Suc k) ps)"
    by (simp add: exit_table_def g_def w_def ps(1))
  show ?thesis
  proof (cases "parent (ps ! k) = Some me")
    case True
    show ?thesis
    proof (cases "state (ps ! k) = ZOMBIE")
      case z: True
      then have "g = w" using True by (simp add: g_def ps(1) orphan_zombie_def)
      with True z show ?thesis unfolding new Let_def at upd
        by (simp add: f w_def [symmetric] reparented_def o_def)
    next
      case False
      then have "g = f" by (simp add: g_def f_def ps(1) orphan_zombie_def)
      with True False show ?thesis unfolding new Let_def at upd by (simp add: f reparented_def)
    qed
  next
    case False
    then have "g = f" by (simp add: g_def f_def ps(1) orphan_zombie_def)
    with False show ?thesis unfolding new Let_def at by (simp add: f reparented_def qs)
  qed
qed

lemma exit_child_run:
  assumes "i < length (ptable s)"
  shows "exit_child me i s = Done () (s\<lparr>ptable :=
    (let p = ptable s ! i in
     if parent p = Some me
     then map (if state p = ZOMBIE then woken_on (map_option ChanProc (initproc s)) else id) ((ptable s)[i := p\<lparr>parent := initproc s\<rparr>])
     else ptable s)\<rparr>)"
  by (simp add: exit_child_def bd_run wake_proc_run upd_proc_def Let_def)

lemma exit_children:
  assumes "k \<le> length (ptable s)"
  shows "foreach [0..<k] (exit_child me) s = Done () (s\<lparr>ptable := exit_table me (initproc s) k (ptable s)\<rparr>)"
  using assms
proof (induction k)
  case (Suc k)
  have len: "length (exit_table me (initproc s) k (ptable s)) = length (ptable s)" using Suc.prems by (simp add: exit_table_def)
  show ?case
    using Suc exit_table_Suc [of k "ptable s" me "initproc s"] len
    by (simp add: foreach_append bd_run exit_child_run Let_def)
qed (simp add: exit_table_0)

section \<open>The end of a process\<close>

text \<open>The whole effect: the parent is woken, then the children change hands.\<close>

definition after_exit :: "nat \<Rightarrow> nat option \<Rightarrow> proc list \<Rightarrow> proc list" where
  "after_exit me ip ps =
     (let qs = map (woken_on (map_option ChanProc (parent (ps ! me)))) ps;
          rs = exit_table me ip (length ps) qs
      in rs[me := (rs ! me)\<lparr>state := ZOMBIE\<rparr>])"

lemma exit_finish_run:
  assumes "curproc s = Some me" and "me < length (ptable s)" and "held s = {LPtable}"
  shows "exit_finish s = Switched (s\<lparr>ptable := after_exit me (initproc s) (ptable s)\<rparr>)"
proof -
  define u where "u = s\<lparr>ptable := map (woken_on (map_option ChanProc (parent (ptable s ! me)))) (ptable s)\<rparr>"
  have u: "curproc u = Some me" "length (ptable u) = length (ptable s)" "initproc u = initproc s" "held u = {LPtable}"
    using assms by (simp_all add: u_def)
  define v where "v = u\<lparr>ptable := exit_table me (initproc s) (length (ptable s)) (ptable u)\<rparr>"
  have loop: "foreach [0..<length (ptable s)] (exit_child me) u = Done () v"
    using exit_children [of "length (ptable s)" u me] u by (simp add: v_def)
  have lv: "length (ptable v) = length (ptable s)" "curproc v = Some me" "held v = {LPtable}"
    using u by (simp_all add: v_def exit_table_def)
  define w where "w = upd_proc me (\<lambda>p. p\<lparr>state := ZOMBIE\<rparr>) v"
  have sc: "sched w = Switched w"
    using lv assms(2) by (subst sched_run [of _ me]) (simp_all add: w_def)
  have "exit_finish s = Switched w"
    using assms u loop lv sc
    by (simp add: exit_finish_def bd_run curget_def curidx_def curmod_def wake_proc_run u_def [symmetric] w_def [symmetric])
  moreover have "w = s\<lparr>ptable := after_exit me (initproc s) (ptable s)\<rparr>"
    by (simp add: w_def v_def u_def upd_proc_def after_exit_def Let_def)
  ultimately show ?thesis by simp
qed

lemma after_exit_nth:
  assumes "me < length ps" and "i < length ps"
  shows "after_exit me ip ps ! i =
    (let up = map_option ChanProc (parent (ps ! me)); init = map_option ChanProc ip;
         f = (if \<exists>p \<in> set ps. orphan_zombie me p then woken_on init else id);
         p = f (reparented me ip (woken_on up (ps ! i)))
     in if i = me then p\<lparr>state := ZOMBIE\<rparr> else p)"
proof -
  let ?up = "map_option ChanProc (parent (ps ! me))"
  have "(\<exists>p \<in> set (map (woken_on ?up) ps). orphan_zombie me p) \<longleftrightarrow> (\<exists>p \<in> set ps. orphan_zombie me p)"
    by (simp add: orphan_zombie_def)
  with assms show ?thesis by (simp add: after_exit_def exit_table_def Let_def nth_list_update)
qed

lemma length_after_exit [simp]: "length (after_exit me ip ps) = length ps"
  by (simp add: after_exit_def exit_table_def Let_def)

lemma woken_state:
  "state (woken_on c p) = (if c \<noteq> None \<and> state p = SLEEPING \<and> chan p = c then RUNNABLE else state p)"
  by (simp add: woken_on_def)

lemma on_proc_chan: "map_option ChanProc q \<noteq> None \<and> c = map_option ChanProc q \<longleftrightarrow> (\<exists>i. c = Some (ChanProc i) \<and> q = Some i)"
  by (cases q) auto

text \<open>The same by fields: \<open>zombies\<close> says whether init inherits a zombie.\<close>

lemma after_exit_fields:
  assumes "me < length ps" and "i < length ps" and "zombies \<longleftrightarrow> (\<exists>p \<in> set ps. orphan_zombie me p)"
  shows "pid (after_exit me ip ps ! i) = pid (ps ! i)"
    and "parent (after_exit me ip ps ! i) = (if parent (ps ! i) = Some me then ip else parent (ps ! i))"
    and "i \<noteq> me \<Longrightarrow> state (after_exit me ip ps ! i) =
      (if state (ps ! i) = SLEEPING \<and> (\<exists>q. chan (ps ! i) = Some (ChanProc q) \<and> (parent (ps ! me) = Some q \<or> ip = Some q \<and> zombies))
       then RUNNABLE else state (ps ! i))"
    and "state (after_exit me ip ps ! me) = ZOMBIE"
proof -
  note at = after_exit_nth [OF assms(1,2), of ip, folded assms(3)]
  show "pid (after_exit me ip ps ! i) = pid (ps ! i)"
    "parent (after_exit me ip ps ! i) = (if parent (ps ! i) = Some me then ip else parent (ps ! i))"
    using at by (simp_all add: Let_def reparented_def)
  show "state (after_exit me ip ps ! me) = ZOMBIE" using after_exit_nth [OF assms(1,1), of ip] by (simp add: Let_def)
  have c: "(\<exists>q. chan (ps ! i) = Some (ChanProc q) \<and> (parent (ps ! me) = Some q \<or> ip = Some q \<and> zombies)) \<longleftrightarrow>
      (map_option ChanProc (parent (ps ! me)) \<noteq> None \<and> chan (ps ! i) = map_option ChanProc (parent (ps ! me))) \<or>
      zombies \<and> (map_option ChanProc ip \<noteq> None \<and> chan (ps ! i) = map_option ChanProc ip)"
    unfolding on_proc_chan by blast
  show "state (after_exit me ip ps ! i) =
      (if state (ps ! i) = SLEEPING \<and> (\<exists>q. chan (ps ! i) = Some (ChanProc q) \<and> (parent (ps ! me) = Some q \<or> ip = Some q \<and> zombies))
       then RUNNABLE else state (ps ! i))" if "i \<noteq> me"
    unfolding c using at that by (cases zombies) (simp_all add: Let_def woken_state)
qed

section \<open>Waiting\<close>

lemma wait_sleeps:
  assumes "curproc s = Some me" and "me < length (ptable s)" and "held s = {}" and "\<not> killed (ptable s ! me)"
    and "\<exists>p \<in> set (ptable s). parent p = Some me" and "\<forall>p \<in> set (ptable s). parent p = Some me \<longrightarrow> state p \<noteq> ZOMBIE"
  shows "wait s = Switched (s\<lparr>held := {LPtable}, ptable := (ptable s)[me := (ptable s ! me)\<lparr>chan := Some (ChanProc me), state := SLEEPING\<rparr>]\<rparr>)"
proof -
  let ?a = "s\<lparr>held := {LPtable}\<rparr>"
  have "find_proc (\<lambda>p. parent p = Some me \<and> state p = ZOMBIE) 0 (ptable s) = None"
    using assms(6) by (auto simp: find_proc_None)
  moreover have "sleep (ChanProc me) LPtable ?a = Switched (s\<lparr>held := {LPtable},
      ptable := (ptable s)[me := (ptable s ! me)\<lparr>chan := Some (ChanProc me), state := SLEEPING\<rparr>]\<rparr>)"
    using assms(1,2) by (subst sleep_run [of _ me]) simp_all
  ultimately show ?thesis
    using assms by (simp add: wait_def wait_loop_def bd_run acquire_run curidx_def curget_def)
qed

lemma wait_loop_reaps:
  assumes "curproc s = Some me" and "me < length (ptable s)"
    and "i < length (ptable s)" and "parent (ptable s ! i) = Some me" and "state (ptable s ! i) = ZOMBIE"
  shows "\<exists>j < length (ptable s). parent (ptable s ! j) = Some me \<and> state (ptable s ! j) = ZOMBIE \<and> wait_loop s = wait_reap j s"
proof -
  let ?P = "\<lambda>p. parent p = Some me \<and> state p = ZOMBIE"
  have "ptable s ! i \<in> set (ptable s)" using assms(3) by simp
  with assms(4,5) have "find_proc ?P 0 (ptable s) \<noteq> None" unfolding find_proc_None by blast
  then obtain j where j: "find_proc ?P 0 (ptable s) = Some j" by blast
  then have "j < length (ptable s)" "?P (ptable s ! j)" by (simp_all add: find_proc_Some)
  with j assms(1,2) show ?thesis by (auto simp: wait_loop_def bd_run curidx_def)
qed

section \<open>A new process\<close>

text \<open>The processes in use have different positive pids, all below the next one to be given out.\<close>

definition pids_ok :: "'z ptst_scheme \<Rightarrow> bool" where
  "pids_ok s \<longleftrightarrow> 0 < nextpid s \<and> (\<forall>i < length (ptable s). state (ptable s ! i) \<noteq> UNUSED \<longrightarrow>
     0 < pid (ptable s ! i) \<and> pid (ptable s ! i) < nextpid s \<and>
     (\<forall>j < length (ptable s). state (ptable s ! j) \<noteq> UNUSED \<longrightarrow> pid (ptable s ! j) = pid (ptable s ! i) \<longrightarrow> j = i))"

lemma pids_ok_alloc:
  assumes "pids_ok s" and "length (ptable t) = length (ptable s)" and "nextpid t = nextpid s + 1" and "i < length (ptable s)"
    and "pid (ptable t ! i) = nextpid s" and "\<And>j. j \<noteq> i \<Longrightarrow> ptable t ! j = ptable s ! j"
  shows "pids_ok t"
  unfolding pids_ok_def
proof (intro allI impI conjI)
  show "0 < nextpid t" using assms(1,3) by (simp add: pids_ok_def)
  fix j assume j: "j < length (ptable t)" "state (ptable t ! j) \<noteq> UNUSED"
  show "0 < pid (ptable t ! j)"
    using assms j by (cases "j = i") (simp_all add: pids_ok_def)
  show "pid (ptable t ! j) < nextpid t"
    using assms j by (cases "j = i") (fastforce simp: pids_ok_def)+
  fix k assume k: "k < length (ptable t)" "state (ptable t ! k) \<noteq> UNUSED" "pid (ptable t ! k) = pid (ptable t ! j)"
  show "k = j"
    using assms j k unfolding pids_ok_def by (cases "j = i"; cases "k = i") (metis order_less_irrefl)+
qed

lemma allocproc_run:
  assumes "LPtable \<notin> held s" and "LKmem \<notin> held s" and "free_pages s (k # ks)"
    and "find_proc (\<lambda>p. state p = UNUSED) 0 (ptable s) = Some i"
  shows "\<exists>t. allocproc s = Done (Some i) t \<and> held t = held s \<and> nextpid t = wrap32 (nextpid s + 1) \<and> curproc t = curproc s \<and>
    ptable t = (ptable s)[i := (ptable s ! i)\<lparr>state := EMBRYO, pid := nextpid s, kstack := k,
      ctx := \<lparr>cx_edi = 0, cx_esi = 0, cx_ebx = 0, cx_ebp = 0, cx_eip = forkret_addr s\<rparr>\<rparr>]"
proof -
  have i: "i < length (ptable s)" using assms(4) by (simp add: find_proc_Some)
  define p where "p = (ptable s ! i)\<lparr>state := EMBRYO, pid := nextpid s\<rparr>"
  define u where "u = s\<lparr>nextpid := wrap32 (nextpid s + 1), ptable := (ptable s)[i := p]\<rparr>"
  have fu: "free_pages u (k # ks)" "LKmem \<notin> held u" using assms(2,3) by (simp_all add: u_def free_pages_def)
  then obtain v where v: "kalloc u = Done k v" and vu: "v = u\<lparr>freelist := freelist v\<rparr>" using kalloc_Cons by blast
  have vf: "ptable v = ptable u" "held v = held u" "nextpid v = nextpid u" "trapret_addr v = trapret_addr s" "forkret_addr v = forkret_addr s"
    "curproc v = curproc s" by (subst vu, simp add: u_def)+
  have "good_page (kend s) k" using assms(3) by (simp add: free_pages_def)
  note k = good_pageD [OF this]
  have nz: "k + of_nat KSTACKSIZE - sizeof_trapframe - 4 \<noteq> 0"
  proof -
    have "unat (k + of_nat 4016) = unat k + 4016" using k(6) by (intro unat_add_small) simp
    moreover have "k + of_nat KSTACKSIZE - sizeof_trapframe - 4 = k + of_nat 4016"
      by (simp add: KSTACKSIZE_def sizeof_trapframe_def)
    ultimately show ?thesis using k(5) by (metis unat_0 add_eq_0_iff_both_eq_0 not_numeral_le_zero power_eq_0_iff zero_neq_numeral)
  qed
  have "s\<lparr>nextpid := wrap32 (nextpid s + 1), ptable := (ptable s)[i := p], held := held s\<rparr> = u" by (simp add: u_def)
  then have run: "allocproc s = bd (modify (upd_proc i (\<lambda>p. p\<lparr>kstack := k\<rparr>))) (\<lambda>_. bd (init_kstack i) (\<lambda>_. ret (Some i))) v"
    using assms(1,4) i v k(4)
    by (simp add: allocproc_def bd_run acquire_run release_run upd_proc_def insert_Diff_if p_def)
  show ?thesis
    unfolding run using nz i vf
    by (simp add: init_kstack_def bd_run upd_proc_def stmem_def Let_def u_def p_def del: KSTACKSIZE_def)
qed

section \<open>Properties\<close>

text \<open>
  C17: The end of \<^verbatim>\<open>exit\<close>, with \<^verbatim>\<open>ptable.lock\<close> held: the process becomes a zombie and the CPU goes to the scheduler with
  only that lock held. Afterwards no process has it as its parent: its children are children of init. Its own parent, if
  asleep in \<^verbatim>\<open>wait\<close>, is runnable, and so is init if it inherits a zombie; no other process changes its state, and no pid changes.
\<close>

theorem exit_hands_over:
  assumes "curproc s = Some me" and "me < length (ptable s)" and "held s = {LPtable}"
  shows "\<exists>t. exit_finish s = Switched t \<and> held t = {LPtable} \<and> length (ptable t) = length (ptable s) \<and> state (ptable t ! me) = ZOMBIE \<and>
    (\<forall>i < length (ptable s). pid (ptable t ! i) = pid (ptable s ! i) \<and>
      parent (ptable t ! i) = (if parent (ptable s ! i) = Some me then initproc s else parent (ptable s ! i)) \<and>
      (i \<noteq> me \<longrightarrow> state (ptable t ! i) =
        (if state (ptable s ! i) = SLEEPING \<and>
            (\<exists>q. chan (ptable s ! i) = Some (ChanProc q) \<and> (parent (ptable s ! me) = Some q \<or>
               initproc s = Some q \<and> (\<exists>p \<in> set (ptable s). parent p = Some me \<and> state p = ZOMBIE)))
         then RUNNABLE else state (ptable s ! i))))"
proof -
  note F = after_exit_fields [OF assms(2) _ refl, of _ "initproc s", unfolded orphan_zombie_def]
  show ?thesis
    unfolding exit_finish_run [OF assms]
    by (intro exI conjI allI impI, rule refl) (simp_all add: F(1-3) F(4) [OF assms(2)] assms)
qed

text \<open>
  C16: \<^verbatim>\<open>wait\<close> does not miss an exit. A process that has children, none of them a zombie, goes to sleep in \<^verbatim>\<open>wait\<close> without giving up
  \<^verbatim>\<open>ptable.lock\<close> in between. Whenever a child of a process that sleeps there exits, the parent is runnable afterwards, and
  when the scheduler gives it the CPU, \<^verbatim>\<open>wait\<close> goes on to collect a child that is a zombie.
\<close>

theorem wait_does_not_miss_exit:
  assumes "curproc s = Some pa" and "pa < length (ptable s)" and "held s = {}" and "\<not> killed (ptable s ! pa)"
    and "\<exists>p \<in> set (ptable s). parent p = Some pa" and "\<forall>p \<in> set (ptable s). parent p = Some pa \<longrightarrow> state p \<noteq> ZOMBIE"
    and "curproc u = Some c" and "c < length (ptable u)" and "c \<noteq> pa" and "held u = {LPtable}" and "parent (ptable u ! c) = Some pa"
    and "pa < length (ptable u)" and "state (ptable u ! pa) = SLEEPING" and "chan (ptable u ! pa) = Some (ChanProc pa)"
  shows "(\<exists>t. wait s = Switched t \<and> state (ptable t ! pa) = SLEEPING \<and> chan (ptable t ! pa) = Some (ChanProc pa)) \<and>
    (\<exists>v. exit_finish u = Switched v \<and> state (ptable v ! pa) = RUNNABLE \<and>
       (\<forall>k w. scheduler_dispatch k v = Done (Some pa) w \<longrightarrow>
          (\<exists>j x. j < length (ptable w) \<and> parent (ptable w ! j) = Some pa \<and> state (ptable w ! j) = ZOMBIE \<and>
             sleep_resume LPtable w = Done () x \<and> wait_resume w = wait_reap j x)))"
proof -
  let ?v = "u\<lparr>ptable := after_exit c (initproc u) (ptable u)\<rparr>"
  have pa: "state (ptable ?v ! pa) = RUNNABLE"
    using after_exit_nth [OF assms(8,12), of "initproc u"] assms(9,11,13,14) by (simp add: Let_def woken_on_def reparented_def)
  have c: "parent (ptable ?v ! c) = Some pa" "state (ptable ?v ! c) = ZOMBIE"
    using after_exit_nth [OF assms(8,8), of "initproc u"] assms(9,11) by (simp_all add: Let_def reparented_def)
  have "\<exists>j x. j < length (ptable w) \<and> parent (ptable w ! j) = Some pa \<and> state (ptable w ! j) = ZOMBIE \<and>
      sleep_resume LPtable w = Done () x \<and> wait_resume w = wait_reap j x" if w: "scheduler_dispatch k ?v = Done (Some pa) w" for k w
  proof -
    have w': "curproc w = Some pa" "held w = {LPtable}" "ptable w = (ptable ?v)[pa := (ptable ?v ! pa)\<lparr>state := RUNNING\<rparr>]"
      using scheduler_dispatch_run [OF w] assms(10) by auto
    define x where "x = w\<lparr>held := {LPtable}, ptable := (ptable w)[pa := (ptable w ! pa)\<lparr>chan := None\<rparr>]\<rparr>"
    have r: "sleep_resume LPtable w = Done () x" using sleep_resume_run [OF w'(1,2)] by (simp add: x_def)
    have at: "ptable x ! j = (if j = pa then (ptable ?v ! pa)\<lparr>state := RUNNING, chan := None\<rparr> else ptable ?v ! j)" if "j < length (ptable u)" for j
      using that w'(3) by (auto simp: x_def nth_list_update)
    have wx: "parent (ptable w ! j) = parent (ptable x ! j) \<and> state (ptable w ! j) = state (ptable x ! j)" if "j < length (ptable u)" for j
      using that w'(3) assms(12) by (cases "j = pa") (simp_all add: x_def)
    have len: "length (ptable x) = length (ptable u)" "length (ptable w) = length (ptable u)" using w'(3) by (simp_all add: x_def)
    have "curproc x = Some pa" "pa < length (ptable x)" "c < length (ptable x)" "parent (ptable x ! c) = Some pa" "state (ptable x ! c) = ZOMBIE"
      using w'(1) len assms(8,9,12) at [OF assms(8)] c by (simp_all add: x_def)
    from wait_loop_reaps [OF this] obtain j where j: "j < length (ptable u)" "parent (ptable x ! j) = Some pa" "state (ptable x ! j) = ZOMBIE"
      "wait_loop x = wait_reap j x" using len by auto
    with r wx [OF j(1)] len show ?thesis by (auto simp: wait_resume_def bd_run)
  qed
  then show ?thesis
    using wait_sleeps [OF assms(1-6)] assms(2) exit_finish_run [OF assms(7,8,10)] pa by auto
qed

text \<open>
  C22: \<^verbatim>\<open>allocproc\<close>, with a free page, takes the first unused slot and gives its process a positive pid no process in use has. The
  pids stay different and positive as long as the counter, a 32-bit \<^verbatim>\<open>int\<close>, is below its largest value; there the process
  still gets a pid of its own, but the counter wraps around to the smallest \<^verbatim>\<open>int\<close>, which would be the next pid, and what the pids
  rely on is lost. \<^verbatim>\<open>allocproc\<close> leaves the slot's \<^verbatim>\<open>killed\<close> flag as it was: if \<^verbatim>\<open>kill(0)\<close> was called while the first slot with pid 0 is the
  first unused one, which sets the flag and reports success, the next process to be created is born killed.
\<close>

theorem allocproc_fresh_pid:
  assumes "LPtable \<notin> held s" and "LKmem \<notin> held s" and "free_pages s (k # ks)" and "pids_ok s"
    and "find_proc (\<lambda>p. state p = UNUSED) 0 (ptable s) = Some i" and "nextpid s < 2 ^ 31"
  shows "\<exists>t. allocproc s = Done (Some i) t \<and> state (ptable t ! i) = EMBRYO \<and> pid (ptable t ! i) = nextpid s \<and> 0 < nextpid s \<and>
    (\<forall>j < length (ptable s). state (ptable s ! j) \<noteq> UNUSED \<longrightarrow> pid (ptable s ! j) \<noteq> nextpid s) \<and>
    (if nextpid s < 2 ^ 31 - 1 then pids_ok t else nextpid t = - (2 ^ 31) \<and> \<not> pids_ok t) \<and>
    (\<forall>j < length (ptable s). j \<noteq> i \<longrightarrow> ptable t ! j = ptable s ! j) \<and> killed (ptable t ! i) = killed (ptable s ! i) \<and>
    (find_proc (\<lambda>p. pid p = 0) 0 (ptable s) = Some i \<longrightarrow>
      (\<exists>u v. kill 0 s = Done 0 u \<and> allocproc u = Done (Some i) v \<and> killed (ptable v ! i)))"
proof -
  have i: "i < length (ptable s)" "state (ptable s ! i) = UNUSED" "\<forall>j < i. state (ptable s ! j) \<noteq> UNUSED"
    using assms(5) by (simp_all add: find_proc_Some)
  obtain t where t: "allocproc s = Done (Some i) t" "nextpid t = wrap32 (nextpid s + 1)"
    "ptable t = (ptable s)[i := (ptable s ! i)\<lparr>state := EMBRYO, pid := nextpid s, kstack := k,
      ctx := \<lparr>cx_edi = 0, cx_esi = 0, cx_ebx = 0, cx_ebp = 0, cx_eip = forkret_addr s\<rparr>\<rparr>]"
    using allocproc_run [OF assms(1-3,5)] by blast
  have n: "0 < nextpid s" using assms(4) by (simp add: pids_ok_def)
  have fresh: "\<forall>j < length (ptable s). state (ptable s ! j) \<noteq> UNUSED \<longrightarrow> pid (ptable s ! j) \<noteq> nextpid s"
    using assms(4) unfolding pids_ok_def by (metis order_less_irrefl)
  have ok: "if nextpid s < 2 ^ 31 - 1 then pids_ok t else nextpid t = - (2 ^ 31) \<and> \<not> pids_ok t"
  proof (cases "nextpid s < 2 ^ 31 - 1")
    case True
    then have "nextpid t = nextpid s + 1" using t(2) n by (simp add: wrap32_id)
    from pids_ok_alloc [OF assms(4) _ this i(1)] True show ?thesis using i(1) t(3) by simp
  next
    case False
    then have "nextpid s = 2 ^ 31 - 1" using assms(6) by simp
    then have "nextpid t = - (2 ^ 31)" using t(2) by (simp add: wrap32_def)
    with False show ?thesis by (simp add: pids_ok_def)
  qed
  have "\<exists>u v. kill 0 s = Done 0 u \<and> allocproc u = Done (Some i) v \<and> killed (ptable v ! i)"
    if "find_proc (\<lambda>p. pid p = 0) 0 (ptable s) = Some i"
  proof -
    define u where "u = s\<lparr>ptable := (ptable s)[i := (ptable s ! i)\<lparr>killed := True, state := UNUSED\<rparr>]\<rparr>"
    have "kill 0 s = Done 0 u" using kill_run [OF assms(1), of 0] that i(2) by (simp add: u_def)
    moreover have "find_proc (\<lambda>p. state p = UNUSED) 0 (ptable u) = Some i"
      using i by (auto simp: find_proc_Some u_def)
    then have "\<exists>v. allocproc u = Done (Some i) v \<and> killed (ptable v ! i)"
      using allocproc_run [of u k ks i] assms(1-3) i(1) by (auto simp: u_def free_pages_def)
    ultimately show ?thesis by blast
  qed
  with t ok n fresh i(1) show ?thesis by simp
qed

text \<open>Process 1, a child of process 0, and its own child, a zombie, while process 0 waits and process 3 is init.\<close>

definition family :: vmst where
  "family = boot_vm\<lparr>held := {LPtable}, curproc := Some 1, initproc := Some 3, nextpid := 5, ptable :=
     [zero_proc\<lparr>state := SLEEPING, chan := Some (ChanProc 0), pid := 2, pgdir := 0x80001000\<rparr>,
      zero_proc\<lparr>state := RUNNING, pid := 3, parent := Some 0\<rparr>,
      zero_proc\<lparr>state := ZOMBIE, pid := 4, parent := Some 1\<rparr>,
      zero_proc\<lparr>state := SLEEPING, chan := Some (ChanProc 3), pid := 1\<rparr>,
      zero_proc]\<rparr>"

lemma zero_proc_fields: "state zero_proc = UNUSED" "pid zero_proc = 0" "parent zero_proc = None" "chan zero_proc = None" "\<not> killed zero_proc"
  by (simp_all add: zero_proc_def)

theorem exit_hands_over_witness:
  "\<exists>t. exit_finish family = Switched t \<and> state (ptable t ! 1) = ZOMBIE \<and> state (ptable t ! 0) = RUNNABLE \<and>
     state (ptable t ! 3) = RUNNABLE \<and> parent (ptable t ! 2) = Some 3"
proof -
  have f: "curproc family = Some 1" "1 < length (ptable family)" "held family = {LPtable}" "length (ptable family) = 5" by (simp_all add: family_def)
  obtain t where t: "exit_finish family = Switched t" "state (ptable t ! 1) = ZOMBIE"
    and at: "\<And>i. i < 5 \<Longrightarrow> parent (ptable t ! i) = (if parent (ptable family ! i) = Some 1 then initproc family else parent (ptable family ! i)) \<and>
      (i \<noteq> 1 \<longrightarrow> state (ptable t ! i) =
        (if state (ptable family ! i) = SLEEPING \<and>
            (\<exists>q. chan (ptable family ! i) = Some (ChanProc q) \<and> (parent (ptable family ! 1) = Some q \<or>
               initproc family = Some q \<and> (\<exists>p \<in> set (ptable family). parent p = Some 1 \<and> state p = ZOMBIE)))
         then RUNNABLE else state (ptable family ! i)))"
    using exit_hands_over [OF f(1-3)] unfolding f(4) by blast
  show ?thesis using t at [of 0] at [of 2] at [of 3] by (simp add: family_def zero_proc_fields)
qed

theorem wait_does_not_miss_exit_witness:
  "\<exists>v. exit_finish family = Switched v \<and> state (ptable v ! 0) = RUNNABLE"
proof -
  let ?s = "family\<lparr>held := {}, curproc := Some 0, ptable := (ptable family)[0 := zero_proc\<lparr>state := RUNNING, pid := 2\<rparr>]\<rparr>"
  have "curproc ?s = Some 0" "0 < length (ptable ?s)" "held ?s = {}" "\<not> killed (ptable ?s ! 0)"
    "\<exists>p \<in> set (ptable ?s). parent p = Some 0" "\<forall>p \<in> set (ptable ?s). parent p = Some 0 \<longrightarrow> state p \<noteq> ZOMBIE"
    "curproc family = Some 1" "1 < length (ptable family)" "1 \<noteq> (0 :: nat)" "held family = {LPtable}" "parent (ptable family ! 1) = Some 0"
    "0 < length (ptable family)" "state (ptable family ! 0) = SLEEPING" "chan (ptable family ! 0) = Some (ChanProc 0)"
    by (simp_all add: family_def zero_proc_fields)
  from wait_does_not_miss_exit [OF this] show ?thesis by blast
qed

theorem allocproc_fresh_pid_witness:
  "\<exists>t u v. allocproc (family\<lparr>held := {}\<rparr>) = Done (Some 4) t \<and> pid (ptable t ! 4) = 5 \<and> pids_ok t \<and>
     kill 0 (family\<lparr>held := {}\<rparr>) = Done 0 u \<and> allocproc u = Done (Some 4) v \<and> killed (ptable v ! 4)"
proof -
  let ?s = "family\<lparr>held := {}\<rparr>"
  have s: "LPtable \<notin> held ?s" "LKmem \<notin> held ?s" "nextpid ?s = 5" "nextpid ?s < 2 ^ 31" by (simp_all add: family_def)
  have fp: "free_pages ?s [0x8DFFE000]" using boot_vm_inv(1) by (simp add: free_pages_def family_def)
  have find: "find_proc (\<lambda>p. state p = UNUSED) 0 (ptable ?s) = Some 4" "find_proc (\<lambda>p. pid p = 0) 0 (ptable ?s) = Some 4"
    by (simp_all add: family_def zero_proc_fields)
  have "pids_ok ?s" by (auto simp: pids_ok_def family_def zero_proc_fields less_Suc_eq numeral_eq_Suc)
  from allocproc_fresh_pid [OF s(1,2) fp this find(1) s(4)] find(2) s(3) show ?thesis by auto
qed

end
