(* ===== verification/Filerefs.thy ===== *)
theory Filerefs
  imports File
begin

text \<open>
  The reference counts of the open file table (\<^verbatim>\<open>file.c\<close>): a slot is free exactly if its count is 0, and what a file
  refers to is given up exactly when the last reference goes.
\<close>

section \<open>Behaviour\<close>

definition ftable_ok :: "'z filest_scheme \<Rightarrow> bool" where
  "ftable_ok s \<longleftrightarrow> (\<forall>x \<in> set (ftable s). 0 \<le> f_ref x \<and> (f_ref x = 0 \<longrightarrow> f_type x = FD_NONE))"

lemma filealloc_run:
  assumes "LFtable \<notin> held s"
  shows "filealloc s = (case find (\<lambda>f. f_ref (ftable s ! f) = 0) [0..<length (ftable s)] of
      Some f \<Rightarrow> Done (Some f) (s\<lparr>ftable := (ftable s)[f := (ftable s ! f)\<lparr>f_ref := 1\<rparr>]\<rparr>)
    | None \<Rightarrow> Done None s)"
proof (cases "find (\<lambda>f. f_ref (ftable s ! f) = 0) [0..<length (ftable s)]")
  case None
  then show ?thesis using assms by (simp add: filealloc_def bd_run acquire_run release_run insert_Diff_if)
next
  case (Some f)
  then have "f < length (ftable s)" by (auto dest: find_SomeD)
  with Some show ?thesis using assms by (simp add: filealloc_def fmod_def bd_run acquire_run release_run insert_Diff_if)
qed

lemma filedup_run:
  assumes "LFtable \<notin> held s" and "f < length (ftable s)"
  shows "filedup f s = (if f_ref (ftable s ! f) < 1 then Panicked ''filedup''
    else Done f (s\<lparr>ftable := (ftable s)[f := (ftable s ! f)\<lparr>f_ref := f_ref (ftable s ! f) + 1\<rparr>]\<rparr>))"
  using assms by (simp add: filedup_def fgets_def fmod_def bd_run acquire_run release_run insert_Diff_if)

lemma fileclose_run:
  assumes "LFtable \<notin> held s" and "f < length (ftable s)"
  shows "fileclose f s = (if f_ref (ftable s ! f) < 1 then Panicked ''fileclose''
    else if f_ref (ftable s ! f) > 1 then Done () (s\<lparr>ftable := (ftable s)[f := (ftable s ! f)\<lparr>f_ref := f_ref (ftable s ! f) - 1\<rparr>]\<rparr>)
    else fileclose_last ((ftable s ! f)\<lparr>f_ref := 0\<rparr>)
      (s\<lparr>ftable := (ftable s)[f := (ftable s ! f)\<lparr>f_ref := 0, f_type := FD_NONE\<rparr>]\<rparr>))"
proof (cases "f_ref (ftable s ! f) < 1 \<or> f_ref (ftable s ! f) > 1")
  case True
  then show ?thesis using assms by (auto simp: fileclose_def fgets_def fmod_def bd_run acquire_run release_run insert_Diff_if)
next
  case False
  then have "f_ref (ftable s ! f) = 1" by simp
  then show ?thesis using assms by (simp add: fileclose_def fgets_def fmod_def bd_run acquire_run release_run insert_Diff_if)
qed

lemma ftable_ok_upd:
  "ftable_ok s \<Longrightarrow> 0 \<le> f_ref x \<Longrightarrow> (f_ref x = 0 \<longrightarrow> f_type x = FD_NONE) \<Longrightarrow> ftable_ok (s\<lparr>ftable := (ftable s)[f := x]\<rparr>)"
  using set_update_subset_insert [of "ftable s" f x] by (auto simp: ftable_ok_def)

lemma filealloc_first:
  assumes "ftable_ok s" and "LFtable \<notin> held s"
  shows "case filealloc s of
      Done (Some g) t \<Rightarrow> g < length (ftable s) \<and> f_ref (ftable s ! g) = 0 \<and> (\<forall>h < g. f_ref (ftable s ! h) > 0) \<and> f_ref (ftable t ! g) = 1 \<and>
        ftable_ok t \<and> held t = held s
    | Done None t \<Rightarrow> t = s \<and> (\<forall>g < length (ftable s). f_ref (ftable s ! g) > 0)
    | _ \<Rightarrow> False"
proof -
  have pos: "0 < f_ref (ftable s ! h)" if "h < length (ftable s)" "f_ref (ftable s ! h) \<noteq> 0" for h
    using assms(1) that by (auto simp: ftable_ok_def order_le_less all_set_conv_all_nth)
  show ?thesis
  proof (cases "find (\<lambda>f. f_ref (ftable s ! f) = 0) [0..<length (ftable s)]")
    case None
    moreover from this have "\<forall>g < length (ftable s). f_ref (ftable s ! g) \<noteq> 0" by (simp add: find_None_iff)
    then have "\<forall>g < length (ftable s). 0 < f_ref (ftable s ! g)" using pos by simp
    ultimately show ?thesis using filealloc_run [OF assms(2)] by simp
  next
    case (Some g)
    then have g: "g < length (ftable s)" "f_ref (ftable s ! g) = 0" "\<forall>h < g. f_ref (ftable s ! h) \<noteq> 0"
      by (auto simp: find_Some_iff)
    then have "\<forall>h < g. 0 < f_ref (ftable s ! h)" using pos by simp
    with g Some show ?thesis using filealloc_run [OF assms(2)] ftable_ok_upd [OF assms(1)] by simp
  qed
qed

section \<open>Properties\<close>

text \<open>
  C23: The open file table. With the table well formed, \<^verbatim>\<open>filealloc\<close> hands out the first slot without references, and none exactly
  if all are in use. Each \<^verbatim>\<open>filedup\<close> needs one \<^verbatim>\<open>fileclose\<close> more: closing a file with several references only counts
  down, closing it with one frees the slot and gives up, once, the pipe end or inode it stood for, and using a slot without references panics. All three keep the
  table well formed and leave its lock as it was.
\<close>

theorem file_references:
  assumes "ftable_ok s" and "LFtable \<notin> held s" and "f < length (ftable s)"
  shows "(case filealloc s of
      Done (Some g) t \<Rightarrow> g < length (ftable s) \<and> f_ref (ftable s ! g) = 0 \<and> (\<forall>h < g. f_ref (ftable s ! h) > 0) \<and> f_ref (ftable t ! g) = 1 \<and>
        ftable_ok t \<and> held t = held s
    | Done None t \<Rightarrow> t = s \<and> (\<forall>g < length (ftable s). f_ref (ftable s ! g) > 0)
    | _ \<Rightarrow> False) \<and>
    (if f_ref (ftable s ! f) = 0 then filedup f s = Panicked ''filedup'' \<and> fileclose f s = Panicked ''fileclose''
     else (\<exists>t. filedup f s = Done f t \<and> fileclose f t = Done () s \<and> ftable_ok t) \<and>
       (if f_ref (ftable s ! f) > 1
        then \<exists>t. fileclose f s = Done () t \<and> f_ref (ftable t ! f) = f_ref (ftable s ! f) - 1 \<and> ftable_ok t \<and> held t = held s
        else \<exists>t. fileclose f s = fileclose_last ((ftable s ! f)\<lparr>f_ref := 0\<rparr>) t \<and> f_ref (ftable t ! f) = 0 \<and> ftable_ok t \<and> held t = held s))"
proof (intro conjI)
  let ?r = "f_ref (ftable s ! f)"
  have r0: "0 \<le> ?r" using assms(1,3) by (simp add: ftable_ok_def all_set_conv_all_nth)
  note upd = ftable_ok_upd [OF assms(1)]
  let ?d = "s\<lparr>ftable := (ftable s)[f := (ftable s ! f)\<lparr>f_ref := ?r + 1\<rparr>]\<rparr>"
  have same: "(ftable s ! f)\<lparr>f_ref := ?r\<rparr> = ftable s ! f" by simp
  have dup: "filedup f s = Done f ?d \<and> fileclose f ?d = Done () s \<and> ftable_ok ?d" if "?r \<noteq> 0"
    using that r0 filedup_run [OF assms(2,3)] fileclose_run [of ?d f] assms(2,3) upd by (simp add: same)
  show refs: "if ?r = 0 then filedup f s = Panicked ''filedup'' \<and> fileclose f s = Panicked ''fileclose''
     else (\<exists>t. filedup f s = Done f t \<and> fileclose f t = Done () s \<and> ftable_ok t) \<and>
       (if ?r > 1
        then \<exists>t. fileclose f s = Done () t \<and> f_ref (ftable t ! f) = ?r - 1 \<and> ftable_ok t \<and> held t = held s
        else \<exists>t. fileclose f s = fileclose_last ((ftable s ! f)\<lparr>f_ref := 0\<rparr>) t \<and> f_ref (ftable t ! f) = 0 \<and> ftable_ok t \<and> held t = held s)"
    using dup r0 filedup_run [OF assms(2,3)] fileclose_run [OF assms(2,3)] assms(3) upd by auto
qed (rule filealloc_first [OF assms(1,2)])

text \<open>One file with two references and a free slot.\<close>

definition two_files :: filest where
  "two_files = pipest.extend boot_pipes (filest.fields
     [\<lparr>f_type = FD_INODE, f_ref = 2, f_readable = True, f_writable = True, f_pipe = 0, f_ip = 0, f_off = 0\<rparr>,
      \<lparr>f_type = FD_NONE, f_ref = 0, f_readable = False, f_writable = False, f_pipe = 0, f_ip = 0, f_off = 0\<rparr>])"

theorem file_references_witness:
  "\<exists>t u. fileclose 0 two_files = Done () t \<and> f_ref (ftable t ! 0) = 1 \<and> filealloc two_files = Done (Some 1) u"
proof -
  have f: "ftable two_files = [\<lparr>f_type = FD_INODE, f_ref = 2, f_readable = True, f_writable = True, f_pipe = 0, f_ip = 0, f_off = 0\<rparr>,
      \<lparr>f_type = FD_NONE, f_ref = 0, f_readable = False, f_writable = False, f_pipe = 0, f_ip = 0, f_off = 0\<rparr>]"
    "held two_files = {}"
    using boot_pipes_fields(1) by (simp_all add: two_files_def pipest.defs filest.defs)
  have "ftable_ok two_files" by (auto simp: ftable_ok_def f less_Suc_eq)
  from file_references [OF this, of 0] show ?thesis
    by (auto simp: f less_Suc_eq split: outcome.splits option.splits)
qed

end
