(* ===== verification/Ulib.thy ===== *)
theory Ulib
  imports CString
begin

text \<open>
  The C library of the user programs, \<^verbatim>\<open>ulib.c\<close> and \<^verbatim>\<open>printf.c\<close>. A NUL-terminated string is the
  list of its characters before the NUL, and a pointer into it is the suffix it points to;
  \<^verbatim>\<open>strcpy\<close>, \<^verbatim>\<open>memset\<close> and \<^verbatim>\<open>memmove\<close>, which write, work on byte-addressed memory. What a program
  writes to a file descriptor is the string of the characters written.
\<close>

section \<open>Definitions\<close>

definition NUL :: char where "NUL = CHR 0x00"

partial_function (option) strcpy :: "mem \<Rightarrow> u32 \<Rightarrow> u32 \<Rightarrow> mem option" where
  "strcpy m s t =
     (let m' = m(s := m t) in if m t \<noteq> 0 then strcpy m' (s + 1) (t + 1) else Some m')"

fun ustrcmp :: "string \<Rightarrow> string \<Rightarrow> int" where
  "ustrcmp [] [] = 0"
| "ustrcmp [] (d # q) = 0 - int (of_char d)"
| "ustrcmp (c # p) [] = int (of_char c)"
| "ustrcmp (c # p) (d # q) = (if c = d then ustrcmp p q else int (of_char c) - int (of_char d))"

fun ustrlen :: "string \<Rightarrow> nat" where
  "ustrlen [] = 0"
| "ustrlen (c # s) = Suc (ustrlen s)"

definition umemset :: "mem \<Rightarrow> u32 \<Rightarrow> u8 \<Rightarrow> u32 \<Rightarrow> mem" where
  "umemset m dst c n = stosb m dst c (unat n)"

fun strchr :: "string \<Rightarrow> char \<Rightarrow> string option" where
  "strchr [] c = None"
| "strchr (x # s) c = (if x = c then Some (x # s) else strchr s c)"

text \<open>
  \<^verbatim>\<open>gets\<close> reads its input, here a string, a character at a time; an exhausted input is the end of
  file. The result is the line and the rest of the input.
\<close>

fun gets_loop :: "nat \<Rightarrow> string \<Rightarrow> string \<times> string" where
  "gets_loop 0 inp = ([], inp)"
| "gets_loop (Suc k) [] = ([], [])"
| "gets_loop (Suc k) (c # inp) =
     (if c = CHR 0x0A \<or> c = CHR 0x0D then ([c], inp)
      else let (l, rest) = gets_loop k inp in (c # l, rest))"

definition ugets :: "nat \<Rightarrow> string \<Rightarrow> string \<times> string" where
  "ugets nbuf inp = gets_loop (nbuf - 1) inp"

text \<open>\<^verbatim>\<open>atoi\<close> computes in \<^verbatim>\<open>int\<close>, which wraps around.\<close>

definition digit :: "char \<Rightarrow> bool" where
  "digit c \<longleftrightarrow> 48 \<le> (of_char c :: nat) \<and> (of_char c :: nat) \<le> 57"

fun atoi_loop :: "u32 \<Rightarrow> string \<Rightarrow> u32" where
  "atoi_loop n [] = n"
| "atoi_loop n (c # s) = (if digit c then atoi_loop (n * 10 + of_nat (of_char c) - 48) s else n)"

definition atoi :: "string \<Rightarrow> u32" where
  "atoi s = atoi_loop 0 s"

definition umemmove :: "mem \<Rightarrow> u32 \<Rightarrow> u32 \<Rightarrow> int \<Rightarrow> mem" where
  "umemmove m dst src n = copy_fwd m dst src (nat n)"

text \<open>\<^verbatim>\<open>printf.c\<close>. The digits come least significant first.\<close>

definition udigit :: "nat \<Rightarrow> char" where
  "udigit d = ''0123456789ABCDEF'' ! d"

function udigits :: "nat \<Rightarrow> nat \<Rightarrow> string" where
  "udigits base x =
     udigit (x mod base) # (if x div base \<noteq> 0 \<and> 1 < base then udigits base (x div base) else [])"
  by pat_completeness auto
termination by (relation "measure snd") (auto simp: div_eq_0_iff)

declare udigits.simps [simp del]

definition uprintint :: "u32 \<Rightarrow> nat \<Rightarrow> bool \<Rightarrow> string" where
  "uprintint xx base sg =
     (let neg = sg \<and> sint xx < 0;
          x = (if neg then - xx else xx);
          buf = udigits base (unat x) @ (if neg then ''-'' else '''')
      in rev buf)"

datatype uarg = UInt u32 | UStr "string option"

text \<open>
  \<open>uprintf_from st fmt args\<close>: the rest of \<^verbatim>\<open>printf\<close>, where \<open>st\<close> tells that a \<^verbatim>\<open>%\<close> has been seen. A missing
  argument or one of the wrong kind is undefined behaviour: \<open>None\<close>.
\<close>

fun uprintf_from :: "bool \<Rightarrow> string \<Rightarrow> uarg list \<Rightarrow> string option" where
  "uprintf_from st [] args = Some []"
| "uprintf_from st (c # fmt) args =
     (if \<not> st then
        (if c = CHR ''%'' then uprintf_from True fmt args
         else map_option ((#) c) (uprintf_from False fmt args))
      else if c = CHR ''d'' then
        (case args of UInt x # rest \<Rightarrow> map_option ((@) (uprintint x 10 True)) (uprintf_from False fmt rest) | _ \<Rightarrow> None)
      else if c = CHR ''x'' \<or> c = CHR ''p'' then
        (case args of UInt x # rest \<Rightarrow> map_option ((@) (uprintint x 16 False)) (uprintf_from False fmt rest) | _ \<Rightarrow> None)
      else if c = CHR ''s'' then
        (case args of
           UStr (Some s) # rest \<Rightarrow> map_option ((@) s) (uprintf_from False fmt rest)
         | UStr None # rest \<Rightarrow> map_option ((@) ''(null)'') (uprintf_from False fmt rest)
         | _ \<Rightarrow> None)
      else if c = CHR ''c'' then
        (case args of UInt x # rest \<Rightarrow> map_option ((#) (char_of (unat x mod 256))) (uprintf_from False fmt rest) | _ \<Rightarrow> None)
      else if c = CHR ''%'' then map_option ((#) c) (uprintf_from False fmt args)
      else map_option (\<lambda>r. CHR ''%'' # c # r) (uprintf_from False fmt args))"

definition uprintf :: "string \<Rightarrow> uarg list \<Rightarrow> string option" where
  "uprintf fmt args = uprintf_from False fmt args"

section \<open>Properties\<close>

lemma strchr_eq_None [simp]: "strchr s c = None \<longleftrightarrow> c \<notin> set s"
  by (induction s) auto

lemma strchr_Some: "strchr s c = Some t \<Longrightarrow> \<exists>p u. s = p @ c # u \<and> c \<notin> set p \<and> t = c # u"
proof (induction s)
  case (Cons x s)
  show ?case
  proof (cases "x = c")
    case True
    with Cons(2) have "x # s = [] @ c # s \<and> c \<notin> set [] \<and> t = c # s" by simp
    then show ?thesis by blast
  next
    case False
    with Cons obtain p u where "s = p @ c # u" "c \<notin> set p" "t = c # u" by auto
    with False have "x # s = (x # p) @ c # u \<and> c \<notin> set (x # p) \<and> t = c # u" by simp
    then show ?thesis by blast
  qed
qed simp

lemma strchr_append: "c \<notin> set p \<Longrightarrow> strchr (p @ c # u) c = Some (c # u)"
  by (induction p) auto

lemma of_char_0: "of_char c = (0 :: nat) \<longleftrightarrow> c = NUL"
proof -
  have "of_char c = (of_char NUL :: nat) \<longleftrightarrow> c = NUL" by (rule of_char_eq_iff)
  then show ?thesis by (simp add: NUL_def)
qed

lemma ustrcmp_0: "NUL \<notin> set p \<Longrightarrow> NUL \<notin> set q \<Longrightarrow> ustrcmp p q = 0 \<longleftrightarrow> p = q"
  by (induction p q rule: ustrcmp.induct) (auto simp: of_char_0)

lemma udigit_char:
  assumes "d < 10"
  shows "of_char (udigit d) = (48 + d :: nat)"
proof -
  have "d = 0 \<or> d = 1 \<or> d = 2 \<or> d = 3 \<or> d = 4 \<or> d = 5 \<or> d = 6 \<or> d = 7 \<or> d = 8 \<or> d = 9"
    using assms by presburger
  then show ?thesis by (elim disjE) (simp_all add: udigit_def)
qed

lemma udigit_digit: "d < 10 \<Longrightarrow> digit (udigit d)"
  by (simp add: digit_def udigit_char)

lemma udigits_digits: "list_all digit (udigits 10 n)"
proof (induction "10 :: nat" n rule: udigits.induct)
  case (1 n)
  then show ?case by (subst udigits.simps) (auto simp: udigit_digit)
qed

lemma atoi_loop_append: "list_all digit s \<Longrightarrow> atoi_loop n (s @ t) = atoi_loop (atoi_loop n s) t"
  by (induction s arbitrary: n) auto

lemma atoi_udigits: "atoi (rev (udigits 10 n)) = of_nat n"
proof (induction "10 :: nat" n rule: udigits.induct)
  case (1 n)
  have last: "atoi_loop m [udigit (n mod 10)] = m * 10 + of_nat (n mod 10)" for m
    by (simp add: udigit_digit udigit_char)
  have n: "of_nat n = (of_nat (n div 10) * 10 + of_nat (n mod 10) :: u32)"
    by (metis div_mult_mod_eq of_nat_add of_nat_mult of_nat_numeral)
  show ?case
  proof (cases "n div 10 = 0")
    case True
    then show ?thesis using n last [of 0] by (subst udigits.simps) (simp add: atoi_def)
  next
    case False
    have "udigits 10 n = udigit (n mod 10) # udigits 10 (n div 10)"
      using False by (subst udigits.simps) simp
    then have "atoi (rev (udigits 10 n)) = atoi (rev (udigits 10 (n div 10))) * 10 + of_nat (n mod 10)"
      using udigits_digits [of "n div 10"] by (simp add: atoi_def atoi_loop_append list_all_rev last del: atoi_loop.simps)
    also have "\<dots> = of_nat n" using 1 False n by simp
    finally show ?thesis .
  qed
qed

lemma udigits_length: "n < 10 ^ k \<Longrightarrow> 0 < k \<Longrightarrow> length (udigits 10 n) \<le> k"
proof (induction k arbitrary: n)
  case (Suc k)
  show ?case
  proof (cases "n div 10 = 0")
    case True
    then show ?thesis by (subst udigits.simps) simp
  next
    case False
    have "n div 10 < 10 ^ k" using Suc(2) by (simp add: less_mult_imp_div_less mult.commute)
    moreover from this False have "0 < k" by (cases k) auto
    ultimately show ?thesis using Suc(1) [of "n div 10"] False by (subst udigits.simps) simp
  qed
qed simp

text \<open>
  C39: reading a printed number. For every \<^verbatim>\<open>int\<close> that is not negative, \<^verbatim>\<open>atoi\<close> applied to what \<^verbatim>\<open>printf\<close> prints for it
  with \<^verbatim>\<open>%d\<close> gives the number back. For a negative one the text is a minus sign and the digits of its magnitude; \<^verbatim>\<open>atoi\<close> does not
  know the sign and gives 0 for the text, but reads the magnitude from what follows the sign. There are at most ten digits,
  so the text always fits the buffer of \<^verbatim>\<open>printint\<close>.
\<close>

theorem atoi_reads_printed:
  "\<exists>t. uprintf ''%d'' [UInt x] = Some t \<and>
     (if 0 \<le> sint x then atoi t = x \<and> length t \<le> 10
      else atoi t = 0 \<and> (\<exists>u. t = CHR ''-'' # u \<and> atoi u = - x \<and> length u \<le> 10))"
proof -
  have len: "length (rev (udigits 10 (unat (y :: u32)))) \<le> 10" for y
    using unat_less_u32 [of y] by (simp add: udigits_length)
  have r: "atoi (rev (udigits 10 (unat (y :: u32)))) = y" for y by (simp add: atoi_udigits)
  show ?thesis
  proof (cases "0 \<le> sint x")
    case True
    then have "uprintf ''%d'' [UInt x] = Some (rev (udigits 10 (unat x)))" by (simp add: uprintf_def uprintint_def)
    with True len [of x] r [of x] show ?thesis by auto
  next
    case False
    let ?u = "rev (udigits 10 (unat (- x)))"
    have "uprintf ''%d'' [UInt x] = Some (CHR ''-'' # ?u)" using False by (simp add: uprintf_def uprintint_def)
    moreover have "atoi (CHR ''-'' # ?u) = 0" by (simp add: atoi_def digit_def)
    ultimately show ?thesis using False len [of "- x"] r [of "- x"] by auto
  qed
qed

end
