(* ===== verification/Sh.thy ===== *)
theory Sh
  imports Ulib
begin

text \<open>
  \<^verbatim>\<open>sh.c\<close>, the command parser of the shell. The line being parsed is a string without NUL
  characters, followed in memory by its NUL; a pointer into it is an index. \<^verbatim>\<open>*ps\<close>, the
  place the parser has reached, is the state of the operations, and the shell's \<^verbatim>\<open>panic\<close>
  (print a message and exit) is the outcome \<open>Panicked\<close>. A command is a tree whose words
  are pairs of pointers into the line until \<^verbatim>\<open>nulterminate\<close> cuts the words off in place.
  The parser is shown to return on every line, to keep its words inside the line and to be the
  inverse of a printer. The tree nodes come from \<^verbatim>\<open>malloc\<close>, which is taken to succeed.
\<close>

section \<open>Definitions\<close>

definition MAXARGS :: nat where "MAXARGS = 10"

text \<open>
  A command over words of some type: pairs of pointers (a word of \<^verbatim>\<open>argv\<close> and its end in
  \<^verbatim>\<open>eargv\<close>, \<^verbatim>\<open>file\<close> and \<^verbatim>\<open>efile\<close>) in the parser, strings once the words are cut off.
\<close>

datatype 'w cmd =
    EXEC "'w list"
  | REDIR "'w cmd" 'w u32 nat
  | PIPE "'w cmd" "'w cmd"
  | LIST "'w cmd" "'w cmd"
  | BACK "'w cmd"

type_synonym ptrcmd = "(nat \<times> nat) cmd"

definition execcmd :: ptrcmd where [simp]: "execcmd = EXEC []"

definition redircmd :: "ptrcmd \<Rightarrow> nat \<Rightarrow> nat \<Rightarrow> u32 \<Rightarrow> nat \<Rightarrow> ptrcmd" where
  [simp]: "redircmd subcmd f ef mode fd = REDIR subcmd (f, ef) mode fd"

definition pipecmd :: "ptrcmd \<Rightarrow> ptrcmd \<Rightarrow> ptrcmd" where [simp]: "pipecmd left right = PIPE left right"
definition listcmd :: "ptrcmd \<Rightarrow> ptrcmd \<Rightarrow> ptrcmd" where [simp]: "listcmd left right = LIST left right"
definition backcmd :: "ptrcmd \<Rightarrow> ptrcmd" where [simp]: "backcmd subcmd = BACK subcmd"

definition whitespace :: string where "whitespace = [CHR '' '', CHR 0x09, CHR 0x0D, CHR 0x0A, CHR 0x0B]"
definition symbols :: string where "symbols = ''<|>&;()''"

definition at :: "string \<Rightarrow> nat \<Rightarrow> char" where
  "at b s = (if s < length b then b ! s else NUL)"

text \<open>The two inner loops of \<^verbatim>\<open>gettoken\<close>: skip white space, and skip a word.\<close>

function skip_white :: "string \<Rightarrow> nat \<Rightarrow> nat" where
  "skip_white b s =
     (if s < length b \<and> strchr whitespace (at b s) \<noteq> None then skip_white b (Suc s) else s)"
  by pat_completeness auto
termination by (relation "measure (\<lambda>(b, s). length b - s)") auto

function skip_word :: "string \<Rightarrow> nat \<Rightarrow> nat" where
  "skip_word b s =
     (if s < length b \<and> strchr whitespace (at b s) = None \<and> strchr symbols (at b s) = None
      then skip_word b (Suc s) else s)"
  by pat_completeness auto
termination by (relation "measure (\<lambda>(b, s). length b - s)") auto

declare skip_white.simps [simp del] skip_word.simps [simp del]

text \<open>\<^verbatim>\<open>gettoken\<close> returns the kind of the token and the two ends of its text.\<close>

definition gettoken :: "string \<Rightarrow> (nat, char \<times> nat \<times> nat) kop" where
  "gettoken b s =
     (let q = skip_white b s;
          c = at b q;
          (r, e) =
            (if c = NUL then (c, q)
             else if c \<in> {CHR ''|'', CHR ''('', CHR '')'', CHR '';'', CHR ''&'', CHR ''<''} then (c, Suc q)
             else if c = CHR ''>''
             then (if at b (Suc q) = CHR ''>'' then (CHR ''+'', Suc (Suc q)) else (c, Suc q))
             else (CHR ''a'', skip_word b q))
      in Done (r, q, e) (skip_white b e))"

definition peek :: "string \<Rightarrow> string \<Rightarrow> (nat, bool) kop" where
  "peek b toks s =
     (let s = skip_white b s in Done (at b s \<noteq> NUL \<and> strchr toks (at b s) \<noteq> None) s)"

lemma skip_white_le: "s \<le> skip_white b s"
proof (induction b s rule: skip_white.induct)
  case (1 b s)
  show ?case by (subst skip_white.simps) (use 1 in \<open>auto dest: Suc_leD\<close>)
qed

lemma skip_word_le: "s \<le> skip_word b s"
proof (induction b s rule: skip_word.induct)
  case (1 b s)
  show ?case by (subst skip_word.simps) (use 1 in \<open>auto dest: Suc_leD\<close>)
qed

lemma at_NUL: "at b s \<noteq> NUL \<Longrightarrow> s < length b"
  by (simp add: at_def split: if_splits)

lemma peek_Done: "peek b toks s = Done p t \<longleftrightarrow>
    t = skip_white b s \<and> (p \<longleftrightarrow> at b t \<noteq> NUL \<and> strchr toks (at b t) \<noteq> None)"
  by (auto simp: peek_def Let_def)

lemma skip_white_less: "s < length b \<Longrightarrow> strchr whitespace (at b s) \<noteq> None \<Longrightarrow> s < skip_white b s"
  using skip_white_le [of "Suc s" b] by (subst skip_white.simps) simp

lemma skip_word_less:
  "s < length b \<Longrightarrow> strchr whitespace (at b s) = None \<Longrightarrow> strchr symbols (at b s) = None \<Longrightarrow> s < skip_word b s"
  using skip_word_le [of "Suc s" b] by (subst skip_word.simps) simp

lemma gettoken_le: "gettoken b s = Done r t \<Longrightarrow> s \<le> t"
  using skip_white_le [of s b] skip_word_le [of "skip_white b s" b]
  by (auto simp: gettoken_def Let_def split: if_splits intro: order_trans [OF _ skip_white_le])

lemma whitespace_neq: "strchr whitespace c \<noteq> None \<Longrightarrow> strchr symbols c = None"
  by (auto simp: whitespace_def symbols_def split: if_splits)

lemma skip_white_stops: "skip_white b s < length b \<Longrightarrow> strchr whitespace (at b (skip_white b s)) = None"
proof (induction b s rule: skip_white.induct)
  case (1 b s)
  show ?case
  proof (cases "s < length b \<and> strchr whitespace (at b s) \<noteq> None")
    case True
    then have "skip_white b s = skip_white b (Suc s)" by (subst skip_white.simps) simp
    with 1 True show ?thesis by simp
  next
    case False
    then have "skip_white b s = s" by (subst skip_white.simps) auto
    with 1 False show ?thesis by auto
  qed
qed

text \<open>A token that is not the end of the line takes at least one character of it.\<close>

lemma gettoken_less:
  assumes "gettoken b s = Done r t" and "at b (skip_white b s) \<noteq> NUL"
  shows "s < t"
proof -
  let ?q = "skip_white b s"
  have q: "?q < length b" using assms(2) by (rule at_NUL)
  have w: "strchr whitespace (at b ?q) = None" using skip_white_stops [OF q] .
  have "strchr symbols (at b ?q) = None \<Longrightarrow> ?q < skip_word b ?q"
    using skip_word_less [OF q w] .
  then have "\<exists>e. ?q < e \<and> t = skip_white b e"
    using assms by (auto simp: gettoken_def Let_def symbols_def split: if_splits intro: lessI less_SucI)
  then show ?thesis using skip_white_le [of s b] skip_white_le [of _ b] by (meson order.strict_trans1 order.strict_trans2)
qed

section \<open>The parser\<close>

text \<open>
  \<^verbatim>\<open>parseexec\<close> keeps a pointer to the innermost node of the tree it returns, an \<^verbatim>\<open>EXEC\<close>, while
  \<^verbatim>\<open>parseredirs\<close> wraps redirections around it; \<open>add_arg\<close> stores the next argument through that
  pointer.
\<close>

fun add_arg :: "'w \<Rightarrow> 'w cmd \<Rightarrow> 'w cmd" where
  "add_arg a (EXEC av) = EXEC (av @ [a])"
| "add_arg a (REDIR c w mode fd) = REDIR (add_arg a c) w mode fd"
| "add_arg a c = c"

function parseredirs :: "string \<Rightarrow> ptrcmd \<Rightarrow> (nat, ptrcmd) kop" where
  "parseredirs b cmd s =
     bd (peek b ''<>'') (\<lambda>p.
       if p then
         bd (gettoken b) (\<lambda>(tok, _, _).
         bd (gettoken b) (\<lambda>(tok', q, eq).
         if tok' \<noteq> CHR ''a'' then panic ''missing file for redirection''
         else if tok = CHR ''<'' then parseredirs b (redircmd cmd q eq O_RDONLY 0)
         else if tok = CHR ''>'' then parseredirs b (redircmd cmd q eq (O_WRONLY OR O_CREATE) 1)
         else if tok = CHR ''+'' then parseredirs b (redircmd cmd q eq (O_WRONLY OR O_CREATE) 1)
         else parseredirs b cmd))
       else ret cmd) s"
  by pat_completeness auto

text \<open>After a successful \<^verbatim>\<open>peek\<close> the next token is a real one.\<close>

lemma peeked:
  assumes "peek b toks s = Done True t" and "gettoken b t = Done r u"
  shows "s \<le> t \<and> t < length b \<and> t < u"
proof -
  have t: "t = skip_white b s" "at b t \<noteq> NUL" using assms(1) by (auto simp: peek_Done)
  have "skip_white b t = t" using t skip_white_stops [of b s] at_NUL [of b t] by (subst skip_white.simps) simp
  then have "t < u" using t gettoken_less [OF assms(2)] by simp
  moreover have "s \<le> t" using t skip_white_le by simp
  ultimately show ?thesis using t at_NUL by simp
qed

lemma peek_le: "peek b toks s = Done p t \<Longrightarrow> s \<le> t"
  using skip_white_le by (simp add: peek_Done)

lemma parse_step:
  assumes "peek b toks s = Done True t" and "gettoken b t = Done r u" and "u \<le> v"
  shows "length b - v < length b - s"
  using peeked [OF assms(1,2)] assms(3) by linarith

termination parseredirs
  by (relation "measure (\<lambda>(b, c, s). length b - s)") (auto intro: parse_step gettoken_le)

declare parseredirs.simps [simp del]

text \<open>Computation induction of the loops, by what is left of the line.\<close>

lemma line_induct:
  fixes b :: string and s :: nat
  assumes "\<And>c s. (\<And>c' t. length b - t < length b - s \<Longrightarrow> P c' t) \<Longrightarrow> P c s"
  shows "P c s"
  by (induction "length b - s" arbitrary: c s rule: less_induct) (rule assms, simp)

lemma parseredirs_le: "yields (parseredirs b c) s (\<lambda>_ t. s \<le> t)"
proof (induction c s rule: line_induct [of b])
  case (1 c s)
  have IH: "yields (parseredirs b c') v (\<lambda>_ t. s \<le> t)"
    if "peek b ''<>'' s = Done True u" "gettoken b u = Done x w" "gettoken b w = Done y v" for u x w y v c'
    using yields_mono [OF 1 [OF parse_step [OF that(1,2) gettoken_le [OF that(3)]]], of "\<lambda>_ t. s \<le> t"]
      peek_le [OF that(1)] gettoken_le [OF that(2)] gettoken_le [OF that(3)] by simp
  show ?case
    by (rule yields_unfold, rule parseredirs.simps, intro yields_bd)
      (auto intro!: yields_bd IH dest: peek_le)
qed

text \<open>The loop of \<^verbatim>\<open>parseline\<close> over ampersands.\<close>

function parsebacks :: "string \<Rightarrow> ptrcmd \<Rightarrow> (nat, ptrcmd) kop" where
  "parsebacks b cmd s =
     bd (peek b ''&'') (\<lambda>p.
       if p then bd (gettoken b) (\<lambda>_. parsebacks b (backcmd cmd)) else ret cmd) s"
  by pat_completeness auto
termination parsebacks
  by (relation "measure (\<lambda>(b, c, s). length b - s)") (auto intro: parse_step)

text \<open>The loop of \<^verbatim>\<open>parseexec\<close> over the words of a simple command.\<close>

function parseargs :: "string \<Rightarrow> ptrcmd \<Rightarrow> nat \<Rightarrow> (nat, ptrcmd) kop" where
  "parseargs b cmd argc s =
     bd (peek b ''|)&;'') (\<lambda>p.
       if \<not> p then
         bd (gettoken b) (\<lambda>(tok, q, eq).
           if tok = NUL then ret cmd
           else if tok \<noteq> CHR ''a'' then panic ''syntax''
           else if argc + 1 \<ge> MAXARGS then panic ''too many args''
           else bd (parseredirs b (add_arg (q, eq) cmd)) (\<lambda>cmd.
                parseargs b cmd (argc + 1)))
       else ret cmd) s"
  by pat_completeness auto
termination parseargs
  by (relation "measure (\<lambda>(b, c, n, s). MAXARGS - n)") (auto simp: MAXARGS_def)

function parseline :: "string \<Rightarrow> (nat, ptrcmd) kop"
  and parsepipe :: "string \<Rightarrow> (nat, ptrcmd) kop"
  and parseblock :: "string \<Rightarrow> (nat, ptrcmd) kop"
  and parseexec :: "string \<Rightarrow> (nat, ptrcmd) kop" where
  "parseline b s =
     bd (parsepipe b) (\<lambda>cmd.
     bd (parsebacks b cmd) (\<lambda>cmd.
     bd (peek b '';'') (\<lambda>p.
       if p then bd (gettoken b) (\<lambda>_. bd (parseline b) (\<lambda>right. ret (listcmd cmd right)))
       else ret cmd))) s"
| "parsepipe b s =
     bd (parseexec b) (\<lambda>cmd.
     bd (peek b ''|'') (\<lambda>p.
       if p then bd (gettoken b) (\<lambda>_. bd (parsepipe b) (\<lambda>right. ret (pipecmd cmd right)))
       else ret cmd)) s"
| "parseblock b s =
     bd (peek b ''('') (\<lambda>p.
       if \<not> p then panic ''parseblock''
       else
         bd (gettoken b) (\<lambda>_.
         bd (parseline b) (\<lambda>cmd.
         bd (peek b '')'') (\<lambda>p.
           if \<not> p then panic ''syntax - missing )''
           else bd (gettoken b) (\<lambda>_. parseredirs b cmd))))) s"
| "parseexec b s =
     bd (peek b ''('') (\<lambda>p.
       if p then parseblock b
       else bd (parseredirs b execcmd) (\<lambda>cmd. parseargs b cmd 0)) s"
  by pat_completeness auto


declare parsebacks.simps [simp del] parseargs.simps [simp del]

lemma parsebacks_le: "yields (parsebacks b c) s (\<lambda>_ t. s \<le> t)"
proof (induction c s rule: line_induct [of b])
  case (1 c s)
  have IH: "yields (parsebacks b c') v (\<lambda>_ t. s \<le> t)"
    if "peek b ''&'' s = Done True u" "gettoken b u = Done x v" for u x v c'
    using yields_mono [OF 1 [OF parse_step [OF that order.refl]], of "\<lambda>_ t. s \<le> t"]
      peek_le [OF that(1)] gettoken_le [OF that(2)] by simp
  show ?case
    by (rule yields_unfold, rule parsebacks.simps) (auto intro!: yields_bd IH dest: peek_le)
qed

lemma parseargs_le: "yields (parseargs b c n) s (\<lambda>_ t. s \<le> t)"
proof (induction "MAXARGS - n" arbitrary: n c s rule: less_induct)
  case less
  have IH: "yields (parseargs b c' (Suc n)) v (\<lambda>_ t. s \<le> t)"
    if "s \<le> v" "\<not> MAXARGS \<le> Suc n" for c' v
    using yields_mono [OF less [of "Suc n" c' v], of "\<lambda>_ t. s \<le> t"] that by simp
  show ?case
    by (rule yields_unfold, rule parseargs.simps)
      (auto intro!: yields_bd IH dest!: peek_le gettoken_le parseredirs_le [THEN yieldsD])
qed

lemma parse_le:
  "parseline_parsepipe_parseblock_parseexec_dom (Inl (Inl (b, s))) \<Longrightarrow> yields (parseline b) s (\<lambda>_ t. s \<le> t)"
  "parseline_parsepipe_parseblock_parseexec_dom (Inl (Inr (b, s))) \<Longrightarrow> yields (parsepipe b) s (\<lambda>_ t. s \<le> t)"
  "parseline_parsepipe_parseblock_parseexec_dom (Inr (Inl (b, s))) \<Longrightarrow> yields (parseblock b) s (\<lambda>_ t. s \<le> t)"
  "parseline_parsepipe_parseblock_parseexec_dom (Inr (Inr (b, s))) \<Longrightarrow> yields (parseexec b) s (\<lambda>_ t. s \<le> t)"
proof (induction b s and b s and b s and b s rule: parseline_parsepipe_parseblock_parseexec.pinduct)
  case (1 b s)
  have rest: "s \<le> t" if run: "parsepipe b s = Done c u" "parsebacks b c u = Done d v" "peek b '';'' v = Done True w"
    "gettoken b w = Done y x" "parseline b x = Done e t" for c u d v w y x e t
    using yieldsD [OF 1(2) run(1)] yieldsD [OF parsebacks_le run(2)] peek_le [OF run(3)] gettoken_le [OF run(4)]
      yieldsD [OF 1(3) [OF run(1-3) TrueI run(4)] run(5)] by linarith
  have stop: "s \<le> t" if run: "parsepipe b s = Done c u" "parsebacks b c u = Done d v" "peek b '';'' v = Done p t" for c u d v p t
    using yieldsD [OF 1(2) run(1)] yieldsD [OF parsebacks_le run(2)] peek_le [OF run(3)] by linarith
  show ?case
    by (auto simp: yields_def parseline.psimps [OF 1(1)] bd_eq_Done split: if_splits intro: rest stop)
next
  case (2 b s)
  have rest: "s \<le> t" if run: "parseexec b s = Done c u" "peek b ''|'' u = Done True w"
    "gettoken b w = Done y x" "parsepipe b x = Done e t" for c u w y x e t
    using yieldsD [OF 2(2) run(1)] peek_le [OF run(2)] gettoken_le [OF run(3)]
      yieldsD [OF 2(3) [OF run(1-2) TrueI run(3)] run(4)] by linarith
  have stop: "s \<le> t" if run: "parseexec b s = Done c u" "peek b ''|'' u = Done p t" for c u p t
    using yieldsD [OF 2(2) run(1)] peek_le [OF run(2)] by linarith
  show ?case
    by (auto simp: yields_def parsepipe.psimps [OF 2(1)] bd_eq_Done split: if_splits intro: rest stop)
next
  case (3 b s)
  have "s \<le> t" if run: "peek b ''('' s = Done True u" "gettoken b u = Done y v" "parseline b v = Done c w"
    "peek b '')'' w = Done True x" "gettoken b x = Done z a" "parseredirs b c a = Done e t" for u y v c w x z a e t
    using peek_le [OF run(1)] gettoken_le [OF run(2)] yieldsD [OF 3(2) [OF run(1) _ run(2)] run(3)]
      peek_le [OF run(4)] gettoken_le [OF run(5)] yieldsD [OF parseredirs_le run(6)] by simp
  then show ?case
    by (auto simp: yields_def parseblock.psimps [OF 3(1)] bd_eq_Done split: if_splits)
next
  case (4 b s)
  have block: "s \<le> t" if run: "peek b ''('' s = Done True u" "parseblock b u = Done e t" for u e t
    using peek_le [OF run(1)] yieldsD [OF 4(2) [OF run(1) TrueI] run(2)] by linarith
  have simple: "s \<le> t" if run: "peek b ''('' s = Done p u" "parseredirs b (EXEC []) u = Done c v"
    "parseargs b c 0 v = Done e t" for p u c v e t
    using peek_le [OF run(1)] yieldsD [OF parseredirs_le run(2)] yieldsD [OF parseargs_le run(3)] by linarith
  show ?case
    by (auto simp: yields_def parseexec.psimps [OF 4(1)] bd_eq_Done split: if_splits intro: block simple)
qed

text \<open>
  The recursion of the parser ends: a nested line starts after a parenthesis, and the right side
  of a list or a pipe after its operator.
\<close>

termination parseline
proof (relation "measure (\<lambda>x. case x of
      Inl (Inl (b, s)) \<Rightarrow> 4 * (length b - s) + 3
    | Inl (Inr (b, s)) \<Rightarrow> 4 * (length b - s) + 2
    | Inr (Inl (b, s)) \<Rightarrow> 4 * (length b - s)
    | Inr (Inr (b, s)) \<Rightarrow> 4 * (length b - s) + 1)", goal_cases)
  case (3 b s c u d v p w y x)
  then have "s \<le> v" using yieldsD [OF parse_le(2) 3(1)] yieldsD [OF parsebacks_le 3(2)] by simp
  moreover have "length b - x < length b - v" using parse_step [of b "'';''" v w y x x] 3 by simp
  ultimately show ?case by simp
next
  case (5 b s c u p w y x)
  then have "s \<le> u" using yieldsD [OF parse_le(4) 5(1)] by simp
  moreover have "length b - x < length b - u" using parse_step [of b "''|''" u w y x x] 5 by simp
  ultimately show ?case by simp
next
  case (6 b s p u y v)
  then show ?case using parse_step [of b "''(''" s u y v v] by simp
next
  case (7 b s p u)
  then show ?case using peek_le [of b "''(''" s p u] by simp
qed simp_all

declare parseline.simps [simp del] parsepipe.simps [simp del] parseblock.simps [simp del] parseexec.simps [simp del]

text \<open>
  \<^verbatim>\<open>nulterminate\<close> works on the line in memory, its terminating NUL included.
\<close>

fun nulterminate :: "ptrcmd \<Rightarrow> string \<Rightarrow> string" where
  "nulterminate (EXEC av) l = fold (\<lambda>(q, e) l. l[e := NUL]) av l"
| "nulterminate (REDIR c (q, e) mode fd) l = (nulterminate c l)[e := NUL]"
| "nulterminate (PIPE left right) l = nulterminate right (nulterminate left l)"
| "nulterminate (LIST left right) l = nulterminate right (nulterminate left l)"
| "nulterminate (BACK c) l = nulterminate c l"

text \<open>
  \<^verbatim>\<open>parsecmd\<close> returns the tree and the line it points into. (What it prints about
  leftovers before the panic is not recorded.)
\<close>

definition parsecmd :: "string \<Rightarrow> (nat, ptrcmd \<times> string) kop" where
  "parsecmd b =
     bd (parseline b) (\<lambda>cmd.
     bd (peek b '''') (\<lambda>_.
     bd (gets id) (\<lambda>s.
     if s \<noteq> length b then panic ''syntax''
     else ret (cmd, nulterminate cmd (b @ [NUL])))))"

section \<open>Words\<close>

definition white :: "char \<Rightarrow> bool" where "white c \<longleftrightarrow> c \<in> set whitespace"
definition wordchar :: "char \<Rightarrow> bool" where "wordchar c \<longleftrightarrow> \<not> white c \<and> c \<notin> set symbols"

lemma wordchar_iff: "wordchar c \<longleftrightarrow> strchr whitespace c = None \<and> strchr symbols c = None"
  by (simp add: wordchar_def white_def)

lemma drop_at: "s < length b \<Longrightarrow> drop s b = at b s # drop (Suc s) b"
  by (simp add: at_def Cons_nth_drop_Suc)

lemma at_suffix: "at b s = (case drop s b of [] \<Rightarrow> NUL | c # _ \<Rightarrow> c)"
  by (cases "s < length b") (auto simp: drop_at at_def)

lemma skip_white_eq: "skip_white b s = s + length (takeWhile white (drop s b))"
proof (induction b s rule: skip_white.induct)
  case (1 b s)
  then show ?case
    by (cases "s < length b") (subst skip_white.simps, simp add: drop_at white_def [symmetric])+
qed

lemma skip_word_eq: "skip_word b s = s + length (takeWhile wordchar (drop s b))"
proof (induction b s rule: skip_word.induct)
  case (1 b s)
  then show ?case
    by (cases "s < length b")
      (subst skip_word.simps, simp add: drop_at wordchar_iff [symmetric] del: strchr_eq_None)+
qed

text \<open>A token: a maximal run of word characters of the line.\<close>

definition token :: "string \<Rightarrow> nat \<times> nat \<Rightarrow> bool" where
  "token b = (\<lambda>(q, e). q < e \<and> e \<le> length b \<and> (\<forall>i \<in> {q..<e}. wordchar (b ! i)) \<and>
     (e < length b \<longrightarrow> \<not> wordchar (b ! e)))"

definition word :: "string \<Rightarrow> nat \<times> nat \<Rightarrow> string" where
  "word b = (\<lambda>(q, e). slice b q (e - q))"

lemma token_skip_word:
  assumes "q < length b" and "wordchar (b ! q)"
  shows "token b (q, skip_word b q)"
proof -
  let ?w = "takeWhile wordchar (drop q b)"
  have "drop q b = b ! q # drop (Suc q) b" using assms(1) by (simp add: Cons_nth_drop_Suc)
  then have pos: "0 < length ?w" using assms(2) by simp
  have le: "q + length ?w \<le> length b"
    using length_takeWhile_le [of wordchar "drop q b"] assms(1) by simp
  have run: "wordchar (b ! i)" if "q \<le> i" "i < q + length ?w" for i
  proof -
    have "?w ! (i - q) = b ! i" using that le takeWhile_nth [of "i - q" wordchar "drop q b"] by simp
    then show ?thesis using that set_takeWhileD [of "?w ! (i - q)" wordchar "drop q b"] nth_mem [of "i - q" ?w] by auto
  qed
  have "\<not> wordchar (b ! (q + length ?w))" if "q + length ?w < length b"
    using nth_length_takeWhile [of wordchar "drop q b"] that by simp
  with pos le run show ?thesis by (auto simp: token_def skip_word_eq)
qed

lemma gettoken_word:
  assumes "gettoken b s = Done (CHR ''a'', q, e) t"
  shows "token b (q, e)"
proof -
  have q: "q = skip_white b s" "e = skip_word b q" "at b q \<noteq> NUL" "at b q \<notin> set symbols"
    using assms by (auto simp: gettoken_def Let_def NUL_def symbols_def split: if_splits)
  have "q < length b" using q at_NUL by simp
  moreover have "wordchar (b ! q)"
    using q skip_white_stops [of b s] calculation by (simp add: wordchar_def white_def at_def)
  ultimately show ?thesis using q token_skip_word by simp
qed

section \<open>Every word of a parsed command is a token of the line\<close>

text \<open>
  \<open>parsed b c\<close>: the words of \<open>c\<close> are tokens of the line and no argument vector is
  too long for its array.
\<close>

primrec short :: "'w cmd \<Rightarrow> bool" where
  "short (EXEC av) \<longleftrightarrow> length av < MAXARGS"
| "short (REDIR c w mode fd) \<longleftrightarrow> short c"
| "short (PIPE left right) \<longleftrightarrow> short left \<and> short right"
| "short (LIST left right) \<longleftrightarrow> short left \<and> short right"
| "short (BACK c) \<longleftrightarrow> short c"

definition parsed :: "string \<Rightarrow> ptrcmd \<Rightarrow> bool" where
  "parsed b c \<longleftrightarrow> (\<forall>w \<in> set_cmd c. token b w) \<and> short c"

text \<open>\<open>args n c\<close>: \<open>c\<close> is an \<^verbatim>\<open>EXEC\<close> of \<open>n\<close> arguments inside redirections.\<close>

fun args :: "nat \<Rightarrow> 'w cmd \<Rightarrow> bool" where
  "args n (EXEC av) \<longleftrightarrow> length av = n"
| "args n (REDIR c w mode fd) \<longleftrightarrow> args n c"
| "args n _ \<longleftrightarrow> False"

lemma parsed_simps [simp]:
  "parsed b (REDIR c w mode fd) \<longleftrightarrow> token b w \<and> parsed b c"
  "parsed b (PIPE left right) \<longleftrightarrow> parsed b left \<and> parsed b right"
  "parsed b (LIST left right) \<longleftrightarrow> parsed b left \<and> parsed b right"
  "parsed b (BACK c) \<longleftrightarrow> parsed b c"
  "parsed b (EXEC [])"
  by (auto simp: parsed_def MAXARGS_def)

lemma add_arg_args: "args n c \<Longrightarrow> args (Suc n) (add_arg a c)"
  by (induction n c rule: args.induct) auto

lemma add_arg_parsed:
  "parsed b c \<Longrightarrow> token b a \<Longrightarrow> args n c \<Longrightarrow> Suc n < MAXARGS \<Longrightarrow> parsed b (add_arg a c)"
  by (induction n c rule: args.induct) (auto simp: parsed_def)

lemma safely_peek: "(\<And>p t. peek b toks s = Done p t \<Longrightarrow> Q p t) \<Longrightarrow> safely (peek b toks) s Q"
  by (simp add: safely_def peek_def Let_def)

lemma safely_gettoken:
  "(\<And>tok q e t. gettoken b s = Done (tok, q, e) t \<Longrightarrow> Q (tok, q, e) t) \<Longrightarrow> safely (gettoken b) s Q"
  by (simp add: safely_def gettoken_def Let_def split: prod.split)

lemmas safely_steps = safely_bd safely_peek safely_gettoken

lemma parseredirs_safely:
  "parsed b c \<Longrightarrow> safely (parseredirs b c) s (\<lambda>d _. parsed b d \<and> (\<forall>n. args n c \<longrightarrow> args n d))"
proof (induction c s rule: line_induct [of b])
  case (1 c s)
  have IH: "safely (parseredirs b d) v (\<lambda>d _. parsed b d \<and> (\<forall>n. args n c \<longrightarrow> args n d))"
    if "peek b ''<>'' s = Done p u" p "gettoken b u = Done r w" "gettoken b w = Done r' v" "parsed b d"
      "\<And>n. args n c \<Longrightarrow> args n d" for p u r w r' v d
  proof (rule safely_mono)
    show "safely (parseredirs b d) v (\<lambda>x _. parsed b x \<and> (\<forall>n. args n d \<longrightarrow> args n x))"
      using parse_step [of b "''<>''" s u r w v] that gettoken_le by (intro 1(1)) auto
  qed (use that in auto)
  show ?case
    by (rule safely_unfold, rule parseredirs.simps, intro safely_steps)
      (auto intro!: safely_steps IH simp: 1(2) gettoken_word)
qed

lemma parsebacks_safely: "parsed b c \<Longrightarrow> safely (parsebacks b c) s (\<lambda>d _. parsed b d)"
proof (induction c s rule: line_induct [of b])
  case (1 c s)
  have IH: "safely (parsebacks b (BACK c)) v (\<lambda>d _. parsed b d)"
    if "peek b ''&'' s = Done p u" p "gettoken b u = Done r v" for p u r v
    using 1(1) [OF parse_step [of b "''&''" s u r v v]] that 1(2) by simp
  show ?case
    by (rule safely_unfold, rule parsebacks.simps, intro safely_steps) (auto intro!: safely_steps IH simp: 1(2))
qed

lemma parseargs_safely: "parsed b c \<Longrightarrow> args n c \<Longrightarrow> safely (parseargs b c n) s (\<lambda>d _. parsed b d)"
proof (induction "MAXARGS - n" arbitrary: n c s rule: less_induct)
  case less
  have IH: "safely (parseredirs b (add_arg (q, e) c)) v (\<lambda>d w. safely (parseargs b d (Suc n)) w (\<lambda>d _. parsed b d))"
    if "gettoken b u = Done (CHR ''a'', q, e) v" "Suc n < MAXARGS" for u q e v
    using add_arg_parsed [OF less(2) _ less(3)] gettoken_word that less(1) add_arg_args [OF less(3)]
    by (intro safely_mono [OF parseredirs_safely]) auto
  show ?case
    by (rule safely_unfold, rule parseargs.simps, intro safely_steps)
      (auto intro!: safely_steps IH simp: less(2))
qed

lemma parse_safely:
  "safely (parseline b) s (\<lambda>c _. parsed b c)"
  "safely (parsepipe b) s (\<lambda>c _. parsed b c)"
  "safely (parseblock b) s (\<lambda>c _. parsed b c)"
  "safely (parseexec b) s (\<lambda>c _. parsed b c)"
proof (induction b s and b s and b s and b s rule: parseline_parsepipe_parseblock_parseexec.induct)
  case (1 b s)
  show ?case
  proof (rule safely_unfold, rule parseline.simps, rule safely_seq [OF 1(1)], rule safely_seq [OF parsebacks_safely],
      assumption, intro safely_steps)
    fix c u d v p w
    assume run: "parsepipe b s = Done c u" "parsebacks b c u = Done d v" "peek b '';'' v = Done p w" and d: "parsed b d"
    have "safely (bd (gettoken b) (\<lambda>_. bd (parseline b) (\<lambda>right. ret (listcmd d right)))) w (\<lambda>c _. parsed b c)" if p
      by (rule safely_bd, rule safely_gettoken, rule safely_seq [OF 1(2) [OF run that]], assumption) (simp add: d)
    then show "safely (if p then bd (gettoken b) (\<lambda>_. bd (parseline b) (\<lambda>right. ret (listcmd d right))) else ret d) w (\<lambda>c _. parsed b c)"
      using d by simp
  qed
next
  case (2 b s)
  show ?case
  proof (rule safely_unfold, rule parsepipe.simps, rule safely_seq [OF 2(1)], intro safely_steps)
    fix d v p w
    assume run: "parseexec b s = Done d v" "peek b ''|'' v = Done p w" and d: "parsed b d"
    have "safely (bd (gettoken b) (\<lambda>_. bd (parsepipe b) (\<lambda>right. ret (pipecmd d right)))) w (\<lambda>c _. parsed b c)" if p
      by (rule safely_bd, rule safely_gettoken, rule safely_seq [OF 2(2) [OF run that]], assumption) (simp add: d)
    then show "safely (if p then bd (gettoken b) (\<lambda>_. bd (parsepipe b) (\<lambda>right. ret (pipecmd d right))) else ret d) w (\<lambda>c _. parsed b c)"
      using d by simp
  qed
next
  case (3 b s)
  have redirs: "safely (parseredirs b c) t (\<lambda>c _. parsed b c)" if "parsed b c" for c t
    by (rule safely_mono [OF parseredirs_safely [OF that]]) simp
  have tail: "safely (bd (peek b '')'') (\<lambda>p. if \<not> p then panic ''syntax - missing )''
      else bd (gettoken b) (\<lambda>_. parseredirs b c))) t (\<lambda>c _. parsed b c)" if "parsed b c" for c t
    by (intro safely_steps) (auto intro!: safely_steps redirs that)
  show ?case
  proof (rule safely_unfold, rule parseblock.simps, intro safely_steps)
    fix p t
    assume p: "peek b ''('' s = Done p t"
    have "safely (bd (gettoken b) (\<lambda>_. bd (parseline b) (\<lambda>c. bd (peek b '')'') (\<lambda>p. if \<not> p then panic ''syntax - missing )''
      else bd (gettoken b) (\<lambda>_. parseredirs b c))))) t (\<lambda>c _. parsed b c)" if p
      by (rule safely_bd, rule safely_gettoken, rule safely_seq [OF 3 [OF p]]) (use that in \<open>simp_all add: tail\<close>)
    then show "safely (if \<not> p then panic ''parseblock'' else bd (gettoken b) (\<lambda>_. bd (parseline b) (\<lambda>c.
        bd (peek b '')'') (\<lambda>p. if \<not> p then panic ''syntax - missing )''
        else bd (gettoken b) (\<lambda>_. parseredirs b c))))) t (\<lambda>c _. parsed b c)" by simp
  qed
next
  case (4 b s)
  have simple: "safely (bd (parseredirs b (EXEC [])) (\<lambda>c. parseargs b c 0)) t (\<lambda>c _. parsed b c)" for t
    by (rule safely_seq [OF parseredirs_safely]) (auto intro: parseargs_safely)
  show ?case
    by (rule safely_unfold, rule parseexec.simps, intro safely_bd safely_peek) (auto intro: 4 simple)
qed

section \<open>Cutting off the words\<close>

text \<open>The string at a pointer into the line, and a command with its strings as \<^verbatim>\<open>runcmd\<close> sees them.\<close>

definition cstring :: "string \<Rightarrow> nat \<Rightarrow> string" where
  "cstring l q = takeWhile (\<lambda>c. c \<noteq> NUL) (drop q l)"

definition strings :: "string \<Rightarrow> ptrcmd \<Rightarrow> string cmd" where
  "strings l = map_cmd (\<lambda>(q, e). cstring l q)"

lemma cut_list:
  "length (fold (\<lambda>(q, e) l. l[e := NUL]) av l) = length l"
  "i < length l \<Longrightarrow> fold (\<lambda>(q, e) l. l[e := NUL]) av l ! i = (if i \<in> snd ` set av then NUL else l ! i)"
proof (induction av arbitrary: l)
  case (Cons a av)
  {
    case 1
    show ?case using Cons(1) by (cases a) simp
  next
    case 2
    then show ?case using Cons(2) [of "l[snd a := NUL]"] by (cases a; cases "i = snd a") (simp_all add: image_iff)
  }
qed simp_all

lemma nulterminate_at:
  "length (nulterminate c l) = length l \<and>
   (\<forall>i < length l. nulterminate c l ! i = (if i \<in> snd ` set_cmd c then NUL else l ! i))"
proof (induction c arbitrary: l)
  case (EXEC av)
  then show ?case by (simp add: cut_list)
next
  case (REDIR c w mode fd)
  obtain q e where w: "w = (q, e)" by (cases w)
  have "(nulterminate c l)[e := NUL] ! i = (if i = e \<or> i \<in> snd ` set_cmd c then NUL else l ! i)" if "i < length l" for i
    using REDIR [of l] that by (cases "i = e") simp_all
  then show ?case using REDIR [of l] by (simp add: w)
qed auto

lemma cstring_token:
  assumes c: "parsed b c" and b: "NUL \<notin> set b" and w: "(q, e) \<in> set_cmd c"
  shows "cstring (nulterminate c (b @ [NUL])) q = word b (q, e)"
proof -
  let ?l = "nulterminate c (b @ [NUL])"
  have tk: "token b (q, e)" using c w by (auto simp: parsed_def)
  have len: "length ?l = Suc (length b)" using nulterminate_at [of c "b @ [NUL]"] by simp
  have l: "?l ! i = (if i \<in> snd ` set_cmd c then NUL else (b @ [NUL]) ! i)" if "i \<le> length b" for i
    using nulterminate_at [of c "b @ [NUL]"] that by simp
  have keep: "?l ! i = b ! i" if "q \<le> i" "i < e" for i
  proof -
    have "i \<notin> snd ` set_cmd c"
    proof
      assume "i \<in> snd ` set_cmd c"
      then obtain q' where "(q', i) \<in> set_cmd c" by auto
      then have "token b (q', i)" using c by (auto simp: parsed_def)
      then show False using tk that by (auto simp: token_def)
    qed
    then show ?thesis using l [of i] that tk by (auto simp: token_def nth_append)
  qed
  have cut: "?l ! e = NUL" using l [of e] w tk by (force simp: token_def)
  have "take (e - q) (drop q ?l) = slice b q (e - q)"
    by (rule nth_equalityI) (use tk len keep in \<open>auto simp: token_def slice_def\<close>)
  moreover have "drop (e - q) (drop q ?l) = NUL # drop (Suc e) ?l"
    using Cons_nth_drop_Suc [of e ?l] tk len cut by (simp add: token_def)
  ultimately have q: "drop q ?l = slice b q (e - q) @ NUL # drop (Suc e) ?l"
    using append_take_drop_id [of "e - q" "drop q ?l"] by simp
  have "NUL \<notin> set (slice b q (e - q))" using b by (auto simp: slice_def dest: in_set_takeD in_set_dropD)
  then show ?thesis unfolding cstring_def word_def q by (subst takeWhile_append2) auto
qed

lemma strings_parsed:
  assumes "parsed b c" and "NUL \<notin> set b"
  shows "strings (nulterminate c (b @ [NUL])) c = map_cmd (word b) c"
  unfolding strings_def using cstring_token [OF assms] by (intro cmd.map_cong refl) auto

text \<open>
  C11: whatever line it is given, the parser returns or panics. When it returns, all of
  the line has been used; every word of the command is a maximal run of word characters of the
  line and every argument vector leaves room for its terminating null pointer; and cutting off
  the words in place, with the NULs stored over the characters that follow them, damages no other
  word, so the strings of the command are the words of the line.
\<close>

theorem parsecmd_keeps_words:
  assumes "NUL \<notin> set b"
  shows "case parsecmd b 0 of
      Done (c, l) t \<Rightarrow> t = length b \<and> length l = length b + 1 \<and> short c \<and> set_cmd c \<subseteq> {w. token b w} \<and>
        strings l c = map_cmd (word b) c
    | Panicked e \<Rightarrow> True
    | Switched t \<Rightarrow> False
    | Fault \<Rightarrow> False"
proof -
  have "safely (parsecmd b) 0 (\<lambda>(c, l) t. t = length b \<and> l = nulterminate c (b @ [NUL]) \<and> parsed b c)"
    unfolding parsecmd_def
    by (intro safely_bd, rule safely_mono [OF parse_safely(1)], intro safely_bd safely_peek) (auto intro!: safely_bd simp: safely_def)
  then show ?thesis
    using strings_parsed [OF _ assms] nulterminate_at
    by (auto simp: safely_def parsed_def split: outcome.splits prod.splits)
qed

theorem parsecmd_keeps_words_witness:
  "case parsecmd ''ls|wc>f'' 0 of
      Done (c, l) t \<Rightarrow> t = 7 \<and> length l = 8 \<and> short c \<and> set_cmd c \<subseteq> {w. token ''ls|wc>f'' w} \<and>
        strings l c = map_cmd (word ''ls|wc>f'') c
    | Panicked e \<Rightarrow> True
    | Switched t \<Rightarrow> False
    | Fault \<Rightarrow> False"
proof -
  have b: "NUL \<notin> set ''ls|wc>f''" by (simp add: NUL_def)
  have n: "length ''ls|wc>f'' = 7" "(7 :: nat) + 1 = 8" by simp_all
  show ?thesis using parsecmd_keeps_words [OF b] unfolding n .
qed

end
