(* ===== verification/Shtext.thy ===== *)
theory Shtext
  imports Sh
begin

text \<open>
  The grammar of the shell: a printer of commands, which puts parentheses where the parser needs
  them, and the proof that the parser of \<^verbatim>\<open>sh.c\<close> reads every printed command back.
\<close>

section \<open>The text of a command\<close>

fun words :: "string list \<Rightarrow> string" where
  "words [] = []"
| "words [w] = w"
| "words (w # ws) = w @ CHR '' '' # words ws"

text \<open>
  A list binds weakest, then the background mark, then the pipe; simple commands, redirections and
  parenthesised lines bind strongest.
\<close>

primrec lvl :: "'w cmd \<Rightarrow> nat" where
  "lvl (EXEC av) = 0"
| "lvl (REDIR c w mode fd) = 0"
| "lvl (PIPE left right) = 1"
| "lvl (BACK c) = 2"
| "lvl (LIST left right) = 3"

definition paren :: "bool \<Rightarrow> string \<Rightarrow> string" where
  "paren p t = (if p then ''('' @ t @ '')'' else t)"

definition redir_text :: "string \<times> u32 \<times> nat \<Rightarrow> string" where
  "redir_text = (\<lambda>(f, mode, fd). (if fd = 0 then CHR ''<'' else CHR ''>'') # f)"

primrec text_of :: "string cmd \<Rightarrow> string" where
  "text_of (EXEC av) = words av"
| "text_of (REDIR c f mode fd) = paren (0 < lvl c) (text_of c) @ redir_text (f, mode, fd)"
| "text_of (PIPE left right) = paren (0 < lvl left) (text_of left) @ ''|'' @ paren (1 < lvl right) (text_of right)"
| "text_of (BACK c) = paren (2 < lvl c) (text_of c) @ ''&''"
| "text_of (LIST left right) = paren (2 < lvl left) (text_of left) @ '';'' @ text_of right"

definition is_word :: "string \<Rightarrow> bool" where
  "is_word w \<longleftrightarrow> w \<noteq> [] \<and> list_all (\<lambda>c. wordchar c \<and> c \<noteq> NUL) w"

definition is_redir :: "u32 \<Rightarrow> nat \<Rightarrow> bool" where
  "is_redir mode fd \<longleftrightarrow> mode = O_RDONLY \<and> fd = 0 \<or> mode = O_WRONLY OR O_CREATE \<and> fd = 1"

text \<open>The commands that can be written down.\<close>

primrec writable :: "string cmd \<Rightarrow> bool" where
  "writable (EXEC av) \<longleftrightarrow> list_all is_word av \<and> length av < MAXARGS"
| "writable (REDIR c f mode fd) \<longleftrightarrow> writable c \<and> is_word f \<and> is_redir mode fd"
| "writable (PIPE left right) \<longleftrightarrow> writable left \<and> writable right"
| "writable (BACK c) \<longleftrightarrow> writable c"
| "writable (LIST left right) \<longleftrightarrow> writable left \<and> writable right"

section \<open>Tokens at the head of the rest of the line\<close>

text \<open>The rest of the line is empty or starts with a character that satisfies \<open>P\<close>.\<close>

definition starts :: "(char \<Rightarrow> bool) \<Rightarrow> string \<Rightarrow> bool" where
  "starts P xs \<longleftrightarrow> xs = [] \<or> P (hd xs)"

lemma starts_simps [simp]: "starts P []" "starts P (x # xs) \<longleftrightarrow> P x"
  by (simp_all add: starts_def)

lemma starts_append: "starts P (xs @ ys) \<longleftrightarrow> (if xs = [] then starts P ys else starts P xs)"
  by (cases xs) simp_all

lemma starts_mono: "starts P xs \<Longrightarrow> (\<And>c. P c \<Longrightarrow> Q c) \<Longrightarrow> starts Q xs"
  by (auto simp: starts_def)

lemma starts_takeWhile: "starts (\<lambda>c. \<not> P c) xs \<Longrightarrow> takeWhile P xs = []"
  by (cases xs) auto

lemma skip_white_none: "starts (\<lambda>c. \<not> white c) (drop s b) \<Longrightarrow> skip_white b s = s"
  by (cases "drop s b") (simp_all add: skip_white_eq)

lemma peek_head:
  assumes "drop s b = xs" and "starts (\<lambda>c. \<not> white c) xs"
  shows "peek b toks s = Done (xs \<noteq> [] \<and> hd xs \<noteq> NUL \<and> hd xs \<in> set toks) s"
  using assms skip_white_none [of s b] by (cases xs) (auto simp: peek_def Let_def at_suffix)

lemma gettoken_end: "drop s b = [] \<Longrightarrow> gettoken b s = Done (NUL, s, s) s"
  using skip_white_none [of s b] by (simp add: gettoken_def Let_def at_suffix)

lemma white_eq: "white c \<longleftrightarrow> c \<in> {CHR '' '', CHR 0x09, CHR 0x0D, CHR 0x0A, CHR 0x0B}"
  by (auto simp: white_def whitespace_def)

lemma symbols_nonwhite [simp]:
  "\<not> white CHR ''<''" "\<not> white CHR ''>''" "\<not> white CHR ''|''" "\<not> white CHR ''&''" "\<not> white CHR '';''"
  "\<not> white CHR ''(''" "\<not> white CHR '')''"
  by (simp_all add: white_eq)

lemma drop_Suc_eq: "drop s b = x # xs \<Longrightarrow> drop (Suc s) b = xs"
  by (metis drop_Suc list.sel(3) tl_drop)

lemma drop_plus_eq: "drop s b = xs @ ys \<Longrightarrow> drop (s + length xs) b = ys"
  by (metis add.commute append_eq_conv_conj drop_drop)

lemma gettoken_symbol:
  assumes "drop s b = c # xs" and "c \<in> set ''|();&<>''" and "starts (\<lambda>c. \<not> white c) xs"
    and "c = CHR ''>'' \<Longrightarrow> starts (\<lambda>c. c \<noteq> CHR ''>'') xs"
  shows "gettoken b s = Done (c, s, Suc s) (Suc s)"
proof -
  have s: "skip_white b s = s" using assms by (intro skip_white_none) (auto simp: white_eq)
  have "skip_white b (Suc s) = Suc s"
    using assms(3) drop_Suc_eq [OF assms(1)] by (intro skip_white_none) simp
  moreover have "at b (Suc s) \<noteq> CHR ''>''" if "c = CHR ''>''"
    using assms(4) [OF that] drop_Suc_eq [OF assms(1)] by (cases xs) (auto simp: at_suffix NUL_def)
  moreover have "at b s = c" using assms(1) by (simp add: at_suffix)
  ultimately show ?thesis using assms(2) s by (auto simp: gettoken_def Let_def NUL_def)
qed

lemma wordchar_cases: "wordchar c \<longleftrightarrow> \<not> white c \<and> c \<notin> set ''<|>&;()''"
  by (simp add: wordchar_def symbols_def)

lemma gettoken_is_word:
  assumes "drop s b = w @ xs" and "is_word w" and "starts (\<lambda>c. \<not> wordchar c) xs"
  shows "gettoken b s = Done (CHR ''a'', s, s + length w) (s + length w + length (takeWhile white xs))"
    and "word b (s, s + length w) = w"
proof -
  obtain c w' where w: "w = c # w'" using assms(2) by (cases w) (auto simp: is_word_def)
  then have c: "wordchar c" "c \<noteq> NUL" using assms(2) by (auto simp: is_word_def)
  have s: "skip_white b s = s" using assms(1) w c by (intro skip_white_none) (auto simp: wordchar_def)
  have "takeWhile wordchar (w @ xs) = w"
  proof -
    have "takeWhile wordchar xs = []" using assms(3) by (cases xs) auto
    then show ?thesis using assms(2) by (subst takeWhile_append2) (auto simp: is_word_def list_all_iff)
  qed
  then have "skip_word b s = s + length w" using assms(1) by (simp add: skip_word_eq)
  moreover have "skip_white b (s + length w) = s + length w + length (takeWhile white xs)"
    using drop_plus_eq [OF assms(1)] by (simp add: skip_white_eq)
  moreover have "at b s = c" using assms(1) w by (simp add: at_suffix)
  ultimately show "gettoken b s = Done (CHR ''a'', s, s + length w) (s + length w + length (takeWhile white xs))"
    using c s by (auto simp: gettoken_def Let_def wordchar_cases)
  show "word b (s, s + length w) = w" using assms(1) by (simp add: word_def slice_def)
qed

section \<open>Reading a printed command\<close>

definition reads :: "string \<Rightarrow> (nat, ptrcmd) kop \<Rightarrow> nat \<Rightarrow> string \<Rightarrow> string cmd \<Rightarrow> bool" where
  "reads b m s t x \<longleftrightarrow> (\<exists>r. m s = Done r (s + length t) \<and> map_cmd (word b) r = x)"

abbreviation wrap :: "string cmd \<Rightarrow> (string \<times> u32 \<times> nat) list \<Rightarrow> string cmd" where
  "wrap \<equiv> foldl (\<lambda>c (f, mode, fd). REDIR c f mode fd)"

abbreviation redirs_text :: "(string \<times> u32 \<times> nat) list \<Rightarrow> string" where
  "redirs_text rs \<equiv> concat (map redir_text rs)"

definition are_redirs :: "(string \<times> u32 \<times> nat) list \<Rightarrow> bool" where
  "are_redirs = list_all (\<lambda>(f, mode, fd). is_word f \<and> is_redir mode fd)"

text \<open>What may follow a simple command, a pipeline and a line.\<close>

definition end_exec :: "char \<Rightarrow> bool" where "end_exec c \<longleftrightarrow> c \<in> set ''|)&;''"
definition end_pipe :: "char \<Rightarrow> bool" where "end_pipe c \<longleftrightarrow> c \<in> set '')&;''"
definition end_back :: "char \<Rightarrow> bool" where "end_back c \<longleftrightarrow> c \<in> set '');''"
definition end_line :: "char \<Rightarrow> bool" where "end_line c \<longleftrightarrow> c = CHR '')''"

lemma ends:
  "end_line c \<Longrightarrow> end_back c" "end_back c \<Longrightarrow> end_pipe c" "end_pipe c \<Longrightarrow> end_exec c"
  "end_exec c \<Longrightarrow> \<not> white c \<and> \<not> wordchar c \<and> c \<noteq> NUL \<and> c \<notin> set ''<>(''"
  by (auto simp: end_line_def end_back_def end_pipe_def end_exec_def white_eq wordchar_cases NUL_def)

lemma redirs_starts:
  "starts end_exec post \<Longrightarrow> are_redirs rs \<Longrightarrow>
   starts (\<lambda>c. end_exec c \<or> c = CHR ''<'' \<or> c = CHR ''>'') (redirs_text rs @ post)"
  by (cases rs) (auto simp: redir_text_def elim: starts_mono)

lemma redirs_separate:
  assumes "starts end_exec post" and "are_redirs rs"
  shows "starts (\<lambda>c. \<not> white c \<and> \<not> wordchar c) (redirs_text rs @ post)"
  by (rule starts_mono [OF redirs_starts [OF assms]]) (auto simp: end_exec_def white_eq wordchar_cases)

lemma parseredirs_reads:
  assumes "drop s b = redirs_text rs @ post" and "are_redirs rs" and "starts end_exec post"
  shows "reads b (parseredirs b c) s (redirs_text rs) (wrap (map_cmd (word b) c) rs)"
  using assms
proof (induction rs arbitrary: c s)
  case Nil
  then have "drop s b = post" "starts (\<lambda>c. \<not> white c) post" using starts_mono [of end_exec post] ends by auto
  moreover have "\<not> (post \<noteq> [] \<and> hd post \<noteq> NUL \<and> hd post \<in> set ''<>'')"
    using Nil(3) ends(4) by (cases post) auto
  ultimately have "peek b ''<>'' s = Done False s" using peek_head [of s b post "''<>''"] by simp
  then show ?case by (simp add: reads_def parseredirs.simps [of b c s] bd_run)
next
  case (Cons r rs)
  obtain f mode fd where r: "r = (f, mode, fd)" by (cases r) auto
  then have f: "is_word f" "is_redir mode fd" and rs: "are_redirs rs" using Cons(3) by (auto simp: are_redirs_def)
  let ?op = "if fd = 0 then CHR ''<'' else CHR ''>''"
  let ?rest = "redirs_text rs @ post"
  have b: "drop s b = ?op # f @ ?rest" using Cons(2) r by (simp add: redir_text_def)
  have p: "peek b ''<>'' s = Done True s"
    using peek_head [OF b, of "''<>''"] by (auto simp: white_eq NUL_def)
  obtain x f' where f': "f = x # f'" "wordchar x" "list_all wordchar f'"
    using f(1) by (cases f) (auto simp: is_word_def list_all_iff)
  have t1: "gettoken b s = Done (?op, s, Suc s) (Suc s)"
    using f'(1,2) by (intro gettoken_symbol [OF b]) (auto simp: wordchar_cases)
  have rest: "starts (\<lambda>c. \<not> white c \<and> \<not> wordchar c) ?rest" by (rule redirs_separate [OF Cons(4) rs])
  then have "takeWhile white ?rest = []" by (rule starts_takeWhile [OF starts_mono]) simp
  moreover have "starts (\<lambda>c. \<not> wordchar c) ?rest" using rest by (rule starts_mono) simp
  note t2 = gettoken_is_word [OF drop_Suc_eq [OF b] f(1) this]
  ultimately have t2': "gettoken b (Suc s) = Done (CHR ''a'', Suc s, Suc s + length f) (Suc s + length f)" by simp
  have "drop (Suc s + length f) b = ?rest" by (rule drop_plus_eq [OF drop_Suc_eq [OF b]])
  then have "reads b (parseredirs b (REDIR c (Suc s, Suc s + length f) mode fd)) (Suc s + length f) (redirs_text rs)
      (wrap (map_cmd (word b) c) (r # rs))"
    using Cons(1) [of "Suc s + length f" "REDIR c (Suc s, Suc s + length f) mode fd"] rs Cons(4) t2(2) r by simp
  moreover have "parseredirs b c s = parseredirs b (REDIR c (Suc s, Suc s + length f) mode fd) (Suc s + length f)"
    unfolding parseredirs.simps [of b c s] bd_Done [of "peek b _", OF p]
    using f(2) by (auto simp: bd_Done [of "gettoken b", OF t1] bd_Done [of "gettoken b", OF t2'] is_redir_def)
  ultimately show ?case by (simp add: reads_def r redir_text_def add.assoc)
qed

lemma parseargs_reads:
  assumes "drop s b = words ws @ redirs_text rs @ post" and "are_redirs rs" and "starts end_exec post"
    and "list_all is_word ws" and "length av + length ws < MAXARGS"
  shows "reads b (bd (parseredirs b (EXEC av)) (\<lambda>c. parseargs b c (length av))) s (words ws @ redirs_text rs)
    (wrap (EXEC (map (word b) av @ ws)) rs)"
  using assms
proof (induction ws arbitrary: av s)
  case Nil
  let ?t = "s + length (redirs_text rs)"
  obtain r where r: "parseredirs b (EXEC av) s = Done r ?t" "map_cmd (word b) r = wrap (EXEC (map (word b) av)) rs"
    using parseredirs_reads [of s b rs post "EXEC av"] Nil by (auto simp: reads_def)
  have post: "drop ?t b = post" using drop_plus_eq [of s b "redirs_text rs" post] Nil(1) by simp
  have "starts (\<lambda>c. \<not> white c) post" using Nil(3) ends(4) by (auto elim: starts_mono)
  then have p: "peek b ''|)&;'' ?t = Done (post \<noteq> []) ?t"
    using peek_head [OF post, of "''|)&;''"] Nil(3) by (cases post) (auto simp: end_exec_def NUL_def)
  have "parseargs b r (length av) ?t = Done r ?t"
    using gettoken_end [of ?t b] post by (cases post) (auto simp: parseargs.simps [of b r _ ?t] bd_run p)
  then show ?case using r by (simp add: reads_def bd_run)
next
  case (Cons w ws)
  let ?rest = "(if ws = [] then [] else CHR '' '' # words ws) @ redirs_text rs @ post"
  have w: "is_word w" "list_all is_word ws" using Cons(5) by auto
  have b: "drop s b = w @ ?rest" using Cons(2) by (cases ws) simp_all
  obtain x w' where x: "w = x # w'" "wordchar x" "x \<noteq> NUL" using w(1) by (cases w) (auto simp: is_word_def)
  have nw: "starts (\<lambda>c. \<not> white c \<and> \<not> wordchar c) (redirs_text rs @ post)" by (rule redirs_separate [OF Cons(4,3)])
  have p: "peek b toks s = Done (x \<in> set toks) s" for toks
    using peek_head [OF b, of toks] x by (simp add: wordchar_def)
  have r: "parseredirs b (EXEC av) s = Done (EXEC av) s"
    using x(2) by (auto simp: parseredirs.simps [of b _ s] bd_run p wordchar_cases)
  have "starts (\<lambda>c. \<not> wordchar c) ?rest"
    using nw by (auto simp: wordchar_cases white_eq elim: starts_mono)
  note t = gettoken_is_word [OF b w(1) this]
  let ?gap = "length (takeWhile white ?rest)"
  define u where "u = s + length w + ?gap"
  have gap: "?gap = (if ws = [] then 0 else 1)"
  proof (cases ws)
    case Nil
    have "takeWhile white (redirs_text rs @ post) = []" by (rule starts_takeWhile [OF starts_mono [OF nw]]) simp
    then show ?thesis using Nil by simp
  next
    case (Cons v vs)
    then obtain y v' where "v = y # v'" "wordchar y" using w(2) by (cases v) (auto simp: is_word_def)
    then show ?thesis using Cons by (cases vs) (auto simp: white_eq wordchar_def)
  qed
  have "drop (s + length w) b = ?rest" by (rule drop_plus_eq [OF b])
  then have u: "drop u b = words ws @ redirs_text rs @ post"
    unfolding u_def gap by (cases ws) (auto dest: drop_Suc_eq)
  let ?av = "av @ [(s, s + length w)]"
  have "reads b (bd (parseredirs b (EXEC ?av)) (\<lambda>c. parseargs b c (length ?av))) u (words ws @ redirs_text rs)
      (wrap (EXEC (map (word b) ?av @ ws)) rs)"
    by (rule Cons(1) [OF u Cons(3,4)]) (use Cons(6) w(2) in simp_all)
  moreover have "bd (parseredirs b (EXEC av)) (\<lambda>c. parseargs b c (length av)) s =
      bd (parseredirs b (EXEC ?av)) (\<lambda>c. parseargs b c (length ?av)) u"
  proof -
    have "x \<notin> set ''|)&;''" using x(2) by (auto simp: wordchar_cases)
    then have p': "peek b ''|)&;'' s = Done False s" using p by simp
    show ?thesis
      unfolding bd_Done [of "parseredirs b (EXEC av)", OF r] parseargs.simps [of b _ _ s] bd_Done [of "peek b _", OF p']
      using Cons(6) by (simp add: bd_Done [of "gettoken b", OF t(1)] u_def [symmetric] NUL_def)
  qed
  moreover have "u + length (words ws @ redirs_text rs) = s + length (words (w # ws) @ redirs_text rs)"
    unfolding u_def gap by (cases ws) auto
  ultimately show ?case unfolding reads_def using t(2) by (simp add: add.assoc [symmetric])
qed

abbreviation nonwhite :: "string \<Rightarrow> bool" where "nonwhite \<equiv> starts (\<lambda>c. \<not> white c)"

lemma nonwhite_ends:
  "starts end_exec post \<Longrightarrow> nonwhite post" "starts end_pipe post \<Longrightarrow> nonwhite post"
  "starts end_back post \<Longrightarrow> nonwhite post" "starts end_line post \<Longrightarrow> nonwhite post"
  by (erule starts_mono, auto simp: end_exec_def end_pipe_def end_back_def end_line_def white_eq)+

lemma words_start: "list_all is_word ws \<Longrightarrow> ws \<noteq> [] \<Longrightarrow> \<exists>x xs. words ws = x # xs \<and> wordchar x \<and> x \<noteq> NUL"
  by (induction ws rule: words.induct) (auto simp: is_word_def neq_Nil_conv)

lemma paren_nonwhite: "nonwhite (t @ post) \<Longrightarrow> nonwhite (paren p t @ post)"
  by (simp add: paren_def white_eq)

lemma text_nonwhite: "writable c \<Longrightarrow> nonwhite post \<Longrightarrow> nonwhite (paren p (text_of c) @ post)"
proof (rule paren_nonwhite, induction c arbitrary: post)
  case (EXEC av)
  then show ?case using words_start [of av] by (cases "av = []") (auto simp: wordchar_def)
qed (auto intro!: paren_nonwhite simp: redir_text_def)

text \<open>The four nonterminals of the grammar, each with what may follow it.\<close>

definition reads_exec :: "string cmd \<Rightarrow> bool" where
  "reads_exec c \<longleftrightarrow> (\<forall>b s rs post. drop s b = paren (0 < lvl c) (text_of c) @ redirs_text rs @ post \<longrightarrow>
     are_redirs rs \<longrightarrow> starts end_exec post \<longrightarrow>
     reads b (parseexec b) s (paren (0 < lvl c) (text_of c) @ redirs_text rs) (wrap c rs))"

definition reads_pipe :: "string cmd \<Rightarrow> bool" where
  "reads_pipe c \<longleftrightarrow> (\<forall>b s post. drop s b = paren (1 < lvl c) (text_of c) @ post \<longrightarrow> starts end_pipe post \<longrightarrow>
     reads b (parsepipe b) s (paren (1 < lvl c) (text_of c)) c)"

definition reads_back :: "string cmd \<Rightarrow> bool" where
  "reads_back c \<longleftrightarrow> (\<forall>b s post. drop s b = paren (2 < lvl c) (text_of c) @ post \<longrightarrow> starts end_pipe post \<longrightarrow>
     (\<exists>r. map_cmd (word b) r = c \<and>
       bd (parsepipe b) (parsebacks b) s = parsebacks b r (s + length (paren (2 < lvl c) (text_of c)))))"

definition reads_line :: "string cmd \<Rightarrow> bool" where
  "reads_line c \<longleftrightarrow> (\<forall>b s post. drop s b = text_of c @ post \<longrightarrow> starts end_line post \<longrightarrow>
     reads b (parseline b) s (text_of c) c)"

lemma readsE:
  assumes "reads b m s t x"
  obtains r where "m s = Done r (s + length t)" "map_cmd (word b) r = x"
  using assms by (auto simp: reads_def)

lemma exec_pipe:
  assumes "reads_exec c" and "lvl c \<noteq> 1"
  shows "reads_pipe c"
  unfolding reads_pipe_def
proof (intro allI impI)
  fix b s post
  assume b: "drop s b = paren (1 < lvl c) (text_of c) @ post" and post: "starts end_pipe post"
  let ?t = "paren (0 < lvl c) (text_of c)"
  have t: "paren (1 < lvl c) (text_of c) = ?t" using assms(2) by (cases "lvl c") (simp_all add: paren_def)
  have "reads b (parseexec b) s ?t c"
    using assms(1) [unfolded reads_exec_def, rule_format, of s b "[]" post] b t post
    by (simp add: are_redirs_def starts_mono [OF post ends(3)])
  then obtain r where r: "parseexec b s = Done r (s + length ?t)" "map_cmd (word b) r = c" by (rule readsE)
  have p: "peek b ''|'' (s + length ?t) = Done False (s + length ?t)"
    using peek_head [OF drop_plus_eq [of s b ?t post], of "''|''"] b t post nonwhite_ends(2) [OF post]
    by (cases post) (auto simp: end_pipe_def)
  show "reads b (parsepipe b) s (paren (1 < lvl c) (text_of c)) c"
    unfolding t using r by (simp add: reads_def parsepipe.simps [of b s] bd_Done [of "parseexec b", OF r(1)] bd_Done [of "peek b _", OF p])
qed

lemma pipe_back:
  assumes "reads_pipe c" and "lvl c \<noteq> 2"
  shows "reads_back c"
  unfolding reads_back_def
proof (intro allI impI)
  fix b s post
  assume b: "drop s b = paren (2 < lvl c) (text_of c) @ post" and post: "starts end_pipe post"
  let ?t = "paren (1 < lvl c) (text_of c)"
  have t: "paren (2 < lvl c) (text_of c) = ?t" using assms(2) by (simp add: paren_def)
  have "reads b (parsepipe b) s ?t c" using assms(1) b post unfolding reads_pipe_def t by blast
  then obtain r where r: "parsepipe b s = Done r (s + length ?t)" "map_cmd (word b) r = c" by (rule readsE)
  then show "\<exists>r. map_cmd (word b) r = c \<and>
      bd (parsepipe b) (parsebacks b) s = parsebacks b r (s + length (paren (2 < lvl c) (text_of c)))"
    unfolding t by (intro exI [of _ r]) (simp add: bd_Done [of "parsepipe b", OF r(1)])
qed

text \<open>After the last background mark, \<^verbatim>\<open>parsebacks\<close> returns.\<close>

lemma parsebacks_stops:
  assumes "drop t b = post" and "starts end_back post"
  shows "parsebacks b r t = Done r t"
proof -
  have p: "peek b ''&'' t = Done False t"
    using peek_head [OF assms(1) nonwhite_ends(3) [OF assms(2)], of "''&''"] assms(2) by (cases post) (auto simp: end_back_def)
  show ?thesis by (simp add: parsebacks.simps [of b r t] bd_Done [of "peek b _", OF p])
qed

lemma parseline_back:
  assumes "reads_back c" and "drop s b = paren (2 < lvl c) (text_of c) @ post" and "starts end_back post"
  obtains r where "map_cmd (word b) r = c"
    and "parseline b s = bd (peek b '';'') (\<lambda>p. if p then bd (gettoken b) (\<lambda>_. bd (parseline b) (\<lambda>right. ret (listcmd r right)))
       else ret r) (s + length (paren (2 < lvl c) (text_of c)))"
proof -
  let ?t = "s + length (paren (2 < lvl c) (text_of c))"
  obtain r where r: "map_cmd (word b) r = c" "bd (parsepipe b) (parsebacks b) s = parsebacks b r ?t"
    using assms(1,2) starts_mono [OF assms(3), of end_pipe] ends(2) unfolding reads_back_def by blast
  have stop: "bd (parsepipe b) (parsebacks b) s = Done r ?t"
    using r(2) parsebacks_stops [OF drop_plus_eq [OF assms(2)] assms(3)] by simp
  have "bd (parsepipe b) (\<lambda>c. bd (parsebacks b c) k) s = k r ?t" for k :: "ptrcmd \<Rightarrow> (nat, ptrcmd) kop"
    unfolding bd_assoc [symmetric] by (rule bd_Done [of "bd (parsepipe b) (parsebacks b)", OF stop])
  then show ?thesis by (intro that [OF r(1)]) (simp add: parseline.simps [of b s])
qed

lemma back_line:
  assumes "reads_back c" and "lvl c \<noteq> 3"
  shows "reads_line c"
  unfolding reads_line_def
proof (intro allI impI)
  fix b s post
  assume b: "drop s b = text_of c @ post" and post: "starts end_line post"
  have t: "paren (2 < lvl c) (text_of c) = text_of c"
    using assms(2) by (cases c) (simp_all add: paren_def)
  obtain r where r: "map_cmd (word b) r = c"
    "parseline b s = bd (peek b '';'') (\<lambda>p. if p then bd (gettoken b) (\<lambda>_. bd (parseline b) (\<lambda>right. ret (listcmd r right)))
       else ret r) (s + length (text_of c))"
    by (rule parseline_back [OF assms(1), of s b post, unfolded t, OF b]) (rule starts_mono [OF post ends(1)])
  have p: "peek b '';'' (s + length (text_of c)) = Done False (s + length (text_of c))"
    using peek_head [OF drop_plus_eq [OF b] nonwhite_ends(4) [OF post], of "'';''"] post by (cases post) (auto simp: end_line_def)
  show "reads b (parseline b) s (text_of c) c"
    using r(1) by (simp add: reads_def r(2) bd_Done [of "peek b _", OF p])
qed

lemma line_exec:
  assumes "reads_line c" and "0 < lvl c" and "writable c"
  shows "reads_exec c"
  unfolding reads_exec_def
proof (intro allI impI)
  fix b s rs post
  assume b: "drop s b = paren (0 < lvl c) (text_of c) @ redirs_text rs @ post"
    and rs: "are_redirs rs" and post: "starts end_exec post"
  let ?rest = "redirs_text rs @ post"
  let ?n = "length (text_of c)"
  have b: "drop s b = CHR ''('' # text_of c @ CHR '')'' # ?rest" using b assms(2) by (simp add: paren_def)
  have p: "peek b ''('' s = Done True s" using peek_head [OF b, of "''(''"] by (simp add: white_eq NUL_def)
  have t: "gettoken b s = Done (CHR ''('', s, Suc s) (Suc s)"
    by (rule gettoken_symbol [OF b]) (use text_nonwhite [OF assms(3), of "CHR '')'' # ?rest" False] in \<open>simp_all add: paren_def white_eq\<close>)
  note b1 = drop_Suc_eq [OF b]
  have "reads b (parseline b) (Suc s) (text_of c) c"
    using assms(1) b1 unfolding reads_line_def by (metis end_line_def starts_simps(2))
  then obtain r where r: "parseline b (Suc s) = Done r (Suc s + ?n)" "map_cmd (word b) r = c" by (rule readsE)
  note b2 = drop_plus_eq [OF b1]
  have p': "peek b '')'' (Suc s + ?n) = Done True (Suc s + ?n)" using peek_head [OF b2, of "'')''"] by (simp add: white_eq NUL_def)
  have t': "gettoken b (Suc s + ?n) = Done (CHR '')'', Suc s + ?n, Suc (Suc s + ?n)) (Suc (Suc s + ?n))"
    by (rule gettoken_symbol [OF b2]) (use starts_mono [OF redirs_separate [OF post rs]] in simp_all)
  have "parseexec b s = parseredirs b r (Suc (Suc s + ?n))"
    by (simp only: parseexec.simps [of b s] bd_Done [of "peek b _", OF p] if_True parseblock.simps [of b s]
        not_True_eq_False if_False bd_Done [of "gettoken b", OF t] bd_Done [of "parseline b", OF r(1)] bd_Done [of "peek b _", OF p']
        bd_Done [of "gettoken b", OF t'])
  moreover have "reads b (parseredirs b r) (Suc (Suc s + ?n)) (redirs_text rs) (wrap c rs)"
    using parseredirs_reads [OF drop_Suc_eq [OF b2] rs post, of r] r(2) by simp
  ultimately show "reads b (parseexec b) s (paren (0 < lvl c) (text_of c) @ redirs_text rs) (wrap c rs)"
    using assms(2) by (simp add: reads_def paren_def add.assoc)
qed

lemma exec_reads: "writable (EXEC av) \<Longrightarrow> reads_exec (EXEC av)"
  unfolding reads_exec_def
proof (intro allI impI)
  fix b s rs post
  assume w: "writable (EXEC av)" and b: "drop s b = paren (0 < lvl (EXEC av)) (text_of (EXEC av)) @ redirs_text rs @ post"
    and rs: "are_redirs rs" and post: "starts end_exec post"
  have b: "drop s b = words av @ redirs_text rs @ post" using b by (simp add: paren_def)
  have "starts (\<lambda>c. \<not> white c \<and> c \<noteq> CHR ''('') (words av @ redirs_text rs @ post)"
  proof (cases "av = []")
    case True
    have "starts (\<lambda>c. \<not> white c \<and> c \<noteq> CHR ''('') (redirs_text rs @ post)"
      by (rule starts_mono [OF redirs_starts [OF post rs]]) (auto simp: end_exec_def)
    with True show ?thesis by simp
  next
    case False
    then show ?thesis using words_start [of av] w by (auto simp: wordchar_cases)
  qed
  then have "peek b ''('' s = Done False s"
    using peek_head [OF b, of "''(''"] by (cases "words av @ redirs_text rs @ post") auto
  then have "parseexec b s = bd (parseredirs b (EXEC [])) (\<lambda>c. parseargs b c 0) s"
    by (simp add: parseexec.simps [of b s] bd_run [of "peek b _"])
  then show "reads b (parseexec b) s (paren (0 < lvl (EXEC av)) (text_of (EXEC av)) @ redirs_text rs) (wrap (EXEC av) rs)"
    using parseargs_reads [OF b rs post, of "[]"] w by (simp add: reads_def paren_def)
qed

lemma pipe_reads:
  assumes "reads_exec c" and "reads_pipe d" and "writable d"
  shows "reads_pipe (PIPE c d)"
  unfolding reads_pipe_def
proof (intro allI impI)
  fix b s post
  let ?t = "paren (0 < lvl c) (text_of c)" and ?u = "paren (1 < lvl d) (text_of d)"
  assume b: "drop s b = paren (1 < lvl (PIPE c d)) (text_of (PIPE c d)) @ post" and post: "starts end_pipe post"
  have b: "drop s b = ?t @ CHR ''|'' # ?u @ post" using b by (simp add: paren_def)
  have "reads b (parseexec b) s ?t c"
    using assms(1) [unfolded reads_exec_def, rule_format, of s b "[]" "CHR ''|'' # ?u @ post"] b
    by (simp add: are_redirs_def end_exec_def)
  then obtain r where r: "parseexec b s = Done r (s + length ?t)" "map_cmd (word b) r = c" by (rule readsE)
  let ?v = "s + length ?t"
  note b1 = drop_plus_eq [OF b]
  have p: "peek b ''|'' ?v = Done True ?v" using peek_head [OF b1, of "''|''"] by (simp add: NUL_def)
  have t: "gettoken b ?v = Done (CHR ''|'', ?v, Suc ?v) (Suc ?v)"
    by (rule gettoken_symbol [OF b1]) (use text_nonwhite [OF assms(3) nonwhite_ends(2) [OF post]] in simp_all)
  have "reads b (parsepipe b) (Suc ?v) ?u d"
    using assms(2) [unfolded reads_pipe_def, rule_format, of "Suc ?v" b post] drop_Suc_eq [OF b1] post by simp
  then obtain q where q: "parsepipe b (Suc ?v) = Done q (Suc ?v + length ?u)" "map_cmd (word b) q = d" by (rule readsE)
  have "parsepipe b s = Done (PIPE r q) (Suc ?v + length ?u)"
    by (simp add: parsepipe.simps [of b s] bd_Done [of "parseexec b", OF r(1)] bd_Done [of "peek b _", OF p]
        bd_Done [of "gettoken b", OF t] bd_Done [of "parsepipe b", OF q(1)])
  then show "reads b (parsepipe b) s (paren (1 < lvl (PIPE c d)) (text_of (PIPE c d))) (PIPE c d)"
    using r(2) q(2) by (simp add: reads_def paren_def)
qed

lemma back_reads:
  assumes "reads_back c"
  shows "reads_back (BACK c)"
  unfolding reads_back_def
proof (intro allI impI)
  fix b s post
  let ?t = "paren (2 < lvl c) (text_of c)"
  let ?v = "s + length ?t"
  assume b: "drop s b = paren (2 < lvl (BACK c)) (text_of (BACK c)) @ post" and post: "starts end_pipe post"
  have b: "drop s b = ?t @ CHR ''&'' # post" using b by (simp add: paren_def)
  obtain r where r: "map_cmd (word b) r = c" "bd (parsepipe b) (parsebacks b) s = parsebacks b r ?v"
    using assms [unfolded reads_back_def, rule_format, OF b] by (auto simp: end_pipe_def)
  note b1 = drop_plus_eq [OF b]
  have p: "peek b ''&'' ?v = Done True ?v" using peek_head [OF b1, of "''&''"] by (simp add: NUL_def)
  have t: "gettoken b ?v = Done (CHR ''&'', ?v, Suc ?v) (Suc ?v)"
    by (rule gettoken_symbol [OF b1]) (use nonwhite_ends(2) [OF post] in simp_all)
  have "parsebacks b r ?v = parsebacks b (BACK r) (Suc ?v)"
    by (simp add: parsebacks.simps [of b r ?v] bd_Done [of "peek b _", OF p] bd_Done [of "gettoken b", OF t])
  then show "\<exists>r. map_cmd (word b) r = BACK c \<and> bd (parsepipe b) (parsebacks b) s =
      parsebacks b r (s + length (paren (2 < lvl (BACK c)) (text_of (BACK c))))"
    using r by (intro exI [of _ "BACK r"]) (simp add: paren_def)
qed

lemma list_reads:
  assumes "reads_back c" and "reads_line d" and "writable d"
  shows "reads_line (LIST c d)"
  unfolding reads_line_def
proof (intro allI impI)
  fix b s post
  let ?t = "paren (2 < lvl c) (text_of c)"
  let ?v = "s + length ?t"
  assume b: "drop s b = text_of (LIST c d) @ post" and post: "starts end_line post"
  have b: "drop s b = ?t @ CHR '';'' # text_of d @ post" using b by simp
  obtain r where r: "map_cmd (word b) r = c" "parseline b s =
      bd (peek b '';'') (\<lambda>p. if p then bd (gettoken b) (\<lambda>_. bd (parseline b) (\<lambda>right. ret (listcmd r right))) else ret r) ?v"
    by (rule parseline_back [OF assms(1) b]) (simp add: end_back_def)
  note b1 = drop_plus_eq [OF b]
  have p: "peek b '';'' ?v = Done True ?v" using peek_head [OF b1, of "'';''"] by (simp add: NUL_def)
  have t: "gettoken b ?v = Done (CHR '';'', ?v, Suc ?v) (Suc ?v)"
    by (rule gettoken_symbol [OF b1])
      (use text_nonwhite [OF assms(3) nonwhite_ends(4) [OF post], of False] in \<open>simp_all add: paren_def\<close>)
  have "reads b (parseline b) (Suc ?v) (text_of d) d"
    using assms(2) [unfolded reads_line_def, rule_format, OF drop_Suc_eq [OF b1] post] .
  then obtain q where q: "parseline b (Suc ?v) = Done q (Suc ?v + length (text_of d))" "map_cmd (word b) q = d" by (rule readsE)
  have "parseline b s = Done (LIST r q) (Suc ?v + length (text_of d))"
    by (simp add: r(2) bd_Done [of "peek b _", OF p] bd_Done [of "gettoken b", OF t] bd_Done [of "parseline b", OF q(1)])
  then show "reads b (parseline b) s (text_of (LIST c d)) (LIST c d)"
    using r(1) q(2) by (simp add: reads_def)
qed

lemma redir_reads:
  assumes "reads_exec c" and "is_word f" and "is_redir mode fd"
  shows "reads_exec (REDIR c f mode fd)"
  unfolding reads_exec_def
proof (intro allI impI)
  fix b s rs post
  assume b: "drop s b = paren (0 < lvl (REDIR c f mode fd)) (text_of (REDIR c f mode fd)) @ redirs_text rs @ post"
    and rs: "are_redirs rs" and post: "starts end_exec post"
  show "reads b (parseexec b) s (paren (0 < lvl (REDIR c f mode fd)) (text_of (REDIR c f mode fd)) @ redirs_text rs)
      (wrap (REDIR c f mode fd) rs)"
    using assms(1) [unfolded reads_exec_def, rule_format, of s b "(f, mode, fd) # rs" post] b rs post assms(2,3)
    by (simp add: paren_def are_redirs_def)
qed

text \<open>The cycle through the levels: from any nonterminal to the others.\<close>

lemma all_levels:
  assumes "writable c"
  shows "lvl c = 0 \<Longrightarrow> reads_exec c \<Longrightarrow> reads_exec c \<and> reads_pipe c \<and> reads_back c \<and> reads_line c"
    and "lvl c = 1 \<Longrightarrow> reads_pipe c \<Longrightarrow> reads_exec c \<and> reads_pipe c \<and> reads_back c \<and> reads_line c"
    and "lvl c = 2 \<Longrightarrow> reads_back c \<Longrightarrow> reads_exec c \<and> reads_pipe c \<and> reads_back c \<and> reads_line c"
    and "lvl c = 3 \<Longrightarrow> reads_line c \<Longrightarrow> reads_exec c \<and> reads_pipe c \<and> reads_back c \<and> reads_line c"
  using exec_pipe [of c] pipe_back [of c] back_line [of c] line_exec [of c] assms by auto

lemma parse_text: "writable c \<Longrightarrow> reads_exec c \<and> reads_pipe c \<and> reads_back c \<and> reads_line c"
proof (induction c)
  case (EXEC av)
  then show ?case by (intro all_levels(1) exec_reads) simp_all
next
  case (REDIR c f mode fd)
  then show ?case by (intro all_levels(1) redir_reads) simp_all
next
  case (PIPE c d)
  then show ?case by (intro all_levels(2) pipe_reads) simp_all
next
  case (LIST c d)
  then show ?case by (intro all_levels(4) list_reads) simp_all
next
  case (BACK c)
  then show ?case by (intro all_levels(3) back_reads) simp_all
qed

lemma word_no_NUL: "is_word w \<Longrightarrow> NUL \<notin> set w"
  by (auto simp: is_word_def list_all_iff)

lemma NUL_plain [simp]:
  "NUL \<noteq> CHR '' ''" "NUL \<noteq> CHR ''<''" "NUL \<noteq> CHR ''>''" "NUL \<noteq> CHR ''|''" "NUL \<noteq> CHR ''&''" "NUL \<noteq> CHR '';''"
  "NUL \<noteq> CHR ''(''" "NUL \<noteq> CHR '')''"
  by (simp_all add: NUL_def)

lemma words_no_NUL: "list_all is_word ws \<Longrightarrow> NUL \<notin> set (words ws)"
  by (induction ws rule: words.induct) (auto simp: word_no_NUL)

lemma text_no_NUL: "writable c \<Longrightarrow> NUL \<notin> set (text_of c)"
  by (induction c) (auto simp: words_no_NUL word_no_NUL paren_def redir_text_def)

section \<open>The parser inverts the printer\<close>

text \<open>
  C10: the parser reads back every command that can be written down. For a command of any
  nesting of pipes, lists, background marks and redirections, whose words consist of word
  characters, whose argument vectors fit and whose redirections are those of the shell, \<^verbatim>\<open>parsecmd\<close>
  on its text returns, and the strings of the tree it returns make up the same command.
\<close>

theorem parsecmd_inverts_text:
  assumes "writable c"
  shows "\<exists>r l. parsecmd (text_of c) 0 = Done (r, l) (length (text_of c)) \<and> strings l r = c"
proof -
  let ?b = "text_of c"
  have "reads ?b (parseline ?b) 0 ?b c"
    using parse_text [OF assms] unfolding reads_line_def by simp
  then obtain r where r: "parseline ?b 0 = Done r (length ?b)" "map_cmd (word ?b) r = c"
    by (auto simp: reads_def)
  have p: "peek ?b '''' (length ?b) = Done False (length ?b)"
    using peek_head [of "length ?b" ?b "[]"] by simp
  have "parsecmd ?b 0 = Done (r, nulterminate r (?b @ [NUL])) (length ?b)"
    by (simp add: parsecmd_def bd_run r(1) p)
  moreover have "parsed ?b r" using parse_safely(1) [of ?b 0] r(1) by (simp add: safely_def)
  ultimately show ?thesis using strings_parsed [OF _ text_no_NUL [OF assms]] r(2) by auto
qed

theorem parsecmd_inverts_text_witness:
  "\<exists>r l. parsecmd ''(ls;cat<f)|wc -l>out&'' 0 = Done (r, l) 21 \<and>
    strings l r = BACK (PIPE (LIST (EXEC [''ls'']) (REDIR (EXEC [''cat'']) ''f'' O_RDONLY 0))
      (REDIR (EXEC [''wc'', ''-l'']) ''out'' (O_WRONLY OR O_CREATE) 1))"
proof -
  let ?c = "BACK (PIPE (LIST (EXEC [''ls'']) (REDIR (EXEC [''cat'']) ''f'' O_RDONLY 0))
      (REDIR (EXEC [''wc'', ''-l'']) ''out'' (O_WRONLY OR O_CREATE) 1))"
  have w: "writable ?c"
    by (simp add: is_word_def is_redir_def MAXARGS_def wordchar_cases white_eq NUL_def)
  have t: "text_of ?c = ''(ls;cat<f)|wc -l>out&''" by (simp add: paren_def redir_text_def)
  have n: "length ''(ls;cat<f)|wc -l>out&'' = 21" by simp
  show ?thesis using parsecmd_inverts_text [OF w] unfolding t n .
qed

end
