(* ===== verification/Grep.thy ===== *)
theory Grep
  imports Ulib
begin

text \<open>
  \<^verbatim>\<open>grep.c\<close>: the matcher of Kernighan and Pike, shown to decide the language of the pattern, and
  the loop that reads the input, splits its buffer into lines and prints those that match, shown to
  print exactly the matching lines of a file. The input is the string of the bytes that are
  still to be read, and \<open>sizes\<close> tells how many bytes the next reads may return: a pipe or the
  console may return fewer than asked for, a regular file does not (\<open>sizes = []\<close>).
\<close>

section \<open>Definitions\<close>

function matchhere :: "string \<Rightarrow> string \<Rightarrow> bool"
  and matchstar :: "char \<Rightarrow> string \<Rightarrow> string \<Rightarrow> bool" where
  "matchhere re text =
     (case re of
        [] \<Rightarrow> True
      | c # re' \<Rightarrow>
          if re' \<noteq> [] \<and> hd re' = CHR ''*'' then matchstar c (tl re') text
          else if c = CHR ''$'' \<and> re' = [] then text = []
          else if text \<noteq> [] \<and> (c = CHR ''.'' \<or> c = hd text) then matchhere re' (tl text)
          else False)"
| "matchstar c re text =
     (if matchhere re text then True
      else if text \<noteq> [] \<and> (hd text = c \<or> c = CHR ''.'') then matchstar c re (tl text)
      else False)"
  by pat_completeness auto
termination
  by (relation "measures [case_sum (\<lambda>(re, text). 2 * length re) (\<lambda>(c, re, text). 2 * length re + 1),
        case_sum (\<lambda>(re, text). length text) (\<lambda>(c, re, text). length text)]")
    (auto simp: neq_Nil_conv)

declare matchhere.simps [simp del] matchstar.simps [simp del]

fun match_loop :: "string \<Rightarrow> string \<Rightarrow> bool" where
  "match_loop re [] = matchhere re []"
| "match_loop re (c # text) = (matchhere re (c # text) \<or> match_loop re text)"

definition match :: "string \<Rightarrow> string \<Rightarrow> bool" where
  "match re text = (if re \<noteq> [] \<and> hd re = CHR ''^'' then matchhere (tl re) text else match_loop re text)"

text \<open>
  The inner loop of \<^verbatim>\<open>grep\<close>: \<open>p\<close> is the part of the buffer from the pointer \<^verbatim>\<open>p\<close> on, and \<^verbatim>\<open>strchr\<close>
  sees it up to a NUL. The result is what is written and the final \<^verbatim>\<open>p\<close>.
\<close>

definition NEWLINE :: char where "NEWLINE = CHR 0x0A"

definition cut :: "string \<Rightarrow> string" where
  "cut p = takeWhile (\<lambda>c. c \<noteq> NUL) p"

function grep_lines :: "string \<Rightarrow> string \<Rightarrow> string \<times> string" where
  "grep_lines pattern p =
     (case strchr (cut p) NEWLINE of
        None \<Rightarrow> ([], p)
      | Some q \<Rightarrow>
          let n = length (cut p) - length q;
              (out, p') = grep_lines pattern (drop (Suc n) p)
          in ((if match pattern (take n p) then take (Suc n) p else []) @ out, p'))"
  by pat_completeness auto

termination
proof (relation "measure (\<lambda>(pattern, p). length p)", goal_cases)
  case (2 pattern p q n)
  then have "cut p \<noteq> []" by auto
  then have "p \<noteq> []" by (auto simp: cut_def)
  then show ?case by simp
qed simp

declare grep_lines.simps [simp del]

text \<open>
  One call of \<^verbatim>\<open>read\<close> for at most \<open>k\<close> bytes, and the outer loop. \<open>b\<close> are the \<^verbatim>\<open>m\<close> bytes kept at
  the start of the buffer of 1024 bytes; when no line ends in the buffer they are dropped.
\<close>

fun read_upto :: "nat list \<Rightarrow> nat \<Rightarrow> nat" where
  "read_upto [] k = k"
| "read_upto (n # ns) k = min n k"

function grep :: "string \<Rightarrow> nat list \<Rightarrow> string \<Rightarrow> string \<Rightarrow> string" where
  "grep pattern sizes b rest =
     (let n = read_upto sizes (1024 - length b - 1);
          buf = b @ take n rest
      in if take n rest = [] then []
         else
           let (out, p) = grep_lines pattern buf;
               b' = (if p = buf then [] else p)
           in out @ grep pattern (drop 1 sizes) b' (drop n rest))"
  by pat_completeness auto
termination
  by (relation "measure (\<lambda>(pattern, sizes, b, rest). length rest)") auto

declare grep.simps [simp del]

section \<open>The matcher decides the language of the pattern\<close>

text \<open>
  A pattern is a sequence of characters, some starred, with an optional anchor at the end;
  a full stop stands for any character.
\<close>

datatype item = One char | Star char

fun items :: "string \<Rightarrow> item list \<times> bool" where
  "items [] = ([], False)"
| "items [c] = (if c = CHR ''$'' then ([], True) else ([One c], False))"
| "items (c # d # re) =
     (if d = CHR ''*'' then apfst ((#) (Star c)) (items re) else apfst ((#) (One c)) (items (d # re)))"

definition fits :: "char \<Rightarrow> char \<Rightarrow> bool" where
  "fits c x \<longleftrightarrow> c = CHR ''.'' \<or> c = x"

fun lang :: "item list \<Rightarrow> string set" where
  "lang [] = {[]}"
| "lang (One c # r) = {x # u | x u. fits c x \<and> u \<in> lang r}"
| "lang (Star c # r) = {v @ u | v u. list_all (fits c) v \<and> u \<in> lang r}"

text \<open>\<open>here re t\<close>: a prefix of \<open>t\<close> is in the language, all of \<open>t\<close> when the pattern ends in the anchor.\<close>

definition here :: "string \<Rightarrow> string \<Rightarrow> bool" where
  "here re t \<longleftrightarrow> (\<exists>u v. t = u @ v \<and> u \<in> lang (fst (items re)) \<and> (snd (items re) \<longrightarrow> v = []))"

lemma items_star: "items (c # CHR ''*'' # re) = (Star c # fst (items re), snd (items re))"
  by (simp add: apfst_def map_prod_def split: prod.splits)

lemma items_one:
  assumes "re = [] \<Longrightarrow> c \<noteq> CHR ''$''" and "re \<noteq> [] \<Longrightarrow> hd re \<noteq> CHR ''*''"
  shows "items (c # re) = (One c # fst (items re), snd (items re))"
  using assms by (cases re) (simp_all add: apfst_def map_prod_def split: prod.splits)

lemma here_Nil: "here [] t"
  by (simp add: here_def)

lemma here_end: "here ''$'' t \<longleftrightarrow> t = []"
  by (auto simp: here_def)

text \<open>\<open>starred c P t\<close>: after some characters of \<open>t\<close> that fit \<open>c\<close> comes a rest that satisfies \<open>P\<close>.\<close>

definition starred :: "char \<Rightarrow> (string \<Rightarrow> bool) \<Rightarrow> string \<Rightarrow> bool" where
  "starred c P t \<longleftrightarrow> (\<exists>w v. t = w @ v \<and> list_all (fits c) w \<and> P v)"

lemma starred_step: "starred c P t \<longleftrightarrow> P t \<or> t \<noteq> [] \<and> fits c (hd t) \<and> starred c P (tl t)" (is "?L \<longleftrightarrow> ?R")
proof
  assume ?L
  then obtain w v where w: "t = w @ v" "list_all (fits c) w" "P v" unfolding starred_def by blast
  show ?R
  proof (cases w)
    case (Cons x w')
    have "starred c P (w' @ v)" unfolding starred_def using w Cons by auto
    then show ?thesis using w Cons by simp
  qed (use w in simp)
next
  assume R: ?R
  show ?L
  proof (cases "P t")
    case True
    then show ?thesis unfolding starred_def by (intro exI [of _ "[]"] exI [of _ t]) simp
  next
    case False
    then obtain w v where w: "t \<noteq> []" "fits c (hd t)" "tl t = w @ v" "list_all (fits c) w" "P v"
      using R unfolding starred_def by blast
    then show ?thesis unfolding starred_def by (intro exI [of _ "hd t # w"] exI [of _ v]) (cases t, auto)
  qed
qed

lemma here_star: "here (c # CHR ''*'' # re) t \<longleftrightarrow> starred c (here re) t" (is "?L \<longleftrightarrow> ?R")
proof
  assume ?L
  then obtain y v where y: "t = y @ v" "y \<in> lang (Star c # fst (items re))" "snd (items re) \<longrightarrow> v = []"
    unfolding here_def items_star fst_conv snd_conv by blast
  then obtain w u where "y = w @ u" "list_all (fits c) w" "u \<in> lang (fst (items re))" unfolding lang.simps by blast
  with y have *: "t = w @ u @ v" "list_all (fits c) w" "u \<in> lang (fst (items re))" "snd (items re) \<longrightarrow> v = []" by simp_all
  then have "here re (u @ v)" unfolding here_def by blast
  with * show ?R unfolding starred_def by blast
next
  assume ?R
  then obtain w u v where *: "t = w @ u @ v" "list_all (fits c) w" "u \<in> lang (fst (items re))" "snd (items re) \<longrightarrow> v = []"
    unfolding here_def starred_def by blast
  then have "w @ u \<in> lang (Star c # fst (items re))" unfolding lang.simps by blast
  with * show ?L unfolding here_def items_star fst_conv snd_conv by (intro exI [of _ "w @ u"] exI [of _ v]) simp
qed

lemma here_one:
  assumes "re = [] \<Longrightarrow> c \<noteq> CHR ''$''" and "re \<noteq> [] \<Longrightarrow> hd re \<noteq> CHR ''*''"
  shows "here (c # re) t \<longleftrightarrow> t \<noteq> [] \<and> fits c (hd t) \<and> here re (tl t)" (is "?L \<longleftrightarrow> ?R")
proof -
  have one: "items (c # re) = (One c # fst (items re), snd (items re))" using assms by (rule items_one)
  show ?thesis
  proof
    assume ?L
    then obtain y v where y: "t = y @ v" "y \<in> lang (One c # fst (items re))" "snd (items re) \<longrightarrow> v = []"
      unfolding here_def one fst_conv snd_conv by blast
    then obtain x u where x: "y = x # u" "fits c x" "u \<in> lang (fst (items re))" unfolding lang.simps by blast
    then have "here re (u @ v)" using y(3) unfolding here_def by blast
    then show ?R using x y by simp
  next
    assume R: ?R
    then obtain u v where u: "tl t = u @ v" "u \<in> lang (fst (items re))" "snd (items re) \<longrightarrow> v = []" unfolding here_def by blast
    then have "hd t # u \<in> lang (One c # fst (items re))" using R by simp
    moreover have "t = (hd t # u) @ v" using R u(1) by (metis append_Cons list.exhaust_sel)
    ultimately show ?L
      using u(3) unfolding here_def one fst_conv snd_conv by (intro exI [of _ "hd t # u"] exI [of _ v] conjI)
  qed
qed

lemma match_here:
  "matchhere re t \<longleftrightarrow> here re t"
  "matchstar c re t \<longleftrightarrow> starred c (here re) t"
proof (induction re t and c re t rule: matchhere_matchstar.induct)
  case (1 re t)
  show ?case
  proof (cases re)
    case Nil
    then show ?thesis by (subst matchhere.simps) (simp add: here_Nil)
  next
    case (Cons c re')
    consider (star) re'' where "re' = CHR ''*'' # re''" | (eol) "c = CHR ''$''" "re' = []"
      | (one) "re' = [] \<Longrightarrow> c \<noteq> CHR ''$''" "re' \<noteq> [] \<Longrightarrow> hd re' \<noteq> CHR ''*''"
      by (cases re') auto
    then show ?thesis
    proof cases
      case star
      then show ?thesis using 1(1) [OF Cons] Cons by (subst matchhere.simps) (simp add: here_star)
    next
      case eol
      then show ?thesis using Cons by (subst matchhere.simps) (simp add: here_end)
    next
      case one
      then have "matchhere re t = (if t \<noteq> [] \<and> (c = CHR ''.'' \<or> c = hd t) then matchhere re' (tl t) else False)"
        using Cons by (subst matchhere.simps) auto
      also have "\<dots> = here re t"
        using 1(2) [OF Cons] one Cons here_one [of re' c t] by (auto simp: fits_def)
      finally show ?thesis .
    qed
  qed
next
  case (2 c re t)
  have "matchstar c re t = (here re t \<or> t \<noteq> [] \<and> fits c (hd t) \<and> matchstar c re (tl t))"
    using 2(1) by (subst matchstar.simps) (auto simp: fits_def)
  also have "\<dots> = starred c (here re) t"
    using 2 starred_step [of c "here re" t] by (auto simp: fits_def)
  finally show ?case .
qed

lemma match_loop_iff: "match_loop re t \<longleftrightarrow> (\<exists>p s. t = p @ s \<and> matchhere re s)"
proof (induction t)
  case (Cons c t)
  show ?case
  proof
    assume "match_loop re (c # t)"
    then consider "matchhere re (c # t)" | p s where "t = p @ s" "matchhere re s" using Cons by auto
    then show "\<exists>p s. c # t = p @ s \<and> matchhere re s"
    proof cases
      case 1
      then show ?thesis by (intro exI [of _ "[]"] exI [of _ "c # t"]) simp
    next
      case 2
      then show ?thesis by (intro exI [of _ "c # p"] exI [of _ s]) simp
    qed
  next
    assume "\<exists>p s. c # t = p @ s \<and> matchhere re s"
    then obtain p s where "c # t = p @ s" "matchhere re s" by blast
    then show "match_loop re (c # t)" using Cons by (cases p) auto
  qed
qed simp

text \<open>
  C12: the matcher decides the language of the pattern. \<^verbatim>\<open>match\<close> returns for every pattern
  and text, and it accepts exactly the texts some substring of which is in the language
  of the pattern: a substring at the start when the pattern begins with the caret, one at the end
  when it ends with the dollar sign, and any one otherwise.
\<close>

theorem match_decides_language:
  "match re t \<longleftrightarrow>
    (let caret = re \<noteq> [] \<and> hd re = CHR ''^'';
         (r, dollar) = items (if caret then tl re else re)
     in \<exists>p u v. t = p @ u @ v \<and> u \<in> lang r \<and> (caret \<longrightarrow> p = []) \<and> (dollar \<longrightarrow> v = []))"
proof (cases "re \<noteq> [] \<and> hd re = CHR ''^''")
  case True
  then show ?thesis by (simp add: match_def match_here here_def split: prod.split)
next
  case False
  obtain r dollar where r: "items re = (r, dollar)" by (cases "items re")
  have "match re t \<longleftrightarrow> (\<exists>p s. t = p @ s \<and> here re s)"
    unfolding match_def if_not_P [OF False] match_loop_iff match_here ..
  also have "\<dots> \<longleftrightarrow> (\<exists>p u v. t = p @ u @ v \<and> u \<in> lang r \<and> (dollar \<longrightarrow> v = []))"
    unfolding here_def r fst_conv snd_conv by blast
  finally show ?thesis unfolding Let_def if_not_P [OF False] r prod.case using False by blast
qed

theorem match_decides_language_witness:
  "\<exists>p u v. ''bread'' = p @ u @ v \<and> u \<in> lang [Star CHR ''e'', One CHR ''a'']"
proof -
  have "match ''e*a'' ''bread''" by code_simp
  then show ?thesis using match_decides_language [of "''e*a''" "''bread''"] by simp
qed

lemma match_anchored: "match ''^b.*d$'' ''bread'' \<and> \<not> match ''^b.*d$'' ''a bread''"
  by code_simp

section \<open>The matching lines are printed\<close>

definition unlines :: "string list \<Rightarrow> string" where
  "unlines ls = concat (map (\<lambda>l. l @ [NEWLINE]) ls)"

text \<open>A line that fits the buffer with its newline.\<close>

definition plain :: "string \<Rightarrow> bool" where
  "plain l \<longleftrightarrow> NEWLINE \<notin> set l \<and> NUL \<notin> set l"

lemma unlines_simps [simp]:
  "unlines [] = []" "unlines (l # ls) = l @ NEWLINE # unlines ls" "unlines (ls @ ms) = unlines ls @ unlines ms"
  by (simp_all add: unlines_def)

lemma cut_plain: "NUL \<notin> set p \<Longrightarrow> cut p = p"
  by (simp add: cut_def takeWhile_eq_all_conv) metis

lemma unlines_no_NUL: "list_all plain ls \<Longrightarrow> NUL \<notin> set (unlines ls)"
  by (induction ls) (auto simp: plain_def NEWLINE_def NUL_def)

lemma grep_lines_unlines:
  "list_all plain ls \<Longrightarrow> plain part \<Longrightarrow>
   grep_lines pattern (unlines ls @ part) = (unlines (filter (match pattern) ls), part)"
proof (induction ls)
  case Nil
  then have "cut part = part" "strchr part NEWLINE = None" by (simp_all add: cut_plain plain_def)
  then show ?case by (subst grep_lines.simps) (simp del: strchr_eq_None)
next
  case (Cons l ls)
  let ?rest = "unlines ls @ part"
  have "NUL \<notin> set (l @ NEWLINE # ?rest)" using unlines_no_NUL [OF Cons(2)] Cons(3) by (simp add: plain_def)
  then have "cut (l @ NEWLINE # ?rest) = l @ NEWLINE # ?rest" by (rule cut_plain)
  moreover have "strchr (l @ NEWLINE # ?rest) NEWLINE = Some (NEWLINE # ?rest)"
    using Cons(2) by (intro strchr_append) (simp add: plain_def)
  ultimately show ?case using Cons by (subst grep_lines.simps) simp
qed

lemma take_unlines:
  "list_all plain ls \<Longrightarrow> plain tail \<Longrightarrow>
   \<exists>ls1 ls2 part. ls = ls1 @ ls2 \<and> take n (unlines ls @ tail) = unlines ls1 @ part \<and> plain part \<and>
     part @ drop n (unlines ls @ tail) = unlines ls2 @ tail \<and>
     (\<forall>l ls'. ls = l # ls' \<longrightarrow> length l < n \<longrightarrow> ls1 \<noteq> [])"
proof (induction ls arbitrary: n)
  case Nil
  have "plain (take n tail)" using Nil(2) by (auto simp: plain_def dest: in_set_takeD)
  then show ?case using Nil by (intro exI [of _ "[]"] exI [of _ "take n tail"]) simp
next
  case (Cons l ls)
  show ?case
  proof (cases "n \<le> length l")
    case True
    have "plain (take n l)" using Cons(2) by (auto simp: plain_def dest: in_set_takeD)
    then show ?thesis using True
      by (intro exI [of _ "[]"] exI [of _ "l # ls"] exI [of _ "take n l"]) simp
  next
    case False
    then obtain m where n: "n = length l + Suc m" by (metis add_Suc_right less_imp_Suc_add not_le)
    obtain ls1 ls2 part where IH: "ls = ls1 @ ls2" "take m (unlines ls @ tail) = unlines ls1 @ part" "plain part"
        "part @ drop m (unlines ls @ tail) = unlines ls2 @ tail"
      using Cons(1) [of m] Cons(2,3) by auto
    then show ?thesis using n
      by (intro exI [of _ "l # ls1"] exI [of _ ls2] exI [of _ part]) simp
  qed
qed

lemma grep_unlines:
  assumes "list_all plain ls" and "list_all (\<lambda>l. length l < 1023) ls" and "plain tail"
    and "b @ rest = unlines ls @ tail" and "plain b" and "length b < 1023"
  shows "grep pattern [] b rest = unlines (filter (match pattern) ls)"
  using assms
proof (induction "length rest" arbitrary: ls tail b rest rule: less_induct)
  case less
  define n where "n = 1024 - length b - 1"
  have buf: "b @ take n rest = take 1023 (unlines ls @ tail)" and drop: "drop n rest = drop 1023 (unlines ls @ tail)"
    unfolding less(5) [symmetric] n_def using less(7) by simp_all
  show ?case
  proof (cases "rest = []")
    case True
    then have "NEWLINE \<notin> set (unlines ls)" using less(5,6) by (metis Un_iff append_Nil2 plain_def set_append)
    then have "ls = []" by (cases ls) auto
    then show ?thesis using True by (subst grep.simps) simp
  next
    case False
    have n: "0 < n" using less(7) by (simp add: n_def)
    have more: "take n rest \<noteq> []" using False n by simp
    obtain ls1 ls2 part where s: "ls = ls1 @ ls2" "take 1023 (unlines ls @ tail) = unlines ls1 @ part" "plain part"
        "part @ drop 1023 (unlines ls @ tail) = unlines ls2 @ tail" "\<forall>l ls'. ls = l # ls' \<longrightarrow> length l < 1023 \<longrightarrow> ls1 \<noteq> []"
      using take_unlines [OF less(2,4), of 1023] by blast
    let ?b = "if part = unlines ls1 @ part then [] else part"
    have run: "grep pattern [] b rest = unlines (filter (match pattern) ls1) @ grep pattern [] ?b (drop n rest)"
    proof -
      have "grep_lines pattern (b @ take n rest) = (unlines (filter (match pattern) ls1), part)"
        unfolding buf s(2) using less(2) s(1,3) by (simp add: grep_lines_unlines)
      moreover have "part = b @ take n rest \<longleftrightarrow> part = unlines ls1 @ part" unfolding buf s(2) ..
      ultimately show ?thesis
        using more by (subst grep.simps) (simp only: Let_def read_upto.simps n_def [symmetric] prod.case drop_Nil if_False)
    qed
    have shorter: "length (drop n rest) < length rest" using False n by simp
    show ?thesis
    proof (cases "ls1 = []")
      case True
      then have "ls = []" using s(5) less(3) by (cases ls) auto
      have "plain (drop n rest)" using less(4,5) \<open>ls = []\<close> by (auto simp: plain_def dest!: in_set_dropD)
      then have "grep pattern [] [] (drop n rest) = []"
        using less(1) [OF shorter, of "[]" "drop n rest" "[]"] by (simp add: plain_def)
      then show ?thesis using run True \<open>ls = []\<close> by simp
    next
      case False
      then have p: "part \<noteq> unlines ls1 @ part" by (cases ls1) auto
      have "length part < 1023"
        using arg_cong [OF s(2), of length] False by (cases ls1) auto
      then have "grep pattern [] part (drop n rest) = unlines (filter (match pattern) ls2)"
        using less(1) [OF shorter, of ls2 tail part] less(2-5) s drop by simp
      then show ?thesis using run p s(1) by simp
    qed
  qed
qed

text \<open>
  C13: \<^verbatim>\<open>grep\<close> on a file. For a file whose lines fit the buffer and contain no NUL, the loop
  ends and prints exactly the lines that match, in order and each with its newline, wherever the
  reads cut the file; characters after the last newline are not searched.
\<close>

theorem grep_prints_matching_lines:
  assumes "list_all (\<lambda>l. NEWLINE \<notin> set l \<and> NUL \<notin> set l \<and> length l < 1023) ls"
    and "NEWLINE \<notin> set tail" and "NUL \<notin> set tail"
  shows "grep pattern [] [] (concat (map (\<lambda>l. l @ [NEWLINE]) ls) @ tail) =
    concat (map (\<lambda>l. l @ [NEWLINE]) (filter (match pattern) ls))"
proof -
  have "list_all plain ls" "list_all (\<lambda>l. length l < 1023) ls" "plain tail" "plain []"
    using assms by (auto simp: plain_def list_all_iff)
  then show ?thesis
    using grep_unlines [of ls tail "[]" "unlines ls @ tail" pattern] by (simp add: unlines_def)
qed

theorem grep_prints_matching_lines_witness:
  "grep ''^b'' [] [] ''abc\<newline>bcd\<newline>cde\<newline>bx'' = ''bcd\<newline>''"
proof -
  have *: "concat (map (\<lambda>l. l @ [NEWLINE]) [''abc'', ''bcd'', ''cde'']) @ ''bx'' = ''abc\<newline>bcd\<newline>cde\<newline>bx''"
    by (simp add: NEWLINE_def)
  have f: "filter (match ''^b'') [''abc'', ''bcd'', ''cde''] = [''bcd'']" by code_simp
  have "list_all (\<lambda>l. NEWLINE \<notin> set l \<and> NUL \<notin> set l \<and> length l < 1023) [''abc'', ''bcd'', ''cde'']"
    "NEWLINE \<notin> set ''bx''" "NUL \<notin> set ''bx''"
    by (simp_all add: NEWLINE_def NUL_def)
  from grep_prints_matching_lines [OF this, of "''^b''"] show ?thesis unfolding * f by (simp add: NEWLINE_def)
qed

text \<open>
  A read that ends inside the first line of the buffer, as one from a pipe may, loses the beginning
  of that line: of \<^verbatim>\<open>hello\<close>, read as \<^verbatim>\<open>hel\<close> and \<^verbatim>\<open>lo\<close>, only \<^verbatim>\<open>lo\<close> is searched.
\<close>

lemma grep_loses_short_reads:
  "match ''h'' ''hello'' \<and> grep ''h'' [] [] ''hello\<newline>'' = ''hello\<newline>'' \<and> grep ''h'' [3] [] ''hello\<newline>'' = ''''"
  by code_simp

end
