(* ===== verification/Devices.thy ===== *)
theory Devices
  imports Console
begin

text \<open>
  The interrupt controllers, the timers, the clock and the serial port (\<^verbatim>\<open>picirq.c\<close>, \<^verbatim>\<open>ioapic.c\<close>,
  \<^verbatim>\<open>lapic.c\<close>, \<^verbatim>\<open>timer.c\<close>, \<^verbatim>\<open>uart.c\<close>). The machine behind the I/O ports and the memory-mapped registers
  is a parameter: a state of any type with functions for the port and register accesses, which are
  all the kernel has of it. A loop that polls a register is a partial function; when it does not
  end the operation has the outcome \<open>Fault\<close>.
\<close>

section \<open>Access to the machine\<close>

record 'c machine =
  m_outb :: "u16 \<Rightarrow> u8 \<Rightarrow> 'c \<Rightarrow> 'c"
  m_inb :: "u16 \<Rightarrow> 'c \<Rightarrow> u8 \<times> 'c"
  m_outsl :: "u16 \<Rightarrow> bytes \<Rightarrow> 'c \<Rightarrow> 'c"
  m_insl :: "u16 \<Rightarrow> nat \<Rightarrow> 'c \<Rightarrow> bytes \<times> 'c"
  m_write32 :: "u32 \<Rightarrow> u32 \<Rightarrow> 'c \<Rightarrow> 'c"
  m_read32 :: "u32 \<Rightarrow> 'c \<Rightarrow> u32 \<times> 'c"

record 'c hwst = consst +
  mach :: 'c
  irqmask :: u16
  ismp :: bool
  ncpu :: nat
  bcpu :: nat
  cpu_ids :: "nat \<Rightarrow> nat"
  ioapicid :: u8
  lapic :: u32

definition outb :: "'c machine \<Rightarrow> u16 \<Rightarrow> u8 \<Rightarrow> (('c, 'z) hwst_scheme, unit) kop" where
  "outb hw port data = modify (\<lambda>s. s\<lparr>mach := m_outb hw port data (mach s)\<rparr>)"

definition inb :: "'c machine \<Rightarrow> u16 \<Rightarrow> (('c, 'z) hwst_scheme, u8) kop" where
  "inb hw port s = (let (v, c) = m_inb hw port (mach s) in Done v (s\<lparr>mach := c\<rparr>))"

definition outsl :: "'c machine \<Rightarrow> u16 \<Rightarrow> bytes \<Rightarrow> (('c, 'z) hwst_scheme, unit) kop" where
  "outsl hw port d = modify (\<lambda>s. s\<lparr>mach := m_outsl hw port d (mach s)\<rparr>)"

definition insl :: "'c machine \<Rightarrow> u16 \<Rightarrow> nat \<Rightarrow> (('c, 'z) hwst_scheme, bytes) kop" where
  "insl hw port cnt s = (let (d, c) = m_insl hw port cnt (mach s) in Done d (s\<lparr>mach := c\<rparr>))"

definition wr32 :: "'c machine \<Rightarrow> u32 \<Rightarrow> u32 \<Rightarrow> (('c, 'z) hwst_scheme, unit) kop" where
  "wr32 hw a v = modify (\<lambda>s. s\<lparr>mach := m_write32 hw a v (mach s)\<rparr>)"

definition rd32 :: "'c machine \<Rightarrow> u32 \<Rightarrow> (('c, 'z) hwst_scheme, u32) kop" where
  "rd32 hw a s = (let (v, c) = m_read32 hw a (mach s) in Done v (s\<lparr>mach := c\<rparr>))"

text \<open>Read again and again while the value read says that the device is busy.\<close>

partial_function (option) poll :: "('c \<Rightarrow> 'v \<times> 'c) \<Rightarrow> ('v \<Rightarrow> bool) \<Rightarrow> 'c \<Rightarrow> ('v \<times> 'c) option" where
  "poll rd busy c = (let (v, c') = rd c in if busy v then poll rd busy c' else Some (v, c'))"

definition await :: "('c \<Rightarrow> 'v \<times> 'c) \<Rightarrow> ('v \<Rightarrow> bool) \<Rightarrow> (('c, 'z) hwst_scheme, 'v) kop" where
  "await rd busy s = (case poll rd busy (mach s) of None \<Rightarrow> Fault | Some (v, c) \<Rightarrow> Done v (s\<lparr>mach := c\<rparr>))"

section \<open>The 8259A interrupt controllers\<close>

definition IO_PIC1 :: u16 where "IO_PIC1 = 0x20"
definition IO_PIC2 :: u16 where "IO_PIC2 = 0xA0"
definition IRQ_SLAVE :: nat where "IRQ_SLAVE = 2"

definition picsetmask :: "'c machine \<Rightarrow> u16 \<Rightarrow> (('c, 'z) hwst_scheme, unit) kop" where
  "picsetmask hw m =
     bd (modify (\<lambda>s. s\<lparr>irqmask := m\<rparr>)) (\<lambda>_.
     bd (outb hw (IO_PIC1 + 1) (ucast m)) (\<lambda>_.
     outb hw (IO_PIC2 + 1) (ucast (drop_bit 8 m))))"

definition picenable :: "'c machine \<Rightarrow> nat \<Rightarrow> (('c, 'z) hwst_scheme, unit) kop" where
  "picenable hw irq = bd (gets irqmask) (\<lambda>m. picsetmask hw (m AND NOT (push_bit irq 1)))"

definition picinit :: "'c machine \<Rightarrow> (('c, 'z) hwst_scheme, unit) kop" where
  "picinit hw =
     bd (foreach
          [(IO_PIC1 + 1, 0xFF), (IO_PIC2 + 1, 0xFF),
           (IO_PIC1, 0x11), (IO_PIC1 + 1, of_nat T_IRQ0), (IO_PIC1 + 1, push_bit IRQ_SLAVE 1), (IO_PIC1 + 1, 0x3),
           (IO_PIC2, 0x11), (IO_PIC2 + 1, of_nat (T_IRQ0 + 8)), (IO_PIC2 + 1, of_nat IRQ_SLAVE), (IO_PIC2 + 1, 0x3),
           (IO_PIC1, 0x68), (IO_PIC1, 0x0a), (IO_PIC2, 0x68), (IO_PIC2, 0x0a)]
          (\<lambda>(p, v). outb hw p v)) (\<lambda>_.
     bd (gets irqmask) (\<lambda>m.
     whenk (m \<noteq> 0xFFFF) (picsetmask hw m)))"

section \<open>The I/O APIC\<close>

definition IOAPIC :: u32 where "IOAPIC = 0xFEC00000"
definition REG_ID :: nat where "REG_ID = 0"
definition REG_VER :: nat where "REG_VER = 1"
definition REG_TABLE :: nat where "REG_TABLE = 0x10"
definition INT_DISABLED :: u32 where "INT_DISABLED = 0x10000"

definition ioapicread :: "'c machine \<Rightarrow> nat \<Rightarrow> (('c, 'z) hwst_scheme, u32) kop" where
  "ioapicread hw reg = bd (wr32 hw IOAPIC (of_nat reg)) (\<lambda>_. rd32 hw (IOAPIC + 16))"

definition ioapicwrite :: "'c machine \<Rightarrow> nat \<Rightarrow> u32 \<Rightarrow> (('c, 'z) hwst_scheme, unit) kop" where
  "ioapicwrite hw reg data = bd (wr32 hw IOAPIC (of_nat reg)) (\<lambda>_. wr32 hw (IOAPIC + 16) data)"

definition ioapicinit :: "'c machine \<Rightarrow> (('c, 'z) hwst_scheme, unit) kop" where
  "ioapicinit hw =
     bd (gets ismp) (\<lambda>mp.
     if \<not> mp then ret ()
     else
       bd (ioapicread hw REG_VER) (\<lambda>v.
       bd (ioapicread hw REG_ID) (\<lambda>i.
       bd (gets ioapicid) (\<lambda>expected.
       bd (whenk (drop_bit 24 i \<noteq> ucast expected)
            (cprintf (Some (ascii ''ioapicinit: id isn't equal to ioapicid; not a MP\<newline>'')) [])) (\<lambda>_.
       foreach [0..<Suc (unat (drop_bit 16 v AND 0xFF))] (\<lambda>i.
         bd (ioapicwrite hw (REG_TABLE + 2 * i) (INT_DISABLED OR of_nat (T_IRQ0 + i))) (\<lambda>_.
         ioapicwrite hw (REG_TABLE + 2 * i + 1) 0)))))))"

definition ioapicenable :: "'c machine \<Rightarrow> nat \<Rightarrow> nat \<Rightarrow> (('c, 'z) hwst_scheme, unit) kop" where
  "ioapicenable hw irq cpunum =
     bd (gets ismp) (\<lambda>mp.
     if \<not> mp then ret ()
     else
       bd (ioapicwrite hw (REG_TABLE + 2 * irq) (of_nat (T_IRQ0 + irq))) (\<lambda>_.
       ioapicwrite hw (REG_TABLE + 2 * irq + 1) (push_bit 24 (of_nat cpunum))))"

section \<open>The local APIC, the timer and the clock\<close>

definition lapic_ID :: nat where "lapic_ID = 0x20 div 4"
definition lapic_VER :: nat where "lapic_VER = 0x30 div 4"
definition TPR :: nat where "TPR = 0x80 div 4"
definition EOI :: nat where "EOI = 0xB0 div 4"
definition SVR :: nat where "SVR = 0xF0 div 4"
definition ESR :: nat where "ESR = 0x280 div 4"
definition ICRLO :: nat where "ICRLO = 0x300 div 4"
definition ICRHI :: nat where "ICRHI = 0x310 div 4"
definition TIMER :: nat where "TIMER = 0x320 div 4"
definition PCINT :: nat where "PCINT = 0x340 div 4"
definition LINT0 :: nat where "LINT0 = 0x350 div 4"
definition LINT1 :: nat where "LINT1 = 0x360 div 4"
definition lapic_ERROR :: nat where "lapic_ERROR = 0x370 div 4"
definition TICR :: nat where "TICR = 0x380 div 4"
definition TDCR :: nat where "TDCR = 0x3E0 div 4"

definition lapicw :: "'c machine \<Rightarrow> nat \<Rightarrow> u32 \<Rightarrow> (('c, 'z) hwst_scheme, unit) kop" where
  "lapicw hw index v =
     bd (gets lapic) (\<lambda>a.
     bd (wr32 hw (a + 4 * of_nat index) v) (\<lambda>_.
     bd (rd32 hw (a + 4 * of_nat lapic_ID)) (\<lambda>_.
     ret ())))"

definition lapicinit :: "'c machine \<Rightarrow> (('c, 'z) hwst_scheme, unit) kop" where
  "lapicinit hw =
     bd (gets lapic) (\<lambda>a.
     if a = 0 then ret ()
     else
       bd (lapicw hw SVR (0x100 OR of_nat (T_IRQ0 + IRQ_SPURIOUS))) (\<lambda>_.
       bd (lapicw hw TDCR 0xB) (\<lambda>_.
       bd (lapicw hw TIMER (0x20000 OR of_nat (T_IRQ0 + IRQ_TIMER))) (\<lambda>_.
       bd (lapicw hw TICR 10000000) (\<lambda>_.
       bd (lapicw hw LINT0 0x10000) (\<lambda>_.
       bd (lapicw hw LINT1 0x10000) (\<lambda>_.
       bd (rd32 hw (a + 4 * of_nat lapic_VER)) (\<lambda>v.
       bd (whenk (drop_bit 16 v AND 0xFF \<ge> 4) (lapicw hw PCINT 0x10000)) (\<lambda>_.
       bd (lapicw hw lapic_ERROR (of_nat (T_IRQ0 + IRQ_ERROR))) (\<lambda>_.
       bd (lapicw hw ESR 0) (\<lambda>_.
       bd (lapicw hw ESR 0) (\<lambda>_.
       bd (lapicw hw EOI 0) (\<lambda>_.
       bd (lapicw hw ICRHI 0) (\<lambda>_.
       bd (lapicw hw ICRLO (0x80000 OR 0x500 OR 0x8000)) (\<lambda>_.
       bd (await (m_read32 hw (a + 4 * of_nat ICRLO)) (\<lambda>v. v AND 0x1000 \<noteq> 0)) (\<lambda>_.
       lapicw hw TPR 0))))))))))))))))"

definition cpunum :: "'c machine \<Rightarrow> (('c, 'z) hwst_scheme, u32) kop" where
  "cpunum hw =
     bd (gets lapic) (\<lambda>a.
     if a \<noteq> 0 then bd (rd32 hw (a + 4 * of_nat lapic_ID)) (\<lambda>v. ret (drop_bit 24 v)) else ret 0)"

definition CMOS_PORT :: u16 where "CMOS_PORT = 0x70"
definition CMOS_RETURN :: u16 where "CMOS_RETURN = 0x71"

definition store16 :: "mem \<Rightarrow> u32 \<Rightarrow> u16 \<Rightarrow> mem" where
  "store16 m a w = m(a := ucast w, a + 1 := ucast (drop_bit 8 w))"

text \<open>The warm reset vector is at physical address \<^verbatim>\<open>0x467\<close>.\<close>

definition lapicstartap :: "'c machine \<Rightarrow> u8 \<Rightarrow> u32 \<Rightarrow> (('c, 'z) hwst_scheme, unit) kop" where
  "lapicstartap hw apicid addr =
     bd (outb hw CMOS_PORT 0xF) (\<lambda>_.
     bd (outb hw (CMOS_PORT + 1) 0x0A) (\<lambda>_.
     bd (modify (\<lambda>s. s\<lparr>kmem_mem := store16 (kmem_mem s) (p2v 0x467) 0\<rparr>)) (\<lambda>_.
     bd (modify (\<lambda>s. s\<lparr>kmem_mem := store16 (kmem_mem s) (p2v 0x467 + 2) (ucast (drop_bit 4 addr))\<rparr>)) (\<lambda>_.
     bd (lapicw hw ICRHI (push_bit 24 (ucast apicid))) (\<lambda>_.
     bd (lapicw hw ICRLO (0x500 OR 0x8000 OR 0x4000)) (\<lambda>_.
     bd (lapicw hw ICRLO (0x500 OR 0x8000)) (\<lambda>_.
     foreach [0..<2] (\<lambda>_.
       bd (lapicw hw ICRHI (push_bit 24 (ucast apicid))) (\<lambda>_.
       lapicw hw ICRLO (0x600 OR drop_bit 12 addr))))))))))"

definition IO_TIMER1 :: u16 where "IO_TIMER1 = 0x40"
definition TIMER_DIV :: "nat \<Rightarrow> nat" where "TIMER_DIV x = (1193182 + x div 2) div x"

definition timerinit :: "'c machine \<Rightarrow> (('c, 'z) hwst_scheme, unit) kop" where
  "timerinit hw =
     bd (outb hw (IO_TIMER1 + 3) (0x00 OR 0x04 OR 0x30)) (\<lambda>_.
     bd (outb hw IO_TIMER1 (of_nat (TIMER_DIV 100 mod 256))) (\<lambda>_.
     bd (outb hw IO_TIMER1 (of_nat (TIMER_DIV 100 div 256))) (\<lambda>_.
     picenable hw IRQ_TIMER)))"

record rtcdate =
  second :: u32
  minute :: u32
  hour :: u32
  day :: u32
  month :: u32
  year :: u32

definition cmos_read :: "'c machine \<Rightarrow> u8 \<Rightarrow> 'c \<Rightarrow> u32 \<times> 'c" where
  "cmos_read hw reg c = (let (v, c) = m_inb hw CMOS_RETURN (m_outb hw CMOS_PORT reg c) in (ucast v, c))"

definition fill_rtcdate :: "'c machine \<Rightarrow> 'c \<Rightarrow> rtcdate \<times> 'c" where
  "fill_rtcdate hw c =
     (let (s, c) = cmos_read hw 0x00 c;
          (mi, c) = cmos_read hw 0x02 c;
          (h, c) = cmos_read hw 0x04 c;
          (d, c) = cmos_read hw 0x07 c;
          (mo, c) = cmos_read hw 0x08 c;
          (y, c) = cmos_read hw 0x09 c
      in (\<lparr>second = s, minute = mi, hour = h, day = d, month = mo, year = y\<rparr>, c))"

text \<open>The loop of \<^verbatim>\<open>cmostime\<close> ends when two readings agree outside an update.\<close>

partial_function (option) cmos_stable :: "'c machine \<Rightarrow> 'c \<Rightarrow> (rtcdate \<times> 'c) option" where
  "cmos_stable hw c =
     (let (t1, c) = fill_rtcdate hw c;
          (a, c) = cmos_read hw 0x0a c
      in if a AND 0x80 \<noteq> 0 then cmos_stable hw c
         else
           let (t2, c) = fill_rtcdate hw c
           in if t1 = t2 then Some (t1, c) else cmos_stable hw c)"

definition CONV :: "u32 \<Rightarrow> u32" where
  "CONV x = drop_bit 4 x * 10 + (x AND 0xf)"

definition cmostime :: "'c machine \<Rightarrow> 'c \<Rightarrow> (rtcdate \<times> 'c) option" where
  "cmostime hw c =
     (let (sb, c) = cmos_read hw 0x0b c;
          bcd = (sb AND 4 = 0)
      in case cmos_stable hw c of
           None \<Rightarrow> None
         | Some (t, c) \<Rightarrow>
             let t = (if bcd
                      then \<lparr>second = CONV (second t), minute = CONV (minute t), hour = CONV (hour t),
                            day = CONV (day t), month = CONV (month t), year = CONV (year t)\<rparr>
                      else t)
             in Some (t\<lparr>year := year t + 2000\<rparr>, c))"

section \<open>The serial port\<close>

definition COM1 :: u16 where "COM1 = 0x3f8"

definition uartinit :: "'c machine \<Rightarrow> (('c, 'z) hwst_scheme, unit) kop" where
  "uartinit hw =
     bd (foreach [(COM1 + 2, 0), (COM1 + 3, 0x80), (COM1 + 0, of_nat (115200 div 9600)), (COM1 + 1, 0), (COM1 + 3, 0x03),
                  (COM1 + 4, 0), (COM1 + 1, 0x01)] (\<lambda>(p, v). outb hw p v)) (\<lambda>_.
     bd (inb hw (COM1 + 5)) (\<lambda>status.
     if status = 0xFF then ret ()
     else
       bd (modify (\<lambda>s. s\<lparr>uart := True\<rparr>)) (\<lambda>_.
       bd (inb hw (COM1 + 2)) (\<lambda>_.
       bd (inb hw (COM1 + 0)) (\<lambda>_.
       bd (picenable hw IRQ_COM1) (\<lambda>_.
       bd (ioapicenable hw IRQ_COM1 0) (\<lambda>_.
       foreach (ascii ''xv6...\<newline>'') (\<lambda>c. uartputc (ucast c)))))))))"

end
