(* ===== verification/Ide.thy ===== *)
theory Ide
  imports Devices
begin

text \<open>
  \<^verbatim>\<open>ide.c\<close>, the disk driver: a queue of buffers threaded through \<^verbatim>\<open>qnext\<close>, whose first element is the
  request the controller works on. \<open>iderw\<close> of the memory disk has the same contract; here it is the
  driver with the controller as a parameter. \<open>ide_rw\<close> ends in \<open>sleep\<close>, and \<open>ide_rw_resume\<close> is what
  the process does when it runs again.
\<close>

section \<open>Definitions\<close>

definition SECTOR_SIZE :: nat where "SECTOR_SIZE = 512"
definition IDE_BSY :: u8 where "IDE_BSY = 0x80"
definition IDE_DRDY :: u8 where "IDE_DRDY = 0x40"
definition IDE_DF :: u8 where "IDE_DF = 0x20"
definition IDE_ERR :: u8 where "IDE_ERR = 0x01"
definition IDE_CMD_READ :: u8 where "IDE_CMD_READ = 0x20"
definition IDE_CMD_WRITE :: u8 where "IDE_CMD_WRITE = 0x30"

record 'c idest = "'c hwst" +
  idequeue :: "nat option"
  havedisk1 :: bool

definition idewait :: "'c machine \<Rightarrow> bool \<Rightarrow> (('c, 'z) idest_scheme, int) kop" where
  "idewait hw checkerr =
     bd (await (m_inb hw 0x1f7) (\<lambda>r. r AND (IDE_BSY OR IDE_DRDY) \<noteq> IDE_DRDY)) (\<lambda>r.
     if checkerr \<and> r AND (IDE_DF OR IDE_ERR) \<noteq> 0 then ret (- 1) else ret 0)"

fun disk1_loop :: "'c machine \<Rightarrow> nat \<Rightarrow> (('c, 'z) idest_scheme, unit) kop" where
  "disk1_loop hw 0 = ret ()"
| "disk1_loop hw (Suc n) =
     bd (inb hw 0x1f7) (\<lambda>r.
     if r \<noteq> 0 then modify (\<lambda>s. s\<lparr>havedisk1 := True\<rparr>) else disk1_loop hw n)"

definition ide_init :: "'c machine \<Rightarrow> (('c, 'z) idest_scheme, unit) kop" where
  "ide_init hw =
     bd (picenable hw IRQ_IDE) (\<lambda>_.
     bd (gets ncpu) (\<lambda>n.
     bd (ioapicenable hw IRQ_IDE (n - 1)) (\<lambda>_.
     bd (idewait hw False) (\<lambda>_.
     bd (outb hw 0x1f6 (0xe0 OR push_bit 4 1)) (\<lambda>_.
     bd (disk1_loop hw 1000) (\<lambda>_.
     outb hw 0x1f6 (0xe0 OR push_bit 4 0)))))))"

definition idestart :: "'c machine \<Rightarrow> nat \<Rightarrow> (('c, 'z) idest_scheme, unit) kop" where
  "idestart hw b =
     bd (gets (\<lambda>s. bufs s ! b)) (\<lambda>x.
     if bblockno x \<ge> of_nat FSSIZE then panic ''incorrect blockno''
     else
       let sector_per_block = BSIZE div SECTOR_SIZE;
           sector = bblockno x * of_nat sector_per_block
       in if sector_per_block > 7 then panic ''idestart''
          else
            bd (idewait hw False) (\<lambda>_.
            bd (outb hw 0x3f6 0) (\<lambda>_.
            bd (outb hw 0x1f2 (of_nat sector_per_block)) (\<lambda>_.
            bd (outb hw 0x1f3 (ucast (sector AND 0xff))) (\<lambda>_.
            bd (outb hw 0x1f4 (ucast (drop_bit 8 sector AND 0xff))) (\<lambda>_.
            bd (outb hw 0x1f5 (ucast (drop_bit 16 sector AND 0xff))) (\<lambda>_.
            bd (outb hw 0x1f6 (ucast (0xe0 OR push_bit 4 (bdev x AND 1) OR (drop_bit 24 sector AND 0x0f)))) (\<lambda>_.
            if bdirty x then
              bd (outb hw 0x1f7 IDE_CMD_WRITE) (\<lambda>_.
              outsl hw 0x1f0 (bdata x))
            else outb hw 0x1f7 IDE_CMD_READ))))))))"

definition ide_fetch :: "'c machine \<Rightarrow> nat \<Rightarrow> (('c, 'z) idest_scheme, unit) kop" where
  "ide_fetch hw b =
     bd (gets (\<lambda>s. bdirty (bufs s ! b))) (\<lambda>d.
     if \<not> d then
       bd (idewait hw True) (\<lambda>r.
       whenk (r \<ge> 0) (bd (insl hw 0x1f0 (BSIZE div 4)) (\<lambda>data.
         modify (upd_buf b (\<lambda>x. x\<lparr>bdata := data\<rparr>)))))
     else ret ())"

definition ide_intr :: "'c machine \<Rightarrow> (('c, 'z) idest_scheme, unit) kop" where
  "ide_intr hw =
     bd (acquire LIde) (\<lambda>_.
     bd (gets idequeue) (\<lambda>q.
     case q of
       None \<Rightarrow> release LIde
     | Some b \<Rightarrow>
         bd (modify (\<lambda>s. s\<lparr>idequeue := bqnext (bufs s ! b)\<rparr>)) (\<lambda>_.
         bd (ide_fetch hw b) (\<lambda>_.
         bd (modify (upd_buf b (\<lambda>x. x\<lparr>bvalid := True\<rparr>))) (\<lambda>_.
         bd (modify (upd_buf b (\<lambda>x. x\<lparr>bdirty := False\<rparr>))) (\<lambda>_.
         bd (wakeup (ChanBuf b)) (\<lambda>_.
         bd (gets idequeue) (\<lambda>q.
         bd (case q of Some c \<Rightarrow> idestart hw c | None \<Rightarrow> ret ()) (\<lambda>_.
         release LIde)))))))))"

text \<open>
  The loop that looks for the end of the queue returns the last buffer; \<open>None\<close> in the state of
  \<open>idequeue\<close> and of \<^verbatim>\<open>qnext\<close> is the null pointer. It ends within as many steps as there are buffers
  unless the queue is a cycle.
\<close>

fun ide_last :: "buf list \<Rightarrow> nat \<Rightarrow> nat \<Rightarrow> nat option" where
  "ide_last bs b 0 = None"
| "ide_last bs b (Suc n) = (case bqnext (bs ! b) of None \<Rightarrow> Some b | Some c \<Rightarrow> ide_last bs c n)"

definition ide_append :: "nat \<Rightarrow> (('c, 'z) idest_scheme, unit) kop" where
  "ide_append b =
     bd (modify (upd_buf b (\<lambda>x. x\<lparr>bqnext := None\<rparr>))) (\<lambda>_.
     bd (gets idequeue) (\<lambda>q.
     case q of
       None \<Rightarrow> modify (\<lambda>s. s\<lparr>idequeue := Some b\<rparr>)
     | Some c \<Rightarrow>
         bd (gets (\<lambda>s. ide_last (bufs s) c (length (bufs s)))) (\<lambda>l.
         case l of
           None \<Rightarrow> (\<lambda>_. Fault)
         | Some l \<Rightarrow> modify (upd_buf l (\<lambda>x. x\<lparr>bqnext := Some b\<rparr>)))))"

text \<open>The wait for the end of the request: return, or sleep again.\<close>

definition ide_await :: "nat \<Rightarrow> (('c, 'z) idest_scheme, unit) kop" where
  "ide_await b =
     bd (gets (\<lambda>s. bufs s ! b)) (\<lambda>x.
     if \<not> (bvalid x \<and> \<not> bdirty x) then sleep (ChanBuf b) LIde else release LIde)"

definition ide_rw :: "'c machine \<Rightarrow> nat \<Rightarrow> (('c, 'z) idest_scheme, unit) kop" where
  "ide_rw hw b =
     bd (gets (\<lambda>s. bufs s ! b)) (\<lambda>x.
     bd (gets havedisk1) (\<lambda>h.
     if \<not> bbusy x then panic ''iderw: buf not busy''
     else if bvalid x \<and> \<not> bdirty x then panic ''iderw: nothing to do''
     else if bdev x \<noteq> 0 \<and> \<not> h then panic ''iderw: ide disk 1 not present''
     else
       bd (acquire LIde) (\<lambda>_.
       bd (ide_append b) (\<lambda>_.
       bd (gets idequeue) (\<lambda>q.
       bd (whenk (q = Some b) (idestart hw b)) (\<lambda>_.
       ide_await b))))))"

definition ide_rw_resume :: "nat \<Rightarrow> (('c, 'z) idest_scheme, unit) kop" where
  "ide_rw_resume b = bd (sleep_resume LIde) (\<lambda>_. ide_await b)"

section \<open>What the driver relies on\<close>

text \<open>
  The disk and sector that the task-file registers select, and the documented behaviour of a
  controller for programmed I/O of single sectors: registers keep what is written to them; a
  write command followed by the data stores the selected sector; a read command makes the data port
  deliver it; and the status becomes ready, without an error.
\<close>

definition target :: "(u16 \<Rightarrow> u8) \<Rightarrow> bool \<times> nat" where
  "target r = (bit (r 0x1f6) 4,
     unat (r 0x1f3) + 256 * unat (r 0x1f4) + 65536 * unat (r 0x1f5) + 16777216 * unat (r 0x1f6 AND 0xf))"

definition ide_laws :: "'c machine \<Rightarrow> ('c \<Rightarrow> u16 \<Rightarrow> u8) \<Rightarrow> ('c \<Rightarrow> bool \<times> nat \<Rightarrow> bytes) \<Rightarrow> ('c \<Rightarrow> (bool \<times> nat) option) \<Rightarrow> bool" where
  "ide_laws hw regs blk pend \<longleftrightarrow>
     (\<forall>c. \<forall>p \<in> {0x3f6, 0x1f2, 0x1f3, 0x1f4, 0x1f5, 0x1f6}. \<forall>v.
        regs (m_outb hw p v c) = (regs c)(p := v) \<and> blk (m_outb hw p v c) = blk c) \<and>
     (\<forall>c. regs c 0x1f2 = 1 \<longrightarrow>
        pend (m_outb hw 0x1f7 IDE_CMD_READ c) = Some (target (regs c)) \<and> blk (m_outb hw 0x1f7 IDE_CMD_READ c) = blk c) \<and>
     (\<forall>c d. regs c 0x1f2 = 1 \<longrightarrow> length d = SECTOR_SIZE \<longrightarrow>
        blk (m_outsl hw 0x1f0 d (m_outb hw 0x1f7 IDE_CMD_WRITE c)) = (blk c)(target (regs c) := d)) \<and>
     (\<forall>c a. pend c = Some a \<longrightarrow>
        fst (m_insl hw 0x1f0 (SECTOR_SIZE div 4) c) = blk c a \<and> blk (snd (m_insl hw 0x1f0 (SECTOR_SIZE div 4) c)) = blk c) \<and>
     (\<forall>c. \<exists>r c'. poll (m_inb hw 0x1f7) (\<lambda>r. r AND (IDE_BSY OR IDE_DRDY) \<noteq> IDE_DRDY) c = Some (r, c') \<and>
        r AND (IDE_DF OR IDE_ERR) = 0 \<and> regs c' = regs c \<and> blk c' = blk c \<and> pend c' = pend c)"

text \<open>The requests in the queue, first to last.\<close>

fun qpath :: "buf list \<Rightarrow> nat option \<Rightarrow> nat list \<Rightarrow> bool" where
  "qpath bs q [] \<longleftrightarrow> q = None"
| "qpath bs q (b # qs) \<longleftrightarrow> q = Some b \<and> b < length bs \<and> qpath bs (bqnext (bs ! b)) qs"

definition addr :: "buf \<Rightarrow> bool \<times> nat" where
  "addr x = (bit (bdev x) 0, unat (bblockno x))"

definition request :: "buf \<Rightarrow> bool" where
  "request x \<longleftrightarrow> bbusy x \<and> \<not> (bvalid x \<and> \<not> bdirty x) \<and> unat (bblockno x) < FSSIZE \<and> length (bdata x) = SECTOR_SIZE"

definition ide_inv :: "('c \<Rightarrow> bool \<times> nat \<Rightarrow> bytes) \<Rightarrow> ('c \<Rightarrow> (bool \<times> nat) option) \<Rightarrow> ('c, 'z) idest_scheme \<Rightarrow> nat list \<Rightarrow> bool" where
  "ide_inv blk pend s qs \<longleftrightarrow>
     qpath (bufs s) (idequeue s) qs \<and> distinct (map (\<lambda>b. addr (bufs s ! b)) qs) \<and>
     (\<forall>b \<in> set qs. request (bufs s ! b)) \<and>
     (case qs of [] \<Rightarrow> True
      | b # _ \<Rightarrow> if bdirty (bufs s ! b) then blk (mach s) (addr (bufs s ! b)) = bdata (bufs s ! b)
                else pend (mach s) = Some (addr (bufs s ! b)))"

section \<open>Starting a request\<close>

lemma idewait_run:
  assumes "ide_laws hw regs blk pend"
  shows "\<exists>c. idewait hw e s = Done 0 (s\<lparr>mach := c\<rparr>) \<and> regs c = regs (mach s) \<and> blk c = blk (mach s) \<and> pend c = pend (mach s)"
proof -
  obtain r c where "poll (m_inb hw 0x1f7) (\<lambda>r. r AND (IDE_BSY OR IDE_DRDY) \<noteq> IDE_DRDY) (mach s) = Some (r, c)"
      "r AND (IDE_DF OR IDE_ERR) = 0" "regs c = regs (mach s)" "blk c = blk (mach s)" "pend c = pend (mach s)"
    using assms unfolding ide_laws_def by blast
  then show ?thesis by (intro exI [of _ c]) (simp add: idewait_def await_def bd_run)
qed

lemma outb_run: "outb hw p v s = Done () (s\<lparr>mach := m_outb hw p v (mach s)\<rparr>)"
  by (simp add: outb_def)

lemma outsl_run: "outsl hw p d s = Done () (s\<lparr>mach := m_outsl hw p d (mach s)\<rparr>)"
  by (simp add: outsl_def)

text \<open>The address registers hold the block number.\<close>

lemma unat_u8: "unat (ucast (x :: u32) :: u8) = unat x mod 256"
  by (simp add: unsigned_ucast_eq take_bit_eq_mod)

lemma byte_of: "unat (ucast (drop_bit k (w :: u32) AND 0xff) :: u8) = unat w div 2 ^ k mod 256"
proof -
  have "(0xff :: u32) = mask 8" by (simp add: mask_eq_exp_minus_1)
  then have "drop_bit k w AND 0xff = take_bit 8 (drop_bit k w)" by (simp only: take_bit_eq_mask)
  then show ?thesis by (simp only: unat_u8 unat_take_bit unat_drop_bit) simp
qed

lemma drive_byte:
  fixes w d :: u32
  defines "v \<equiv> (ucast (0xe0 OR push_bit 4 (d AND 1) OR (drop_bit 24 w AND 0x0f)) :: u8)"
  shows "v AND 0xf = ucast (take_bit 4 (drop_bit 24 w))" and "bit v 4 \<longleftrightarrow> bit d 0"
proof -
  have m: "(0x0f :: u32) = mask 4" "(0x0f :: u8) = mask 4" "(0xe0 :: u32) = push_bit 5 (mask 3)"
    by (simp_all add: mask_eq_exp_minus_1 push_bit_eq_mult)
  show "bit v 4 \<longleftrightarrow> bit d 0" unfolding v_def m by (simp add: bit_simps)
  show "v AND 0xf = ucast (take_bit 4 (drop_bit 24 w))"
    unfolding v_def m by (rule bit_eqI) (auto simp: bit_simps)
qed

lemma base_256:
  "n = a + 256 * q \<Longrightarrow> q = b + 256 * r \<Longrightarrow> r = c + 256 * t \<Longrightarrow> n = a + 256 * b + 65536 * c + 16777216 * (t :: nat)"
  by simp

lemma sector_bytes:
  fixes w d :: u32
  assumes "unat w < 2 ^ 28"
  shows "unat (ucast (w AND 0xff) :: u8) + 256 * unat (ucast (drop_bit 8 w AND 0xff) :: u8) +
      65536 * unat (ucast (drop_bit 16 w AND 0xff) :: u8) +
      16777216 * unat ((ucast (0xe0 OR push_bit 4 (d AND 1) OR (drop_bit 24 w AND 0x0f)) :: u8) AND 0xf) = unat w"
proof -
  define n where "n = unat w"
  have b0: "unat (ucast (w AND 0xff) :: u8) = n mod 256" using byte_of [of 0 w] by (simp add: n_def)
  have small: "n div 2 ^ 24 < 16" using assms by (intro less_mult_imp_div_less) (simp add: n_def)
  have b3: "unat ((ucast (0xe0 OR push_bit 4 (d AND 1) OR (drop_bit 24 w AND 0x0f)) :: u8) AND 0xf) = n div 2 ^ 24"
    unfolding drive_byte unat_u8 unat_take_bit unat_drop_bit n_def [symmetric] using small by simp
  have "n = n mod 256 + 256 * (n div 256 mod 256) + 65536 * (n div 65536 mod 256) + 16777216 * (n div 16777216)"
  proof -
    have "n div 65536 = n div 256 div 256" "n div 16777216 = n div 256 div 256 div 256" by (simp_all add: div_mult2_eq [symmetric])
    then show ?thesis
      using base_256 [of n "n mod 256" "n div 256" "n div 256 mod 256" "n div 256 div 256" "n div 256 div 256 mod 256"]
      by (simp only: mod_mult_div_eq)
  qed
  then show ?thesis unfolding b0 byte_of b3 unfolding n_def [symmetric] by simp
qed

lemma sectors: "BSIZE div SECTOR_SIZE = 1" "BSIZE = SECTOR_SIZE"
  by (simp_all add: BSIZE_def SECTOR_SIZE_def)

lemma ide_outb:
  assumes "ide_laws hw regs blk pend" and "p \<in> {0x3f6, 0x1f2, 0x1f3, 0x1f4, 0x1f5, 0x1f6}"
  shows "regs (m_outb hw p v c) = (regs c)(p := v)" and "blk (m_outb hw p v c) = blk c"
  using assms unfolding ide_laws_def by blast+

lemma idestart_run:
  assumes laws: "ide_laws hw regs blk pend" and x: "request (bufs s ! b)"
  shows "\<exists>c. idestart hw b s = Done () (s\<lparr>mach := c\<rparr>) \<and>
    (if bdirty (bufs s ! b) then blk c = (blk (mach s))(addr (bufs s ! b) := bdata (bufs s ! b))
     else blk c = blk (mach s) \<and> pend c = Some (addr (bufs s ! b)))"
proof -
  let ?x = "bufs s ! b"
  let ?w = "bblockno ?x"
  let ?d = "ucast (0xe0 OR push_bit 4 (bdev ?x AND 1) OR (drop_bit 24 ?w AND 0x0f)) :: u8"
  obtain c0 where c0: "idewait hw False s = Done 0 (s\<lparr>mach := c0\<rparr>)" "blk c0 = blk (mach s)"
    using idewait_run [OF laws] by metis
  define c where "c = m_outb hw 0x1f6 ?d (m_outb hw 0x1f5 (ucast (drop_bit 16 ?w AND 0xff))
    (m_outb hw 0x1f4 (ucast (drop_bit 8 ?w AND 0xff)) (m_outb hw 0x1f3 (ucast (?w AND 0xff))
    (m_outb hw 0x1f2 1 (m_outb hw 0x3f6 0 c0)))))"
  have regs: "regs c = (regs c0)(0x3f6 := 0, 0x1f2 := 1, 0x1f3 := ucast (?w AND 0xff),
      0x1f4 := ucast (drop_bit 8 ?w AND 0xff), 0x1f5 := ucast (drop_bit 16 ?w AND 0xff), 0x1f6 := ?d)"
    unfolding c_def by (simp add: ide_outb [OF laws])
  have blk: "blk c = blk (mach s)" unfolding c_def by (simp add: ide_outb [OF laws] c0(2))
  have small: "unat ?w < 1000" using x by (simp add: request_def FSSIZE_def)
  have "target (regs c) = addr ?x"
    unfolding target_def regs addr_def using sector_bytes [of ?w "bdev ?x"] drive_byte(2) [of "bdev ?x" ?w] small by simp
  moreover have "regs c 0x1f2 = 1" unfolding regs by simp
  moreover have "\<not> of_nat FSSIZE \<le> ?w" using small by (simp add: word_le_nat_alt FSSIZE_def)
  then have "idestart hw b s = (if bdirty ?x
      then Done () (s\<lparr>mach := m_outsl hw 0x1f0 (bdata ?x) (m_outb hw 0x1f7 IDE_CMD_WRITE c)\<rparr>)
      else Done () (s\<lparr>mach := m_outb hw 0x1f7 IDE_CMD_READ c\<rparr>))"
    unfolding idestart_def c_def by (simp add: bd_run sectors(1) Let_def c0(1) outb_run outsl_run)
  ultimately show ?thesis
    using laws x blk unfolding ide_laws_def request_def by (cases "bdirty ?x") auto
qed

section \<open>The queue\<close>

lemma qpath_length: "qpath bs q qs \<Longrightarrow> b \<in> set qs \<Longrightarrow> b < length bs"
  by (induction qs arbitrary: q) auto

lemma qpath_other: "b \<notin> set qs \<Longrightarrow> qpath (bs[b := x]) q qs \<longleftrightarrow> qpath bs q qs"
  by (induction qs arbitrary: q) auto

lemma ide_last_run:
  "qpath bs (Some c) (c # qs) \<Longrightarrow> length qs < n \<Longrightarrow> ide_last bs c n = Some (last (c # qs))"
proof (induction qs arbitrary: c n)
  case Nil
  then show ?case by (cases n) auto
next
  case (Cons d qs)
  then show ?case by (cases n) auto
qed

lemma qpath_append:
  assumes "qpath bs q qs" and "distinct qs" and "b \<notin> set qs" and "b < length bs" and "bqnext (bs ! b) = None" and "qs \<noteq> []"
  shows "qpath (bs[last qs := (bs ! last qs)\<lparr>bqnext := Some b\<rparr>]) q (qs @ [b])"
  using assms
proof (induction qs arbitrary: q)
  case (Cons c qs)
  show ?case
  proof (cases qs)
    case Nil
    then show ?thesis using Cons by auto
  next
    case (Cons d ds)
    then have "last (c # qs) = last qs" "last qs \<in> set qs" by simp_all
    moreover have "c \<noteq> last qs" using Cons.prems(2) \<open>last qs \<in> set qs\<close> by auto
    ultimately show ?thesis using Cons.IH [of "bqnext (bs ! c)"] Cons.prems Cons by simp
  qed
qed simp

lemma ide_append_run:
  assumes q: "qpath (bufs s) (idequeue s) qs" and d: "distinct qs" and b: "b \<notin> set qs" "b < length (bufs s)"
  shows "\<exists>bs. ide_append b s = Done () (s\<lparr>bufs := bs, idequeue := (if qs = [] then Some b else idequeue s)\<rparr>) \<and>
    qpath bs (if qs = [] then Some b else idequeue s) (qs @ [b]) \<and> length bs = length (bufs s) \<and>
    (\<forall>i. bs ! i = (bufs s ! i)\<lparr>bqnext := bqnext (bs ! i)\<rparr>)"
proof -
  define cs where "cs = (bufs s)[b := (bufs s ! b)\<lparr>bqnext := None\<rparr>]"
  have cs: "qpath cs (idequeue s) qs" "bqnext (cs ! b) = None" "b < length cs"
    using q b by (simp_all add: cs_def qpath_other)
  have same: "cs ! i = (bufs s ! i)\<lparr>bqnext := bqnext (cs ! i)\<rparr>" for i
    using b(2) by (cases "i = b") (simp_all add: cs_def)
  show ?thesis
  proof (cases qs)
    case Nil
    then have "idequeue s = None" using q by simp
    then have "ide_append b s = Done () (s\<lparr>bufs := cs, idequeue := Some b\<rparr>)"
      by (simp add: ide_append_def bd_run upd_buf_def updb_def cs_def)
    then show ?thesis using Nil cs same by (intro exI [of _ cs]) (simp add: cs_def)
  next
    case (Cons c qs')
    define l where "l = last qs"
    define ds where "ds = cs[l := (cs ! l)\<lparr>bqnext := Some b\<rparr>]"
    have c: "idequeue s = Some c" using q Cons by simp
    have "set qs \<subseteq> {..<length cs}" using qpath_length [OF cs(1)] by auto
    then have "length qs \<le> length cs" using distinct_card [OF d] card_mono [of "{..<length cs}" "set qs"] by simp
    then have "ide_last cs c (length cs) = Some l"
      using ide_last_run [of cs c qs' "length cs"] cs(1) Cons by (simp add: c l_def)
    then have "ide_append b s = Done () (s\<lparr>bufs := ds\<rparr>)"
      using c by (simp add: ide_append_def bd_run upd_buf_def updb_def cs_def [symmetric] ds_def)
    moreover have "s\<lparr>bufs := ds, idequeue := idequeue s\<rparr> = s\<lparr>bufs := ds\<rparr>" by simp
    moreover have "qpath ds (idequeue s) (qs @ [b])"
      using qpath_append [OF cs(1) d b(1) cs(3,2)] Cons by (simp add: ds_def l_def)
    moreover have "ds ! i = (bufs s ! i)\<lparr>bqnext := bqnext (ds ! i)\<rparr>" for i
    proof (cases "i = l")
      case True
      have "l < length cs" using qpath_length [OF cs(1)] Cons by (simp add: l_def)
      moreover have "(cs ! l)\<lparr>bqnext := Some b\<rparr> = (bufs s ! l)\<lparr>bqnext := Some b\<rparr>" by (subst same [of l]) simp
      ultimately show ?thesis using True by (simp add: ds_def)
    qed (use same [of i] in \<open>simp add: ds_def\<close>)
    moreover have "length ds = length (bufs s)" by (simp add: ds_def cs_def)
    ultimately show ?thesis using Cons by (intro exI [of _ ds]) simp
  qed
qed

section \<open>The handler serves the queue\<close>

lemma qpath_distinct: "distinct (map (\<lambda>b. addr (bs ! b)) qs) \<Longrightarrow> distinct qs"
  by (simp add: distinct_map)

text \<open>What the interrupt for the first request does to the buffers and to the processes.\<close>

definition served :: "('c \<Rightarrow> bool \<times> nat \<Rightarrow> bytes) \<Rightarrow> ('c, 'z) idest_scheme \<Rightarrow> nat \<Rightarrow> buf list" where
  "served blk s b = (bufs s)[b := (bufs s ! b)\<lparr>
     bdata := (if bdirty (bufs s ! b) then bdata (bufs s ! b) else blk (mach s) (addr (bufs s ! b))),
     bvalid := True, bdirty := False\<rparr>]"

definition awake :: "chan \<Rightarrow> proc list \<Rightarrow> proc list" where
  "awake c ps = map (\<lambda>p. if state p = SLEEPING \<and> chan p = Some c then p\<lparr>state := RUNNABLE\<rparr> else p) ps"

lemma wakeup_awake:
  "LPtable \<notin> held s \<Longrightarrow> wakeup c s = Done () (s\<lparr>ptable := awake c (ptable s)\<rparr>)"
  by (simp add: kop_simps awake_def)

lemma ide_fetch_run:
  assumes laws: "ide_laws hw regs blk pend" and b: "b < length (bufs s)"
    and act: "\<not> bdirty (bufs s ! b) \<Longrightarrow> pend (mach s) = Some (addr (bufs s ! b))"
  shows "\<exists>c. ide_fetch hw b s = Done () (s\<lparr>mach := c, bufs := (bufs s)[b := (bufs s ! b)\<lparr>
      bdata := (if bdirty (bufs s ! b) then bdata (bufs s ! b) else blk (mach s) (addr (bufs s ! b)))\<rparr>]\<rparr>) \<and> blk c = blk (mach s)"
proof (cases "bdirty (bufs s ! b)")
  case True
  then have "ide_fetch hw b s = Done () (s\<lparr>mach := mach s, bufs := (bufs s)[b := (bufs s ! b)\<lparr>bdata := bdata (bufs s ! b)\<rparr>]\<rparr>)"
    by (simp add: ide_fetch_def bd_run)
  with True show ?thesis by (intro exI [of _ "mach s"]) simp
next
  case False
  obtain c where c: "idewait hw True s = Done 0 (s\<lparr>mach := c\<rparr>)" "blk c = blk (mach s)" "pend c = pend (mach s)"
    using idewait_run [OF laws] by metis
  have "fst (m_insl hw 0x1f0 (SECTOR_SIZE div 4) c) = blk c (addr (bufs s ! b)) \<and> blk (snd (m_insl hw 0x1f0 (SECTOR_SIZE div 4) c)) = blk c"
    using laws act [OF False] c(3) unfolding ide_laws_def by metis
  then obtain c' where "m_insl hw 0x1f0 (SECTOR_SIZE div 4) c = (blk (mach s) (addr (bufs s ! b)), c')" "blk c' = blk (mach s)"
    using c(2) by (metis prod.collapse)
  then show ?thesis
    using False c(1) by (intro exI [of _ c']) (simp add: ide_fetch_def bd_run insl_def sectors(2) upd_buf_def updb_def)
qed

lemma ide_intr_run:
  fixes s :: "('c, 'z) idest_scheme"
  assumes laws: "ide_laws hw regs blk pend" and inv: "ide_inv blk pend s (b # qs)"
    and free: "LIde \<notin> held s" "LPtable \<notin> held s"
  shows "\<exists>c q. ide_intr hw s = Done () (s\<lparr>mach := c, bufs := served blk s b, idequeue := q, ptable := awake (ChanBuf b) (ptable s)\<rparr>) \<and>
    ide_inv blk pend (s\<lparr>mach := c, bufs := served blk s b, idequeue := q, ptable := awake (ChanBuf b) (ptable s)\<rparr>) qs \<and>
    (\<forall>a. (\<forall>e es. qs = e # es \<longrightarrow> bdirty (bufs s ! e) \<longrightarrow> a \<noteq> addr (bufs s ! e)) \<longrightarrow> blk c a = blk (mach s) a)"
proof -
  let ?x = "bufs s ! b"
  let ?q = "bqnext ?x"
  have q: "idequeue s = Some b" "b < length (bufs s)" "qpath (bufs s) ?q qs" "\<forall>b \<in> set qs. request (bufs s ! b)"
    and d: "distinct (map (\<lambda>b. addr (bufs s ! b)) (b # qs))"
    and act: "\<not> bdirty ?x \<Longrightarrow> pend (mach s) = Some (addr ?x)"
    using inv by (simp_all add: ide_inv_def)
  have nb: "b \<notin> set qs" using qpath_distinct [OF d] by simp
  have keep: "served blk s b ! i = bufs s ! i" if "i \<in> set qs" for i using that nb by (cases "i = b") (simp_all add: served_def)
  have path: "qpath (served blk s b) ?q qs" using q(3) nb by (simp add: served_def qpath_other)
  define s1 where "s1 = s\<lparr>held := insert LIde (held s), idequeue := ?q\<rparr>"
  have s1: "bufs s1 = bufs s" "mach s1 = mach s" by (simp_all add: s1_def)
  obtain c1 where c1: "ide_fetch hw b s1 = Done () (s1\<lparr>mach := c1, bufs := (bufs s)[b := ?x\<lparr>
      bdata := (if bdirty ?x then bdata ?x else blk (mach s) (addr ?x))\<rparr>]\<rparr>)" "blk c1 = blk (mach s)"
    using ide_fetch_run [OF laws, of b s1, unfolded s1] q(2) act by blast
  define s2 where "s2 = s1\<lparr>mach := c1, bufs := served blk s b, ptable := awake (ChanBuf b) (ptable s)\<rparr>"
  have run: "ide_intr hw s = bd (case ?q of Some c \<Rightarrow> idestart hw c | None \<Rightarrow> ret ()) (\<lambda>_. release LIde) s2"
    using q(1,2) free c1(1)
    by (simp add: ide_intr_def bd_run acquire_run s1_def s2_def wakeup_awake upd_buf_def updb_def served_def)
  obtain c where c: "(case ?q of Some c \<Rightarrow> idestart hw c | None \<Rightarrow> ret ()) s2 = Done () (s2\<lparr>mach := c\<rparr>)"
    and blk: "\<And>a. (\<And>e es. qs = e # es \<Longrightarrow> bdirty (bufs s ! e) \<Longrightarrow> a \<noteq> addr (bufs s ! e)) \<Longrightarrow> blk c a = blk (mach s) a"
    and active: "\<And>e es. qs = e # es \<Longrightarrow> if bdirty (bufs s ! e) then blk c (addr (bufs s ! e)) = bdata (bufs s ! e)
      else pend c = Some (addr (bufs s ! e))"
  proof (cases qs)
    case Nil
    then have "?q = None" using q(3) by simp
    then show ?thesis using that [of "mach s2"] Nil c1(2) by (simp add: s2_def)
  next
    case (Cons e es)
    then have e: "?q = Some e" "bufs s2 ! e = bufs s ! e" using q(3) keep by (simp_all add: s2_def)
    obtain c where "idestart hw e s2 = Done () (s2\<lparr>mach := c\<rparr>)" "if bdirty (bufs s ! e)
        then blk c = (blk (mach s2))(addr (bufs s ! e) := bdata (bufs s ! e))
        else blk c = blk (mach s2) \<and> pend c = Some (addr (bufs s ! e))"
      using idestart_run [OF laws, of s2 e] q(4) Cons e(2) by auto
    then show ?thesis using that [of c] Cons e(1) c1(2) by (auto simp: s2_def split: if_splits)
  qed
  let ?t = "s\<lparr>mach := c, bufs := served blk s b, idequeue := ?q, ptable := awake (ChanBuf b) (ptable s)\<rparr>"
  have "ide_intr hw s = Done () ?t"
  proof -
    have "ide_intr hw s = release LIde (s2\<lparr>mach := c\<rparr>)" unfolding run by (simp add: bd_run c)
    then show ?thesis using free by (simp add: s2_def s1_def release_run)
  qed
  moreover have "ide_inv blk pend ?t qs"
  proof -
    have "map (\<lambda>i. addr (served blk s b ! i)) qs = map (\<lambda>i. addr (bufs s ! i)) qs" using keep by simp
    then have "distinct (map (\<lambda>i. addr (served blk s b ! i)) qs)" unfolding \<open>map _ qs = _\<close> using d by simp
    moreover have "\<forall>i \<in> set qs. request (served blk s b ! i)" using q(4) keep by simp
    moreover have "case qs of [] \<Rightarrow> True | e # _ \<Rightarrow> if bdirty (served blk s b ! e)
        then blk c (addr (served blk s b ! e)) = bdata (served blk s b ! e) else pend c = Some (addr (served blk s b ! e))"
      using active keep by (cases qs) simp_all
    ultimately show ?thesis using path by (cases qs) (simp_all add: ide_inv_def)
  qed
  ultimately show ?thesis using blk by blast
qed

text \<open>As many interrupts as there are requests.\<close>

lemma ide_intr_all:
  fixes s :: "('c, 'z) idest_scheme"
  assumes laws: "ide_laws hw regs blk pend" and "ide_inv blk pend s qs" and "LIde \<notin> held s" "LPtable \<notin> held s"
  shows "\<exists>t. foreach qs (\<lambda>_. ide_intr hw) s = Done () t \<and> idequeue t = None \<and> held t = held s \<and>
    ptable t = fold (\<lambda>b. awake (ChanBuf b)) qs (ptable s) \<and>
    (\<forall>i. i \<notin> set qs \<longrightarrow> bufs t ! i = bufs s ! i) \<and>
    (\<forall>b \<in> set qs. bvalid (bufs t ! b) \<and> \<not> bdirty (bufs t ! b) \<and> addr (bufs t ! b) = addr (bufs s ! b) \<and>
       bdata (bufs t ! b) = (if bdirty (bufs s ! b) then bdata (bufs s ! b) else blk (mach s) (addr (bufs s ! b))) \<and>
       blk (mach t) (addr (bufs s ! b)) = bdata (bufs t ! b)) \<and>
    (\<forall>a. a \<notin> (\<lambda>b. addr (bufs s ! b)) ` set qs \<longrightarrow> blk (mach t) a = blk (mach s) a)"
  using assms(2-4)
proof (induction qs arbitrary: s)
  case Nil
  then show ?case by (simp add: ide_inv_def)
next
  case (Cons b qs)
  let ?x = "bufs s ! b"
  obtain c q where c: "ide_intr hw s = Done () (s\<lparr>mach := c, bufs := served blk s b, idequeue := q, ptable := awake (ChanBuf b) (ptable s)\<rparr>)"
    and inv: "ide_inv blk pend (s\<lparr>mach := c, bufs := served blk s b, idequeue := q, ptable := awake (ChanBuf b) (ptable s)\<rparr>) qs"
    and blk: "\<And>a. (\<And>e es. qs = e # es \<Longrightarrow> bdirty (bufs s ! e) \<Longrightarrow> a \<noteq> addr (bufs s ! e)) \<Longrightarrow> blk c a = blk (mach s) a"
    using ide_intr_run [OF laws Cons(2-4)] by blast
  define u where "u = s\<lparr>mach := c, bufs := served blk s b, idequeue := q, ptable := awake (ChanBuf b) (ptable s)\<rparr>"
  have d: "distinct (map (\<lambda>b. addr (bufs s ! b)) (b # qs))" and b: "b < length (bufs s)"
    and act: "bdirty ?x \<Longrightarrow> blk (mach s) (addr ?x) = bdata ?x"
    using Cons(2) by (simp_all add: ide_inv_def)
  have nb: "b \<notin> set qs" using qpath_distinct [OF d] by simp
  have keep: "bufs u ! i = bufs s ! i" if "i \<noteq> b" for i using that by (simp add: u_def served_def)
  have ub: "bufs u ! b = ?x\<lparr>bdata := (if bdirty ?x then bdata ?x else blk (mach s) (addr ?x)), bvalid := True, bdirty := False\<rparr>"
    using b by (simp add: u_def served_def)
  have rest: "bufs u ! i = bufs s ! i" if "i \<in> set qs" for i using keep [of i] that nb by auto
  have img: "(\<lambda>b. addr (bufs u ! b)) ` set qs = (\<lambda>b. addr (bufs s ! b)) ` set qs" using rest by (auto simp: image_def)
  obtain t where t: "foreach qs (\<lambda>_. ide_intr hw) u = Done () t" "idequeue t = None" "held t = held u"
    "ptable t = fold (\<lambda>b. awake (ChanBuf b)) qs (ptable u)"
    and other: "\<And>i. i \<notin> set qs \<Longrightarrow> bufs t ! i = bufs u ! i"
    and fin: "\<And>e. e \<in> set qs \<Longrightarrow> bvalid (bufs t ! e) \<and> \<not> bdirty (bufs t ! e) \<and> addr (bufs t ! e) = addr (bufs u ! e) \<and>
       bdata (bufs t ! e) = (if bdirty (bufs u ! e) then bdata (bufs u ! e) else blk (mach u) (addr (bufs u ! e))) \<and>
       blk (mach t) (addr (bufs u ! e)) = bdata (bufs t ! e)"
    and out: "\<And>a. a \<notin> (\<lambda>b. addr (bufs u ! b)) ` set qs \<Longrightarrow> blk (mach t) a = blk (mach u) a"
    using Cons(1) [OF inv] Cons(3,4) unfolding u_def [symmetric] by (auto simp: u_def)
  have fresh: "addr ?x \<notin> (\<lambda>b. addr (bufs s ! b)) ` set qs" using d by simp
  have one: "bvalid (bufs t ! e) \<and> \<not> bdirty (bufs t ! e) \<and> addr (bufs t ! e) = addr (bufs s ! e) \<and>
       bdata (bufs t ! e) = (if bdirty (bufs s ! e) then bdata (bufs s ! e) else blk (mach s) (addr (bufs s ! e))) \<and>
       blk (mach t) (addr (bufs s ! e)) = bdata (bufs t ! e)" if "e \<in> set qs" for e
  proof -
    have "blk (mach u) (addr (bufs s ! e)) = blk (mach s) (addr (bufs s ! e))" if "\<not> bdirty (bufs s ! e)"
    proof -
      have "addr (bufs s ! e) \<noteq> addr (bufs s ! f)" if "qs = f # fs" "bdirty (bufs s ! f)" for f fs
      proof
        assume "addr (bufs s ! e) = addr (bufs s ! f)"
        moreover have "e \<in> set fs" using that \<open>e \<in> set qs\<close> \<open>\<not> bdirty (bufs s ! e)\<close> by auto
        ultimately have "addr (bufs s ! f) \<in> (\<lambda>b. addr (bufs s ! b)) ` set fs" by (metis image_eqI)
        then show False using d that(1) by simp
      qed
      then show ?thesis using blk [of "addr (bufs s ! e)"] by (simp add: u_def)
    qed
    then show ?thesis using fin [OF that] rest [OF that] by auto
  qed
  have two: "bvalid (bufs t ! b) \<and> \<not> bdirty (bufs t ! b) \<and> addr (bufs t ! b) = addr ?x \<and>
       bdata (bufs t ! b) = (if bdirty ?x then bdata ?x else blk (mach s) (addr ?x)) \<and>
       blk (mach t) (addr ?x) = bdata (bufs t ! b)"
  proof -
    have tb: "bufs t ! b = bufs u ! b" using other nb by simp
    have "blk (mach t) (addr ?x) = blk (mach u) (addr ?x)" using out img fresh by simp
    also have "\<dots> = blk (mach s) (addr ?x)" using blk [of "addr ?x"] fresh by (force simp: u_def)
    finally show ?thesis using tb ub act by (simp add: addr_def)
  qed
  have "foreach (b # qs) (\<lambda>_. ide_intr hw) s = Done () t" using c t(1) by (simp add: bd_run u_def)
  moreover have "blk (mach t) a = blk (mach s) a" if "a \<notin> (\<lambda>b. addr (bufs s ! b)) ` set (b # qs)" for a
    using that out [of a] img blk [of a] by (force simp: u_def)
  moreover have "bufs t ! i = bufs s ! i" if "i \<notin> set (b # qs)" for i using that other [of i] keep [of i] by simp
  ultimately show ?case using t(2-4) one two by (intro exI [of _ t]) (simp add: u_def)
qed

section \<open>A request from its start to its end\<close>

lemma ide_rw_run:
  fixes s :: "('c, 'z) idest_scheme"
  assumes laws: "ide_laws hw regs blk pend" and inv: "ide_inv blk pend s qs"
    and b: "b < length (bufs s)" "request (bufs s ! b)" "addr (bufs s ! b) \<notin> (\<lambda>q. addr (bufs s ! q)) ` set qs"
      "bdev (bufs s ! b) = 0 \<or> havedisk1 s"
    and i: "curproc s = Some i" "i < length (ptable s)" "held s = {}"
  shows "\<exists>t. ide_rw hw b s = Switched t \<and> ide_inv blk pend t (qs @ [b]) \<and> held t = {LPtable} \<and> curproc t = Some i \<and>
    ptable t = (ptable s)[i := (ptable s ! i)\<lparr>chan := Some (ChanBuf b), state := SLEEPING\<rparr>] \<and>
    (\<forall>j. bufs t ! j = (bufs s ! j)\<lparr>bqnext := bqnext (bufs t ! j)\<rparr>) \<and>
    (\<forall>a. a \<noteq> addr (bufs s ! b) \<or> \<not> bdirty (bufs s ! b) \<longrightarrow> blk (mach t) a = blk (mach s) a)"
proof -
  let ?x = "bufs s ! b"
  have q: "qpath (bufs s) (idequeue s) qs" "distinct (map (\<lambda>q. addr (bufs s ! q)) qs)" "\<forall>q \<in> set qs. request (bufs s ! q)"
    using inv by (simp_all add: ide_inv_def)
  have nb: "b \<notin> set qs" using b(3) by auto
  define s1 where "s1 = s\<lparr>held := {LIde}\<rparr>"
  define h where "h = (if qs = [] then Some b else idequeue s)"
  obtain bs where bs: "ide_append b s1 = Done () (s1\<lparr>bufs := bs, idequeue := h\<rparr>)" "qpath bs h (qs @ [b])"
      "length bs = length (bufs s)" and same: "\<And>j. bs ! j = (bufs s ! j)\<lparr>bqnext := bqnext (bs ! j)\<rparr>"
  proof -
    have f: "idequeue s1 = idequeue s" "bufs s1 = bufs s" by (simp_all add: s1_def)
    show ?thesis
      using that ide_append_run [of s1 qs b, unfolded f] q(1) qpath_distinct [OF q(2)] nb b(1) unfolding h_def by blast
  qed
  define s2 where "s2 = s1\<lparr>bufs := bs, idequeue := h\<rparr>"
  have fields: "addr (bs ! j) = addr (bufs s ! j)" "request (bs ! j) = request (bufs s ! j)" "bdirty (bs ! j) = bdirty (bufs s ! j)"
      "bdata (bs ! j) = bdata (bufs s ! j)" "bvalid (bs ! j) = bvalid (bufs s ! j)" for j
    by (subst same [of j]; simp add: addr_def request_def)+
  have hb: "h = Some b \<longleftrightarrow> qs = []" using nb q(1) by (cases qs) (auto simp: h_def)
  obtain c where c: "whenk (h = Some b) (idestart hw b) s2 = Done () (s2\<lparr>mach := c\<rparr>)"
    and started: "qs = [] \<Longrightarrow> if bdirty ?x then blk c = (blk (mach s))(addr ?x := bdata ?x) else blk c = blk (mach s) \<and> pend c = Some (addr ?x)"
    and idle: "qs \<noteq> [] \<Longrightarrow> c = mach s"
  proof (cases "qs = []")
    case True
    then show ?thesis
      using that idestart_run [OF laws, of s2 b] b(2) hb by (auto simp: s2_def s1_def fields)
  next
    case False
    then show ?thesis using that [of "mach s"] hb by (simp add: s2_def s1_def)
  qed
  define s3 where "s3 = s2\<lparr>mach := c\<rparr>"
  define t where "t = s3\<lparr>held := {LPtable}, ptable := (ptable s)[i := (ptable s ! i)\<lparr>chan := Some (ChanBuf b), state := SLEEPING\<rparr>]\<rparr>"
  have s3: "bufs s3 = bs" "held s3 = {LIde}" "curproc s3 = Some i" "ptable s3 = ptable s" using i by (simp_all add: s3_def s2_def s1_def)
  have "ide_await b s3 = sleep (ChanBuf b) LIde s3"
    using b(2) by (simp add: ide_await_def bd_run s3 fields request_def)
  also have "\<dots> = Switched t" using sleep_run [of s3 i LIde] i s3 by (simp add: t_def)
  finally have aw: "ide_await b s3 = Switched t" .
  have "ide_rw hw b s = bd (ide_append b) (\<lambda>_. bd (gets idequeue) (\<lambda>q. bd (whenk (q = Some b) (idestart hw b)) (\<lambda>_. ide_await b))) s1"
    using b(2,4) i(3) by (auto simp: ide_rw_def bd_run acquire_run request_def s1_def)
  also have "\<dots> = ide_await b s3"
    unfolding bd_Done [of "ide_append b", OF bs(1)] s2_def [symmetric]
    using c by (simp add: bd_run s2_def s3_def)
  finally have run: "ide_rw hw b s = Switched t" using aw by simp
  have tf: "bufs t = bs" "idequeue t = h" "mach t = c" "held t = {LPtable}" "curproc t = Some i"
    using i by (simp_all add: t_def s3_def s2_def s1_def)
  have "ide_inv blk pend t (qs @ [b])"
    using bs(2) q b(2,3) started idle inv by (cases qs) (auto simp: ide_inv_def tf fields)
  moreover have "blk c a = blk (mach s) a" if "a \<noteq> addr ?x \<or> \<not> bdirty ?x" for a
    using started idle that by (cases "qs = []") (auto split: if_splits)
  ultimately show ?thesis using run tf same by (intro exI [of _ t]) (simp add: t_def)
qed

lemma fold_awake:
  assumes "i < length ps" and "state (ps ! i) = SLEEPING" and "chan (ps ! i) = Some (ChanBuf b)" and "b \<notin> set qs"
  shows "fold (\<lambda>q. awake (ChanBuf q)) qs ps ! i = ps ! i" and "length (fold (\<lambda>q. awake (ChanBuf q)) qs ps) = length ps"
  using assms by (induction qs arbitrary: ps) (auto simp: awake_def)

text \<open>
  C3: A request from its start to its end. \<^verbatim>\<open>iderw\<close> puts the buffer at the end of the queue and sleeps;
  after as many disk interrupts as there are requests in the queue, the last of them its own, the
  queue is empty, the process is runnable, the buffer is valid and clean and agrees with its disk
  block (which holds the buffer's data if it was dirty, and otherwise what was on the disk before),
  and \<^verbatim>\<open>iderw\<close> returns with no lock held when the process runs again.
\<close>

theorem iderw_completes:
  fixes s :: "('c, 'z) idest_scheme"
  assumes laws: "ide_laws hw regs blk pend" and inv: "ide_inv blk pend s qs"
    and b: "b < length (bufs s)" "request (bufs s ! b)" "addr (bufs s ! b) \<notin> (\<lambda>q. addr (bufs s ! q)) ` set qs"
      "bdev (bufs s ! b) = 0 \<or> havedisk1 s"
    and i: "curproc s = Some i" "i < length (ptable s)" "held s = {}"
  shows "\<exists>t u v. ide_rw hw b s = Switched t \<and>
    foreach (qs @ [b]) (\<lambda>_. ide_intr hw) (t\<lparr>held := {}\<rparr>) = Done () u \<and> idequeue u = None \<and>
    state (ptable u ! i) = RUNNABLE \<and> bvalid (bufs u ! b) \<and> \<not> bdirty (bufs u ! b) \<and>
    bdata (bufs u ! b) = (if bdirty (bufs s ! b) then bdata (bufs s ! b) else blk (mach s) (addr (bufs s ! b))) \<and>
    blk (mach u) (addr (bufs s ! b)) = bdata (bufs u ! b) \<and>
    ide_rw_resume b (u\<lparr>curproc := Some i, held := {LPtable}\<rparr>) = Done () v \<and> held v = {}"
proof -
  let ?x = "bufs s ! b"
  obtain t where t: "ide_rw hw b s = Switched t" "ide_inv blk pend t (qs @ [b])"
    and ps: "ptable t = (ptable s)[i := (ptable s ! i)\<lparr>chan := Some (ChanBuf b), state := SLEEPING\<rparr>]"
    and same: "bufs t ! b = ?x\<lparr>bqnext := bqnext (bufs t ! b)\<rparr>"
    and keep: "\<not> bdirty ?x \<Longrightarrow> blk (mach t) (addr ?x) = blk (mach s) (addr ?x)"
    using ide_rw_run [OF assms] by blast
  have x: "addr (bufs t ! b) = addr ?x" "bdirty (bufs t ! b) = bdirty ?x" "bdata (bufs t ! b) = bdata ?x"
    by (subst same; simp add: addr_def)+
  have inv0: "ide_inv blk pend (t\<lparr>held := {}\<rparr>) (qs @ [b])" using t(2) by (cases qs) (simp_all add: ide_inv_def)
  obtain u where u: "foreach (qs @ [b]) (\<lambda>_. ide_intr hw) (t\<lparr>held := {}\<rparr>) = Done () u" "idequeue u = None" "held u = {}"
    and pu: "ptable u = fold (\<lambda>b. awake (ChanBuf b)) (qs @ [b]) (ptable t)"
    and fin: "bvalid (bufs u ! b)" "\<not> bdirty (bufs u ! b)" "blk (mach u) (addr ?x) = bdata (bufs u ! b)"
      "bdata (bufs u ! b) = (if bdirty ?x then bdata ?x else blk (mach t) (addr ?x))"
    using ide_intr_all [OF laws inv0] by (auto simp: x)
  have nb: "b \<notin> set qs" using b(3) by auto
  have pi: "i < length (ptable t)" "state (ptable t ! i) = SLEEPING" "chan (ptable t ! i) = Some (ChanBuf b)"
    using i(2) by (simp_all add: ps)
  have "state (ptable u ! i) = RUNNABLE" "i < length (ptable u)"
    using fold_awake [OF pi nb] pi by (simp_all add: pu awake_def)
  moreover have "\<exists>v. ide_rw_resume b (u\<lparr>curproc := Some i, held := {LPtable}\<rparr>) = Done () v \<and> held v = {}"
    using fin(1,2) by (simp add: ide_rw_resume_def bd_run sleep_resume_run [of _ i] ide_await_def release_run)
  ultimately show ?thesis using t(1) u fin keep by auto
qed

text \<open>A controller that is always ready, with the registers, the sectors and the sector a read command chose.\<close>

type_synonym ctl = "(u16 \<Rightarrow> u8) \<times> (bool \<times> nat \<Rightarrow> bytes) \<times> (bool \<times> nat) option"

definition ready_disk :: "ctl machine" where
  "ready_disk = \<lparr>
     m_outb = (\<lambda>p v (r, d, q). if p = 0x1f7 then (r, d, if v = IDE_CMD_READ then Some (target r) else q) else (r(p := v), d, q)),
     m_inb = (\<lambda>p c. (IDE_DRDY, c)),
     m_outsl = (\<lambda>p x (r, d, q). (r, d(target r := x), q)),
     m_insl = (\<lambda>p n (r, d, q). (case q of Some a \<Rightarrow> d a | None \<Rightarrow> [], (r, d, q))),
     m_write32 = (\<lambda>a v c. c),
     m_read32 = (\<lambda>a c. (0, c))\<rparr>"

lemma ready_disk_laws: "ide_laws ready_disk fst (\<lambda>c. fst (snd c)) (\<lambda>c. snd (snd c))"
  by (auto simp: ide_laws_def ready_disk_def IDE_DRDY_def IDE_BSY_def IDE_DF_def IDE_ERR_def poll.simps)

definition one_request :: "ctl idest" where
  "one_request = hwst.extend (consst.extend (boot_console\<lparr>held := {}, curproc := Some 0, ptable := [zero_proc\<lparr>state := RUNNING, pid := 1\<rparr>],
      bufs := [zero_buf\<lparr>bbusy := True, bblockno := 7\<rparr>]\<rparr>)
    (hwst.fields (\<lambda>_. 0, \<lambda>_. replicate 512 1, None) 0 False 1 0 id 0 0)) (idest.fields None False)"

theorem iderw_completes_witness:
  "\<exists>t u. ide_rw ready_disk 0 one_request = Switched t \<and> ide_intr ready_disk (t\<lparr>held := {}\<rparr>) = Done () u \<and>
     bdata (bufs u ! 0) = replicate 512 1 \<and> state (ptable u ! 0) = RUNNABLE"
proof -
  have f: "bufs one_request = [zero_buf\<lparr>bbusy := True, bblockno := 7\<rparr>]"
    "mach one_request = (\<lambda>_. 0, \<lambda>_. replicate 512 1, None)" "idequeue one_request = None"
    "curproc one_request = Some 0" "length (ptable one_request) = 1" "held one_request = {}"
    by (simp_all add: one_request_def consst.defs hwst.defs idest.defs boot_console_def)
  have "ide_inv (\<lambda>c. fst (snd c)) (\<lambda>c. snd (snd c)) one_request []" by (simp add: ide_inv_def f)
  then show ?thesis
    using iderw_completes [OF ready_disk_laws, of one_request "[]" 0 0]
    by (auto simp: f request_def zero_buf_def BSIZE_def SECTOR_SIZE_def FSSIZE_def bd_eq_Done)
qed

end
