(* ===== verification/Files.thy ===== *)
theory Files
  imports Fs Crash
begin

text \<open>
  What the file system does to the blocks of the disk: block allocation, inodes and file contents,
  on top of the contracts of the buffer cache and of the log.
\<close>

section \<open>Steps on the blocks\<close>

text \<open>
  Operations inside a transaction leave everything alone but the cache, the log header and the
  sleepers. \<open>fstep s t V H ns\<close>: from \<open>s\<close> to \<open>t\<close>, where the blocks have the contents \<open>V\<close> and the
  buffers the handles \<open>H\<close>, and the blocks \<open>ns\<close> have been put into the transaction.
\<close>

definition lframe :: "'z logst_scheme \<Rightarrow> 'z logst_scheme \<Rightarrow> bool" where
  "lframe s t \<longleftrightarrow> t = s\<lparr>ptable := ptable t, bufs := bufs t, disk := disk t, dtrace := dtrace t,
     lh_n := lh_n t, lh_block := lh_block t\<rparr> \<and> woken (ptable s) (ptable t)"

definition fs_ok :: "'z logst_scheme \<Rightarrow> bool" where
  "fs_ok s \<longleftrightarrow> bc_ready s \<and> LLog \<notin> held s \<and> log_ok s \<and> 1 \<le> log_outstanding s \<and>
     distinct (log_blocks s) \<and> dirties s = set (log_blocks s)"

definition fstep :: "'z logst_scheme \<Rightarrow> 'z logst_scheme \<Rightarrow> (u32 \<Rightarrow> bytes) \<Rightarrow> (nat \<Rightarrow> u32 option) \<Rightarrow> u32 list \<Rightarrow> bool" where
  "fstep s t V H ns \<longleftrightarrow> fs_ok t \<and> lframe s t \<and> bview t = V \<and> handle t = H \<and> disk t = disk s \<and>
     log_blocks t = fold (\<lambda>n bs. absorbed bs n) ns (log_blocks s)"

text \<open>Room for \<open>k\<close> more blocks in the log and in the cache.\<close>

definition log_room :: "nat \<Rightarrow> 'z logst_scheme \<Rightarrow> bool" where
  "log_room k s \<longleftrightarrow> length (log_blocks s) + k \<le> LOGSIZE \<and> int (length (log_blocks s) + k) \<le> log_size s - 1"

definition room :: "nat \<Rightarrow> 'z logst_scheme \<Rightarrow> bool" where
  "room k s \<longleftrightarrow> log_room k s \<and> card (dom (handle s)) + length (log_blocks s) + k < NBUF"

lemma lframe_refl [simp]: "lframe s s"
  by (simp add: lframe_def)

lemma lframe_fields:
  assumes "lframe s t"
  shows "held t = held s" "curproc t = curproc s" "log_size t = log_size s" "log_outstanding t = log_outstanding s"
    "log_dev t = log_dev s" "log_start t = log_start s" "log_committing t = log_committing s"
    "logst.more t = logst.more s"
proof -
  have e: "t = s\<lparr>ptable := ptable t, bufs := bufs t, disk := disk t, dtrace := dtrace t,
     lh_n := lh_n t, lh_block := lh_block t\<rparr>"
    using assms unfolding lframe_def by blast
  show "held t = held s" "curproc t = curproc s" "log_size t = log_size s" "log_outstanding t = log_outstanding s"
    "log_dev t = log_dev s" "log_start t = log_start s" "log_committing t = log_committing s"
    "logst.more t = logst.more s"
    by (subst e, simp)+
qed

lemma lframe_fs:
  fixes s t :: "'z fsst_scheme"
  assumes "lframe s t"
  shows "icache t = icache s" "sb t = sb s"
proof -
  have e: "t = s\<lparr>ptable := ptable t, bufs := bufs t, disk := disk t, dtrace := dtrace t,
     lh_n := lh_n t, lh_block := lh_block t\<rparr>"
    using assms unfolding lframe_def by blast
  show "icache t = icache s" "sb t = sb s" by (subst e, simp)+
qed

lemma lframe_trans: "lframe s t \<Longrightarrow> lframe t u \<Longrightarrow> lframe s u"
proof -
  assume a: "lframe s t" "lframe t u"
  have "u = t\<lparr>ptable := ptable u, bufs := bufs u, disk := disk u, dtrace := dtrace u, lh_n := lh_n u, lh_block := lh_block u\<rparr>"
    using a(2) unfolding lframe_def by blast
  also have "t = s\<lparr>ptable := ptable t, bufs := bufs t, disk := disk t, dtrace := dtrace t, lh_n := lh_n t, lh_block := lh_block t\<rparr>"
    using a(1) unfolding lframe_def by blast
  finally have "u = s\<lparr>ptable := ptable u, bufs := bufs u, disk := disk u, dtrace := dtrace u, lh_n := lh_n u, lh_block := lh_block u\<rparr>"
    by simp
  moreover have "woken (ptable s) (ptable u)" using a woken_trans unfolding lframe_def by blast
  ultimately show ?thesis unfolding lframe_def by blast
qed

lemma cframe_lframe:
  fixes s t :: "'z logst_scheme"
  assumes "cframe s t"
  shows "lframe s t"
proof -
  have "lh_n t = lh_n s" "lh_block t = lh_block s" using cframe_log [OF assms] by simp_all
  moreover have "t = s\<lparr>ptable := ptable t, bufs := bufs t, disk := disk t, dtrace := dtrace t\<rparr>" "woken (ptable s) (ptable t)"
    using assms unfolding cframe_def by blast+
  ultimately show ?thesis unfolding lframe_def by simp
qed

lemma fstepD:
  assumes "fstep s t V H ns"
  shows "fs_ok t" "lframe s t" "bview t = V" "handle t = H" "disk t = disk s"
    "log_blocks t = fold (\<lambda>n bs. absorbed bs n) ns (log_blocks s)"
  using assms by (simp_all add: fstep_def)

lemma fstep_refl: "fs_ok s \<Longrightarrow> fstep s s (bview s) (handle s) []"
  by (simp add: fstep_def)

lemma fstep_trans: "fstep s t V H ns \<Longrightarrow> fstep t u V' H' ms \<Longrightarrow> fstep s u V' H' (ns @ ms)"
  by (auto simp: fstep_def intro: lframe_trans)

lemma length_absorbed: "length bs \<le> length (absorbed bs n)" "length (absorbed bs n) \<le> Suc (length bs)"
  by (auto simp: absorbed_def)

lemma length_fold_absorbed:
  "length (fold (\<lambda>n bs. absorbed bs n) ns bs) \<le> length bs + length ns"
proof (induction ns arbitrary: bs)
  case (Cons n ns)
  show ?case using Cons.IH [of "absorbed bs n"] length_absorbed(2) [of bs n] by simp
qed simp

lemma room_step:
  assumes "room (length ns + k) s" and "fstep s t V (handle s) ns"
  shows "room k t"
  using assms length_fold_absorbed [of ns "log_blocks s"] lframe_fields(3) [OF fstepD(2) [OF assms(2)]]
  by (auto simp: room_def log_room_def fstepD(4,6) [OF assms(2)])

lemma room_mono: "room k s \<Longrightarrow> j \<le> k \<Longrightarrow> room j s"
  by (auto simp: room_def log_room_def)

lemma bc_to_fstep:
  fixes s t :: "'z logst_scheme"
  assumes "fs_ok s" and "bc_to s t V H (dirties s) (disk s) tr"
  shows "fstep s t V H []"
proof -
  have r: "bc_ready s" using assms(1) by (simp add: fs_ok_def)
  note T = bc.to_abs [OF r assms(2)] and C = cframe_log [OF bc_toD(2) [OF assms(2)]]
    and L = cframe_held [OF bc_toD(2) [OF assms(2)]]
  have "log_blocks t = log_blocks s" using C by (simp add: log_blocks_def)
  then show ?thesis
    using T C L assms(1) cframe_lframe [OF bc_toD(2) [OF assms(2)]] by (auto simp: fstep_def fs_ok_def log_ok_def)
qed

lemma log_blocks_length: "log_ok s \<Longrightarrow> length (log_blocks s) = nat (lh_n s)"
  by (auto simp: log_ok_def log_blocks_def)

lemma fs_bread:
  fixes s :: "'z logst_scheme"
  assumes ok: "fs_ok s" and "unat n < length (disk s)" and "n \<notin> ran (handle s)" and "room 0 s"
  shows "\<exists>b t. bread 1 n s = Done b t \<and> handle s b = None \<and> fstep s t (bview s) ((handle s)(b \<mapsto> n)) []"
proof -
  have "card (dirties s) \<le> length (log_blocks s)" using ok card_length by (auto simp: fs_ok_def)
  then have "card (dom (handle s)) + card (dirties s) < NBUF" using assms(4) by (simp add: room_def)
  then show ?thesis
    using bc.rd_law [of s n] assms bc_to_fstep [OF ok] by (metis fs_ok_def)
qed

lemma fs_bpeek: "fs_ok s \<Longrightarrow> handle s b = Some n \<Longrightarrow> bpeek b s = Done (bview s n) s"
  using bc.peek_law by (auto simp: fs_ok_def)

lemma fs_bput:
  fixes s :: "'z logst_scheme"
  assumes ok: "fs_ok s" and "handle s b = Some n" and "length x = BSIZE"
  shows "\<exists>t. bput b x s = Done () t \<and> fstep s t ((bview s)(n := x)) (handle s) []"
  using bc.put_law [of s b n x] assms bc_to_fstep [OF ok] by (metis fs_ok_def)

lemma fs_brelse:
  fixes s :: "'z logst_scheme"
  assumes ok: "fs_ok s" and "handle s b = Some n" and "n \<in> set (log_blocks s) \<or> bview s n = disk s ! unat n"
  shows "\<exists>t. brelse b s = Done () t \<and> fstep s t (bview s) ((handle s)(b := None)) []"
  using bc.rl_law [of s b n] assms bc_to_fstep [OF ok] by (metis fs_ok_def)

lemma log_write_frame: "log_write b s = Done () t \<Longrightarrow> lframe s t"
  by (auto simp: log_write_def bd_eq_Done acquire_def release_def bmark_def upd_buf_def lh_set_def lframe_def split: if_splits)

lemma set_absorbed: "set (absorbed bs n) = insert n (set bs)"
  by (auto simp: absorbed_def)

lemma distinct_absorbed: "distinct bs \<Longrightarrow> distinct (absorbed bs n)"
  by (simp add: absorbed_def)

lemma fs_log_write:
  fixes s :: "'z logst_scheme"
  assumes ok: "fs_ok s" and h: "handle s b = Some n" and "log_room 1 s"
  shows "\<exists>t. log_write b s = Done () t \<and> fstep s t (bview s) (handle s) [n]"
proof -
  have "bc_ready s" "LLog \<notin> held s" "log_ok s" "1 \<le> log_outstanding s" using ok by (auto simp: fs_ok_def)
  moreover have "lh_n s < int LOGSIZE" "lh_n s < log_size s - 1"
    using assms(3) log_blocks_length [OF \<open>log_ok s\<close>] \<open>log_ok s\<close> by (auto simp: log_room_def log_ok_def)
  ultimately obtain t where "log_write b s = Done () t" "bc_ready t" "log_ok t" "held t = held s" "bview t = bview s"
    "handle t = handle s" "dirties t = insert n (dirties s)" "disk t = disk s"
    "log_blocks t = absorbed (log_blocks s) n" "log_outstanding t = log_outstanding s"
    using log_write_spec [of s b n] h by auto
  then show ?thesis using ok log_write_frame [of b s t] by (auto simp: fstep_def fs_ok_def set_absorbed distinct_absorbed)
qed

text \<open>Looking at a block, and replacing it by a function of its contents.\<close>

lemma fs_read:
  fixes s :: "'z logst_scheme"
  assumes ok: "fs_ok s" and n: "unat n < length (disk s)" "n \<notin> ran (handle s)" and "room 0 s"
  shows "\<exists>b t u. bread 1 n s = Done b t \<and> bpeek b t = Done (bview s n) t \<and> brelse b t = Done () u \<and>
    fstep s u (bview s) (handle s) []"
proof -
  obtain b t where t: "bread 1 n s = Done b t" "handle s b = None" "fstep s t (bview s) ((handle s)(b \<mapsto> n)) []"
    using fs_bread [OF assms] by blast
  note T = fstepD [OF t(3)]
  have h: "handle t b = Some n" using T(4) by simp
  have "n \<in> set (log_blocks s) \<or> bview s n = disk s ! unat n"
    using bc.view_clean [of s n] ok n(2) by (auto simp: fs_ok_def)
  then obtain u where u: "brelse b t = Done () u" "fstep t u (bview t) ((handle t)(b := None)) []"
    using fs_brelse [OF T(1) h] T by auto
  have "(handle t)(b := None) = handle s" using T(4) t(2) by auto
  then have "fstep s u (bview s) (handle s) []" using fstep_trans [OF t(3) u(2)] T(3) by simp
  then show ?thesis using t(1) u(1) fs_bpeek [OF T(1) h] T(3) by auto
qed

lemma fs_write:
  fixes s :: "'z logst_scheme"
  assumes ok: "fs_ok s" and n: "unat n < length (disk s)" "n \<notin> ran (handle s)" and room: "room 1 s"
    and x: "length x = BSIZE"
  shows "\<exists>b t u v w. bread 1 n s = Done b t \<and> bpeek b t = Done (bview s n) t \<and> bput b x t = Done () u \<and>
    log_write b u = Done () v \<and> brelse b v = Done () w \<and> fstep s w ((bview s)(n := x)) (handle s) [n]"
proof -
  obtain b t where t: "bread 1 n s = Done b t" "handle s b = None" "fstep s t (bview s) ((handle s)(b \<mapsto> n)) []"
    using fs_bread [OF ok n room_mono [OF room]] by auto
  note T = fstepD [OF t(3)]
  have h: "handle t b = Some n" using T(4) by simp
  obtain u where u: "bput b x t = Done () u" "fstep t u ((bview t)(n := x)) (handle t) []"
    using fs_bput [OF T(1) h x] by blast
  note U = fstepD [OF u(2)]
  have h': "handle u b = Some n" using U(4) h by simp
  have "log_room 1 u"
    using room lframe_fields(3) [OF U(2)] lframe_fields(3) [OF T(2)] by (simp add: room_def log_room_def U(6) T(6))
  then obtain v where v: "log_write b u = Done () v" "fstep u v (bview u) (handle u) [n]"
    using fs_log_write [OF U(1) h'] by blast
  note W = fstepD [OF v(2)]
  have "n \<in> set (log_blocks v)" by (simp add: W(6) set_absorbed)
  then obtain w where w: "brelse b v = Done () w" "fstep v w (bview v) ((handle v)(b := None)) []"
    using fs_brelse [OF W(1), of b n] W(4) h' by auto
  have "(handle v)(b := None) = handle s" using W(4) U(4) T(4) t(2) by auto
  then have "fstep s w ((bview s)(n := x)) (handle s) [n]"
    using fstep_trans [OF fstep_trans [OF fstep_trans [OF t(3) u(2)] v(2)] w(2)] W(3) U(3) T(3) by simp
  then show ?thesis using t(1) u(1) v(1) w(1) fs_bpeek [OF T(1) h] T(3) by auto
qed

text \<open>
  Room for the blocks of \<open>M\<close> and \<open>k\<close> more blocks, whether they are in the transaction yet or not.
\<close>

definition cap :: "u32 set \<Rightarrow> nat \<Rightarrow> 'z logst_scheme \<Rightarrow> bool" where
  "cap M k s \<longleftrightarrow> card (set (log_blocks s) \<union> M) + k + 2 < LOGSIZE \<and> int (card (set (log_blocks s) \<union> M) + k) < log_size s - 1"

lemma cap_room:
  fixes s :: "'z logst_scheme"
  assumes "cap M k s" and "fs_ok s" and "card (dom (handle s)) \<le> 1"
  shows "room 1 s"
proof -
  have "length (log_blocks s) = card (set (log_blocks s))" using assms(2) by (simp add: fs_ok_def distinct_card)
  also have "\<dots> \<le> card (set (log_blocks s) \<union> M)" by (rule card_mono) auto
  finally show ?thesis
    using assms(1,3) by (auto simp: cap_def room_def log_room_def LOGSIZE_def NBUF_def)
qed

lemma set_fold_absorbed: "set (fold (\<lambda>n bs. absorbed bs n) ns bs) = set bs \<union> set ns"
  by (induction ns arbitrary: bs) (auto simp: set_absorbed)

lemma cap_step:
  assumes "cap M (k + j) s" and st: "fstep s t V H ns" and "card (set ns - M - set (log_blocks s)) \<le> j"
  shows "cap M k t"
proof -
  have "set (log_blocks t) \<union> M = (set (log_blocks s) \<union> M) \<union> (set ns - M - set (log_blocks s))"
    by (auto simp: fstepD(6) [OF st] set_fold_absorbed)
  then have "card (set (log_blocks t) \<union> M) \<le> card (set (log_blocks s) \<union> M) + j"
    using card_Un_le [of "set (log_blocks s) \<union> M" "set ns - M - set (log_blocks s)"] assms(3) by simp
  then show ?thesis using assms(1) lframe_fields(3) [OF fstepD(2) [OF st]] by (auto simp: cap_def)
qed

lemma cap_kept:
  assumes "cap M k s" and "fstep s t V H ns" and "set ns \<subseteq> M \<union> set (log_blocks s)"
  shows "cap M k t"
proof (rule cap_step)
  show "cap M (k + 0) s" "fstep s t V H ns" using assms by simp_all
  have "set ns - M - set (log_blocks s) = {}" using assms(3) by blast
  then show "card (set ns - M - set (log_blocks s)) \<le> 0" by simp
qed

lemma cap_new: "cap M (Suc k) s \<Longrightarrow> fstep s t V H [n] \<Longrightarrow> cap M k t"
  using cap_step [of M k 1 s t V H "[n]"] card_mono [of "{n}" "{n} - M - set (log_blocks s)"] by auto

section \<open>Block allocation\<close>

text \<open>Which blocks the bitmap marks as in use, and where the bitmap lies on the disk.\<close>

definition used :: "'z fsst_scheme \<Rightarrow> nat \<Rightarrow> bool" where
  "used s b \<longleftrightarrow> bm_used (bview s (BBLOCK b (sb s))) (b mod BPB)"

definition bitmap_ok :: "'z fsst_scheme \<Rightarrow> bool" where
  "bitmap_ok s \<longleftrightarrow> unat (sb_size (sb s)) \<le> length (disk s) \<and>
     unat (sb_bmapstart (sb s)) + unat (sb_size (sb s)) div BPB < unat (sb_size (sb s))"

lemma BPB_pos: "0 < BPB" "BPB div 8 = BSIZE"
  by (simp_all add: BPB_def BSIZE_def)

lemma unat_u32: "unat (w :: u32) < 2 ^ 32"
  by (rule order_less_le_trans [OF unsigned_less]) simp

lemma unat_of_small: "n < unat (w :: u32) \<Longrightarrow> unat (of_nat n :: u32) = n"
  using unat_u32 [of w] by (simp add: unat_of_nat)

lemma unat_BBLOCK:
  assumes "bitmap_ok s" and "b < unat (sb_size (sb s))"
  shows "unat (BBLOCK b (sb s)) = unat (sb_bmapstart (sb s)) + b div BPB" "unat (BBLOCK b (sb s)) < unat (sb_size (sb s))"
proof -
  have "b div BPB \<le> unat (sb_size (sb s)) div BPB" using assms(2) by (simp add: div_le_mono)
  then have l: "unat (sb_bmapstart (sb s)) + b div BPB < unat (sb_size (sb s))" using assms(1) by (simp add: bitmap_ok_def)
  then have "unat (sb_bmapstart (sb s)) + b div BPB < 2 ^ 32" using unat_u32 [of "sb_size (sb s)"] by simp
  then show "unat (BBLOCK b (sb s)) = unat (sb_bmapstart (sb s)) + b div BPB"
    using unat_add_small [of "sb_bmapstart (sb s)" "b div BPB"] by (simp add: BBLOCK_def add.commute)
  with l show "unat (BBLOCK b (sb s)) < unat (sb_size (sb s))" by simp
qed

lemma bm_set_bits:
  assumes "i < 8 * length d" and "j < 8 * length d"
  shows "bm_used (bm_set d i) j \<longleftrightarrow> j = i \<or> bm_used d j"
proof -
  have "i div 8 < length d" "j div 8 < length d" using assms by (simp_all add: less_mult_imp_div_less mult.commute)
  moreover have "j = i \<longleftrightarrow> j div 8 = i div 8 \<and> j mod 8 = i mod 8" by (metis div_mult_mod_eq)
  moreover have "j mod 8 < 8" by simp
  ultimately show ?thesis by (auto simp: bm_used_def bm_set_def nth_list_update bit_simps)
qed

lemma bm_clear_bits:
  assumes "i < 8 * length d" and "j < 8 * length d"
  shows "bm_used (bm_clear d i) j \<longleftrightarrow> j \<noteq> i \<and> bm_used d j"
proof -
  have "i div 8 < length d" "j div 8 < length d" using assms by (simp_all add: less_mult_imp_div_less mult.commute)
  moreover have "j = i \<longleftrightarrow> j div 8 = i div 8 \<and> j mod 8 = i mod 8" by (metis div_mult_mod_eq)
  moreover have "j mod 8 < 8" by simp
  ultimately show ?thesis by (auto simp: bm_used_def bm_clear_def nth_list_update bit_simps)
qed

lemma length_bm [simp]: "length (bm_set d i) = length d" "length (bm_clear d i) = length d"
  by (simp_all add: bm_set_def bm_clear_def)

lemma bzero_run:
  fixes s :: "'z logst_scheme"
  assumes ok: "fs_ok s" and n: "unat n < length (disk s)" "n \<notin> ran (handle s)" and room: "room 1 s"
  shows "\<exists>t. bzero 1 n s = Done () t \<and> fstep s t ((bview s)(n := replicate BSIZE 0)) (handle s) [n]"
  using fs_write [OF assms, of "replicate BSIZE 0"] by (auto simp: bzero_def bd_run)

lemma find_upt:
  "find P [0..<n] = Some i \<Longrightarrow> i < n \<and> P i \<and> (\<forall>j < i. \<not> P j)"
  "find P [0..<n] = None \<Longrightarrow> j < n \<Longrightarrow> \<not> P j"
  by (auto simp: find_Some_iff find_None_iff)

lemma bitmap_step:
  fixes s t :: "'z fsst_scheme"
  assumes "fstep s t V H ns"
  shows "sb t = sb s" "bitmap_ok t = bitmap_ok s"
  using lframe_fs [OF fstepD(2) [OF assms]] fstepD(5) [OF assms] by (simp_all add: bitmap_ok_def)

text \<open>
  The search: the first free block from \<open>k\<close> on. The buffers in use are of blocks in use, and no buffer
  of the bitmap is in use.
\<close>

definition handles_used :: "'z fsst_scheme \<Rightarrow> bool" where
  "handles_used s \<longleftrightarrow> (\<forall>n \<in> ran (handle s). used s (unat n) \<and> (\<forall>b < unat (sb_size (sb s)). n \<noteq> BBLOCK b (sb s)))"

lemma balloc_loop_run:
  fixes s :: "'z fsst_scheme"
  assumes "fs_ok s" and "bitmap_ok s" and "handles_used s" and "cap M 1 s" and "BPB dvd k"
    and "\<exists>b. k \<le> b \<and> b < unat (sb_size (sb s)) \<and> \<not> used s b"
    and "card (dom (handle s)) \<le> 1" and "\<forall>b < unat (sb_size (sb s)). BBLOCK b (sb s) \<in> M"
  shows "\<exists>b t. balloc_loop 1 (sb s) k s = Done (of_nat b) t \<and> k \<le> b \<and> b < unat (sb_size (sb s)) \<and> \<not> used s b \<and>
    (\<forall>j. k \<le> j \<longrightarrow> j < b \<longrightarrow> used s j) \<and>
    fstep s t ((bview s)(BBLOCK b (sb s) := bm_set (bview s (BBLOCK b (sb s))) (b mod BPB), of_nat b := replicate BSIZE 0))
      (handle s) [BBLOCK b (sb s), of_nat b]"
  using assms
proof (induction "unat (sb_size (sb s)) - k" arbitrary: s k rule: less_induct)
  case less
  let ?z = "unat (sb_size (sb s))"
  let ?B = "BBLOCK k (sb s)"
  let ?d = "bview s ?B"
  have r: "room 1 s" by (rule cap_room [OF less.prems(4,1,7)])
  have k: "k < ?z" using less.prems(6) by auto
  have B: "unat ?B < length (disk s)" "?B \<notin> ran (handle s)"
    using unat_BBLOCK(2) [OF less.prems(2) k] less.prems(2,3) k by (auto simp: bitmap_ok_def handles_used_def)
  have len: "length ?d = BSIZE" using bc.view_length [of s ?B] less.prems(1) B(1) by (auto simp: fs_ok_def)
  have same: "BBLOCK (k + i) (sb s) = ?B \<and> (k + i) mod BPB = i" if "i < BPB" for i
    using that less.prems(5) by (auto simp: BBLOCK_def elim!: dvdE)
  then have use: "used s (k + i) = bm_used ?d i" if "i < BPB" for i using that by (simp add: used_def)
  show ?case
  proof (cases "find (\<lambda>i. \<not> bm_used ?d i) [0..<min BPB (?z - k)]")
    case (Some i)
    then have i: "i < BPB" "k + i < ?z" "\<not> bm_used ?d i" "\<forall>j < i. bm_used ?d j" using find_upt(1) [OF Some] by auto
    obtain b t u v w where w: "bread 1 ?B s = Done b t" "bpeek b t = Done ?d t" "bput b (bm_set ?d i) t = Done () u"
      "log_write b u = Done () v" "brelse b v = Done () w" "fstep s w ((bview s)(?B := bm_set ?d i)) (handle s) [?B]"
      using fs_write [OF less.prems(1) B r, of "bm_set ?d i"] len by auto
    note W = fstepD [OF w(6)]
    have "cap M 1 w" using cap_kept [OF less.prems(4) w(6)] less.prems(8) k by simp
    then have "room 1 w" using cap_room [of M 1 w] W(1,4) less.prems(7) by simp
    moreover have un: "unat (of_nat (k + i) :: u32) = k + i" by (rule unat_of_small [OF i(2)])
    moreover have "k + i < length (disk s)" using i(2) less.prems(2) by (simp add: bitmap_ok_def)
    moreover have "of_nat (k + i) \<notin> ran (handle s)"
    proof
      assume "of_nat (k + i) \<in> ran (handle s)"
      then have "used s (k + i)" using less.prems(3) un unfolding handles_used_def by metis
      then show False using use [OF i(1)] i(3) by simp
    qed
    ultimately obtain x where x: "bzero 1 (of_nat (k + i)) w = Done () x"
      "fstep w x ((bview w)(of_nat (k + i) := replicate BSIZE 0)) (handle w) [of_nat (k + i)]"
      using bzero_run [of w "of_nat (k + i)"] W by auto
    have "balloc_loop 1 (sb s) k s = Done (of_nat (k + i)) x"
      using k w(1-5) x(1) Some by (subst balloc_loop.simps) (simp add: bd_run)
    moreover have "\<forall>j. k \<le> j \<longrightarrow> j < k + i \<longrightarrow> used s j"
    proof (intro allI impI)
      fix j assume "k \<le> j" "j < k + i"
      then have "used s (k + (j - k)) = bm_used ?d (j - k)" using i(1) by (intro use) simp
      then show "used s j" using i(4) \<open>k \<le> j\<close> \<open>j < k + i\<close> by simp
    qed
    ultimately show ?thesis
      using i(2,3) use [OF i(1)] same [OF i(1)] fstep_trans [OF w(6) x(2)] W
      by (intro exI [of _ "k + i"] exI [of _ x]) simp
  next
    case None
    then have all: "used s (k + i)" if "i < BPB" "k + i < ?z" for i using find_upt(2) [OF None, of i] use that by simp
    obtain b t u where u: "bread 1 ?B s = Done b t" "bpeek b t = Done ?d t" "brelse b t = Done () u" "fstep s u (bview s) (handle s) []"
      using fs_read [OF less.prems(1) B room_mono [OF r]] by auto
    note U = fstepD [OF u(4)] bitmap_step [OF u(4)]
    have us: "used u = used s" by (rule ext) (simp add: used_def U)
    have "handles_used u = handles_used s" by (simp add: handles_used_def us U)
    moreover have "cap M 1 u" using cap_kept [OF less.prems(4) u(4)] by simp
    moreover have "\<exists>b. k + BPB \<le> b \<and> b < unat (sb_size (sb u)) \<and> \<not> used u b"
    proof -
      obtain b' where b': "k \<le> b'" "b' < ?z" "\<not> used s b'" using less.prems(6) by blast
      have "k + BPB \<le> b'"
      proof (rule ccontr)
        assume "\<not> k + BPB \<le> b'"
        then have "used s (k + (b' - k))" using b' by (intro all) simp_all
        then show False using b' by simp
      qed
      then show ?thesis using b' us U(7) by auto
    qed
    moreover have "unat (sb_size (sb u)) - (k + BPB) < ?z - k" using k BPB_pos(1) U(7) by simp
    ultimately obtain c x where x: "balloc_loop 1 (sb u) (k + BPB) u = Done (of_nat c) x" "k + BPB \<le> c" "c < ?z" "\<not> used u c"
      "\<forall>j. k + BPB \<le> j \<longrightarrow> j < c \<longrightarrow> used u j"
      "fstep u x ((bview u)(BBLOCK c (sb u) := bm_set (bview u (BBLOCK c (sb u))) (c mod BPB), of_nat c := replicate BSIZE 0))
         (handle u) [BBLOCK c (sb u), of_nat c]"
      using less.hyps [of u "k + BPB"] U less.prems(2,3,5,7,8) by auto
    have "balloc_loop 1 (sb s) k s = Done (of_nat c) x"
      using k u(1-3) x(1) None U by (subst balloc_loop.simps) (simp add: bd_run)
    moreover have "\<forall>j. k \<le> j \<longrightarrow> j < c \<longrightarrow> used s j"
    proof (intro allI impI)
      fix j assume "k \<le> j" "j < c"
      then show "used s j" using x(3,5) us all [of "j - k"] by (cases "j < k + BPB") auto
    qed
    ultimately show ?thesis
      using x(2-4) us U fstep_trans [OF u(4) x(6)] by (intro exI [of _ c] exI [of _ x]) simp
  qed
qed

text \<open>
  The bitmap blocks are in use themselves, and then what a step does to the bitmap is what it does to
  the set of used blocks.
\<close>

definition bitmap_used :: "'z fsst_scheme \<Rightarrow> bool" where
  "bitmap_used s \<longleftrightarrow> (\<forall>b < unat (sb_size (sb s)). used s (unat (BBLOCK b (sb s))))"

lemma used_update:
  fixes s t :: "'z fsst_scheme"
  assumes ok: "bitmap_ok s" and b: "b < unat (sb_size (sb s))" "c < unat (sb_size (sb s))" and "sb t = sb s"
    and V: "\<And>n. (\<exists>j < unat (sb_size (sb s)). n = BBLOCK j (sb s)) \<Longrightarrow>
      bview t n = (if n = BBLOCK b (sb s) then f (bview s n) else bview s n)"
    and f: "\<And>j. j < BPB \<Longrightarrow> bm_used (f (bview s (BBLOCK b (sb s)))) j = (if j = b mod BPB then v else bm_used (bview s (BBLOCK b (sb s))) j)"
  shows "used t c = (if c = b then v else used s c)"
proof -
  have "BBLOCK c (sb s) = BBLOCK b (sb s) \<longleftrightarrow> c div BPB = b div BPB"
    using unat_BBLOCK(1) [OF ok b(1)] unat_BBLOCK(1) [OF ok b(2)] by (auto simp: BBLOCK_def)
  moreover have "c = b \<longleftrightarrow> c div BPB = b div BPB \<and> c mod BPB = b mod BPB" by (metis div_mult_mod_eq)
  moreover have "c mod BPB < BPB" using BPB_pos by simp
  moreover have "bview t (BBLOCK c (sb s)) = (if BBLOCK c (sb s) = BBLOCK b (sb s) then f (bview s (BBLOCK c (sb s))) else bview s (BBLOCK c (sb s)))"
    using V b(2) by blast
  ultimately show ?thesis using f [of "c mod BPB"] assms(4) by (auto simp: used_def split: if_splits)
qed

lemma balloc_run:
  fixes s :: "'z fsst_scheme"
  assumes ok: "fs_ok s" and bm: "bitmap_ok s" "bitmap_used s" "handles_used s" and "cap M 1 s"
    and "\<exists>b. b < unat (sb_size (sb s)) \<and> \<not> used s b"
    and "card (dom (handle s)) \<le> 1" and "\<forall>b < unat (sb_size (sb s)). BBLOCK b (sb s) \<in> M"
  shows "\<exists>b t. balloc 1 s = Done b t \<and> unat b < unat (sb_size (sb s)) \<and> \<not> used s (unat b) \<and>
    (\<forall>j. used t j = (j = unat b \<or> used s j) \<or> unat (sb_size (sb s)) \<le> j) \<and>
    (\<exists>V. fstep s t V (handle s) [BBLOCK (unat b) (sb s), b] \<and> V b = replicate BSIZE 0 \<and>
      (\<forall>n. n \<noteq> b \<longrightarrow> n \<noteq> BBLOCK (unat b) (sb s) \<longrightarrow> V n = bview s n))"
proof -
  obtain b t where t: "balloc_loop 1 (sb s) 0 s = Done (of_nat b) t" "b < unat (sb_size (sb s))" "\<not> used s b"
    and step: "fstep s t ((bview s)(BBLOCK b (sb s) := bm_set (bview s (BBLOCK b (sb s))) (b mod BPB), of_nat b := replicate BSIZE 0))
      (handle s) [BBLOCK b (sb s), of_nat b]"
    using balloc_loop_run [OF ok bm(1,3) assms(5), of 0] assms(6-8) by auto
  note T = fstepD [OF step] bitmap_step [OF step]
  have b: "unat (of_nat b :: u32) = b" by (rule unat_of_small [OF t(2)])
  have ne: "of_nat b \<noteq> BBLOCK j (sb s)" if "j < unat (sb_size (sb s))" for j
  proof
    assume "of_nat b = BBLOCK j (sb s)"
    then have "used s b" using bm(2) that b unfolding bitmap_used_def by metis
    then show False using t(3) by simp
  qed
  let ?d = "bview s (BBLOCK b (sb s))"
  have len: "8 * length ?d = BPB"
    using bc.view_length [of s "BBLOCK b (sb s)"] ok unat_BBLOCK(2) [OF bm(1) t(2)] bm(1)
    by (auto simp: fs_ok_def bitmap_ok_def BPB_def)
  have "used t j = (if j = b then True else used s j)" if "j < unat (sb_size (sb s))" for j
  proof (rule used_update [OF bm(1) t(2) that T(7)])
    fix n assume "\<exists>j < unat (sb_size (sb s)). n = BBLOCK j (sb s)"
    then have "n \<noteq> of_nat b" using ne by metis
    then show "bview t n = (if n = BBLOCK b (sb s) then bm_set (bview s n) (b mod BPB) else bview s n)" by (simp add: T(3))
  next
    fix j assume "j < BPB"
    then show "bm_used (bm_set ?d (b mod BPB)) j = (if j = b mod BPB then True else bm_used ?d j)"
      using bm_set_bits [of "b mod BPB" ?d j] len BPB_pos by auto
  qed
  then have "used t j = (j = b \<or> used s j) \<or> unat (sb_size (sb s)) \<le> j" for j by (cases "j < unat (sb_size (sb s))") auto
  moreover have "balloc 1 s = Done (of_nat b) t" using t(1) by (simp add: balloc_def bd_run)
  ultimately show ?thesis using t(2,3) b step ne [OF t(2)] by (intro exI [of _ "of_nat b"] exI [of _ t]) auto
qed

lemma bfree_run:
  fixes s :: "'z fsst_scheme"
  assumes ok: "fs_ok s" and bm: "bitmap_ok s" "bitmap_used s" and room: "room 1 s"
    and h: "\<forall>c < unat (sb_size (sb s)). BBLOCK c (sb s) \<notin> ran (handle s)"
    and super: "sb_of (bview s 1) = sb s" "1 < length (disk s)" "1 \<notin> ran (handle s)"
    and b: "unat b < unat (sb_size (sb s))"
  shows "if used s (unat b)
    then \<exists>t. bfree 1 b s = Done () t \<and> (\<forall>j. used t j = (j \<noteq> unat b \<and> used s j) \<or> unat (sb_size (sb s)) \<le> j) \<and>
      (\<exists>V. fstep s t V (handle s) [BBLOCK (unat b) (sb s)] \<and> (\<forall>n. n \<noteq> BBLOCK (unat b) (sb s) \<longrightarrow> V n = bview s n))
    else bfree 1 b s = Panicked ''freeing free block''"
proof -
  let ?B = "BBLOCK (unat b) (sb s)"
  let ?d = "bview s ?B"
  have r0: "room 0 s" using room by (rule room_mono) simp
  obtain b0 t0 s0 where s0: "bread 1 1 s = Done b0 t0" "bpeek b0 t0 = Done (bview s 1) t0" "brelse b0 t0 = Done () s0"
      "fstep s s0 (bview s) (handle s) []"
    using fs_read [OF ok, of 1] super r0 by auto
  note S = fstepD [OF s0(4)] bitmap_step [OF s0(4)]
  have rs: "readsb 1 s = Done (sb s) s0" using s0(1-3) super(1) by (simp add: readsb_def bd_run bpeek_def)
  have e: "s0\<lparr>sb := sb s\<rparr> = s0" using S(7) by (metis (no_types, lifting) fsst.surjective fsst.update_convs(2))
  have B: "unat ?B < length (disk s0)" "?B \<notin> ran (handle s0)"
    using unat_BBLOCK(2) [OF bm(1) b] bm(1) h b by (auto simp: bitmap_ok_def S)
  have len: "length ?d = BSIZE" "8 * length ?d = BPB"
    using bc.view_length [of s ?B] ok B(1) by (auto simp: fs_ok_def S BPB_def)
  have r1: "room 1 s0" using room_step [OF _ s0(4), of 1] room by simp
  have us: "used s (unat b) = bm_used ?d (unat b mod BPB)" by (simp add: used_def)
  show ?thesis
  proof (cases "used s (unat b)")
    case False
    obtain c t u where u: "bread 1 ?B s0 = Done c t" "bpeek c t = Done ?d t"
      using fs_read [OF S(1) B room_mono [OF r1]] S(3) by auto
    have "bfree 1 b s = Panicked ''freeing free block''"
      unfolding bfree_def using rs e u False us by (simp add: bd_run panic_def)
    with False show ?thesis by simp
  next
    case True
    obtain c t u v w where w: "bread 1 ?B s0 = Done c t" "bpeek c t = Done ?d t" "bput c (bm_clear ?d (unat b mod BPB)) t = Done () u"
      "log_write c u = Done () v" "brelse c v = Done () w"
      "fstep s0 w ((bview s)(?B := bm_clear ?d (unat b mod BPB))) (handle s) [?B]"
      using fs_write [OF S(1) B r1, of "bm_clear ?d (unat b mod BPB)"] len(1) S by auto
    note W = fstepD [OF w(6)] bitmap_step [OF w(6)]
    have "bfree 1 b s = Done () w"
      unfolding bfree_def using rs e w(1-5) True us by (simp add: bd_run)
    moreover have "used w j = (if j = unat b then False else used s j)" if "j < unat (sb_size (sb s))" for j
    proof (rule used_update [OF bm(1) b that])
      show "sb w = sb s" using W(7) S(7) by simp
      show "bview w n = (if n = ?B then bm_clear (bview s n) (unat b mod BPB) else bview s n)" for n by (simp add: W(3))
      fix j assume "j < BPB"
      then show "bm_used (bm_clear ?d (unat b mod BPB)) j = (if j = unat b mod BPB then False else bm_used ?d j)"
        using bm_clear_bits [of "unat b mod BPB" ?d j] len(2) BPB_pos by auto
    qed
    then have "used w j = (j \<noteq> unat b \<and> used s j) \<or> unat (sb_size (sb s)) \<le> j" for j by (cases "j < unat (sb_size (sb s))") auto
    moreover have "fstep s w ((bview s)(?B := bm_clear ?d (unat b mod BPB))) (handle s) [?B]"
      using fstep_trans [OF s0(4) w(6)] by simp
    ultimately show ?thesis using True by auto
  qed
qed

section \<open>The blocks of a file\<close>

text \<open>
  The number of block \<open>bn\<close> of a file, 0 if it has none, when the blocks of the disk are \<open>V\<close>. Blocks
  that are not for files are the boot block, the super block, the inodes and the bitmap.
\<close>

definition file_block :: "(u32 \<Rightarrow> bytes) \<Rightarrow> inode \<Rightarrow> nat \<Rightarrow> u32" where
  "file_block V x bn =
     (if bn < NDIRECT then i_addrs x ! bn
      else if i_addrs x ! NDIRECT = 0 then 0
      else get32 (V (i_addrs x ! NDIRECT)) (4 * (bn - NDIRECT)))"

definition meta :: "'z fsst_scheme \<Rightarrow> u32 \<Rightarrow> bool" where
  "meta s n \<longleftrightarrow> n = 0 \<or> n = 1 \<or> (\<exists>b < unat (sb_size (sb s)). n = BBLOCK b (sb s)) \<or> (\<exists>i. i < sb_ninodes (sb s) \<and> n = IBLOCK i (sb s))"

definition fs_geom :: "'z fsst_scheme \<Rightarrow> bool" where
  "fs_geom s \<longleftrightarrow> bitmap_ok s \<and> (\<forall>n. meta s n \<longrightarrow> unat n < unat (sb_size (sb s)) \<and> used s (unat n))"

definition data_block :: "'z fsst_scheme \<Rightarrow> u32 \<Rightarrow> bool" where
  "data_block s n \<longleftrightarrow> unat n < unat (sb_size (sb s)) \<and> used s (unat n) \<and> \<not> meta s n"

definition inode_ok :: "'z fsst_scheme \<Rightarrow> inode \<Rightarrow> bool" where
  "inode_ok s x \<longleftrightarrow> i_dev x = 1 \<and> i_inum x < sb_ninodes (sb s) \<and> length (i_addrs x) = Suc NDIRECT \<and>
     (i_addrs x ! NDIRECT \<noteq> 0 \<longrightarrow> data_block s (i_addrs x ! NDIRECT)) \<and>
     (\<forall>bn < MAXFILE. file_block (bview s) x bn \<noteq> 0 \<longrightarrow>
        data_block s (file_block (bview s) x bn) \<and> file_block (bview s) x bn \<noteq> i_addrs x ! NDIRECT \<and>
        (\<forall>j < MAXFILE. file_block (bview s) x j = file_block (bview s) x bn \<longrightarrow> j = bn))"

lemma abs_icache [simp]:
  "bview (s\<lparr>icache := c\<rparr>) = bview s" "handle (s\<lparr>icache := c\<rparr>) = handle s" "dirties (s\<lparr>icache := c\<rparr>) = dirties s"
  "bc_ready (s\<lparr>icache := c\<rparr>) = bc_ready s" "fs_ok (s\<lparr>icache := c\<rparr>) = fs_ok s" "log_blocks (s\<lparr>icache := c\<rparr>) = log_blocks s"
  "cap M k (s\<lparr>icache := c\<rparr>) = cap M k s" "used (s\<lparr>icache := c\<rparr>) = used s" "meta (s\<lparr>icache := c\<rparr>) = meta s"
  "fs_geom (s\<lparr>icache := c\<rparr>) = fs_geom s" "data_block (s\<lparr>icache := c\<rparr>) = data_block s"
  "inode_ok (s\<lparr>icache := c\<rparr>) = inode_ok s" "handles_used (s\<lparr>icache := c\<rparr>) = handles_used s"
proof -
  show v: "bview (s\<lparr>icache := c\<rparr>) = bview s" "handle (s\<lparr>icache := c\<rparr>) = handle s" "dirties (s\<lparr>icache := c\<rparr>) = dirties s"
    "log_blocks (s\<lparr>icache := c\<rparr>) = log_blocks s"
    by (simp_all add: bview_def handle_def dirties_def fun_eq_iff log_blocks_def split: option.split)
  show r: "bc_ready (s\<lparr>icache := c\<rparr>) = bc_ready s" by (simp add: bc_ready_def bc_inv_def)
  show "fs_ok (s\<lparr>icache := c\<rparr>) = fs_ok s" "cap M k (s\<lparr>icache := c\<rparr>) = cap M k s" by (simp_all add: fs_ok_def cap_def v r log_ok_def)
  show u: "used (s\<lparr>icache := c\<rparr>) = used s" "meta (s\<lparr>icache := c\<rparr>) = meta s" by (simp_all add: used_def meta_def v fun_eq_iff)
  show d: "data_block (s\<lparr>icache := c\<rparr>) = data_block s" by (simp add: data_block_def u fun_eq_iff)
  show "fs_geom (s\<lparr>icache := c\<rparr>) = fs_geom s" by (simp add: fs_geom_def bitmap_ok_def u)
  show "inode_ok (s\<lparr>icache := c\<rparr>) = inode_ok s" by (simp add: inode_ok_def d v fun_eq_iff)
  show "handles_used (s\<lparr>icache := c\<rparr>) = handles_used s" by (simp add: handles_used_def u v)
qed

lemma fstep_icache:
  fixes s t :: "'z fsst_scheme"
  assumes "fstep s t V H ns"
  shows "fstep (s\<lparr>icache := c\<rparr>) (t\<lparr>icache := c\<rparr>) V H ns"
proof -
  have e: "t = s\<lparr>ptable := ptable t, bufs := bufs t, disk := disk t, dtrace := dtrace t, lh_n := lh_n t, lh_block := lh_block t\<rparr>"
    "woken (ptable s) (ptable t)"
    using fstepD(2) [OF assms] unfolding lframe_def by blast+
  have "t\<lparr>icache := c\<rparr> = s\<lparr>icache := c, ptable := ptable t, bufs := bufs t, disk := disk t, dtrace := dtrace t, lh_n := lh_n t, lh_block := lh_block t\<rparr>"
    by (subst e(1)) simp
  then have "lframe (s\<lparr>icache := c\<rparr>) (t\<lparr>icache := c\<rparr>)" using e(2) by (simp add: lframe_def)
  then show ?thesis using assms by (simp add: fstep_def)
qed

text \<open>A step that also changes the inode \<open>ip\<close> to \<open>x\<close>.\<close>

definition istep :: "nat \<Rightarrow> 'z fsst_scheme \<Rightarrow> 'z fsst_scheme \<Rightarrow> inode \<Rightarrow> (u32 \<Rightarrow> bytes) \<Rightarrow> u32 list \<Rightarrow> bool" where
  "istep ip s t x V ns \<longleftrightarrow> fstep (s\<lparr>icache := (icache s)[ip := x]\<rparr>) t V (handle s) ns"

lemma istep_trans:
  assumes "istep ip s t x V ns" and "istep ip t u y W ms"
  shows "istep ip s u y W (ns @ ms)"
proof -
  note T = fstepD [OF assms(1) [unfolded istep_def]] and I = lframe_fs(1) [OF fstepD(2) [OF assms(1) [unfolded istep_def]]]
  have c: "(icache t)[ip := y] = (icache s)[ip := y]" by (simp add: I)
  have "fstep (s\<lparr>icache := (icache s)[ip := y]\<rparr>) (t\<lparr>icache := (icache s)[ip := y]\<rparr>) V (handle s) ns"
    using fstep_icache [OF assms(1) [unfolded istep_def], of "(icache s)[ip := y]"] by simp
  from fstep_trans [OF this] show ?thesis using assms(2) T(4) by (simp add: istep_def c)
qed

lemma istepD:
  assumes "istep ip s t x V ns" and "ip < length (icache s)"
  shows "fs_ok t" "bview t = V" "handle t = handle s" "disk t = disk s" "icache t = (icache s)[ip := x]" "icache t ! ip = x"
    "sb t = sb s" "bitmap_ok t = bitmap_ok s"
  using fstepD [OF assms(1) [unfolded istep_def]] lframe_fs [OF fstepD(2) [OF assms(1) [unfolded istep_def]]] assms(2)
  by (simp_all add: bitmap_ok_def)

lemma fstep_istep: "fstep s t V (handle s) ns \<Longrightarrow> istep ip s t (icache s ! ip) V ns"
  by (simp add: istep_def)

section \<open>Reading a file\<close>

lemma data_block_disk: "fs_geom s \<Longrightarrow> data_block s n \<Longrightarrow> unat n < length (disk s)"
  by (auto simp: fs_geom_def bitmap_ok_def data_block_def)

lemma igets_run: "ip < length (icache s) \<Longrightarrow> igets ip f s = Done (f (icache s ! ip)) s"
  by (simp add: igets_def)

lemma bmap_mapped:
  fixes s :: "'z fsst_scheme"
  assumes ok: "fs_ok s" "fs_geom s" "handle s = Map.empty" "room 1 s" and ip: "ip < length (icache s)"
    and x: "icache s ! ip = x" "inode_ok s x" and bn: "bn < MAXFILE" "file_block (bview s) x bn \<noteq> 0"
  shows "\<exists>t. bmap ip bn s = Done (file_block (bview s) x bn) t \<and> fstep s t (bview s) (handle s) []"
proof (cases "bn < NDIRECT")
  case True
  then have "bmap ip bn s = Done (file_block (bview s) x bn) s"
    using bn(2) ip x(1) by (simp add: bmap_def bd_run igets_run file_block_def)
  then show ?thesis using fstep_refl [OF ok(1)] by blast
next
  case False
  let ?n = "i_addrs x ! NDIRECT"
  have n: "?n \<noteq> 0" "get32 (bview s ?n) (4 * (bn - NDIRECT)) = file_block (bview s) x bn"
    using False bn(2) by (auto simp: file_block_def split: if_splits)
  then have "unat ?n < length (disk s)" using data_block_disk [OF ok(2)] x(2) by (simp add: inode_ok_def)
  then obtain b t u where "bread 1 ?n s = Done b t" "bpeek b t = Done (bview s ?n) t" "brelse b t = Done () u"
    "fstep s u (bview s) (handle s) []"
    using fs_read [OF ok(1), of ?n] ok(3) room_mono [OF ok(4)] by auto
  moreover have "bn - NDIRECT < NINDIRECT" using False bn(1) by (simp add: MAXFILE_def)
  moreover have "i_dev x = 1" using x(2) by (simp add: inode_ok_def)
  ultimately have "bmap ip bn s = Done (file_block (bview s) x bn) u"
    using False n bn(2) ip x(1) by (simp add: bmap_def bd_run igets_run)
  then show ?thesis using \<open>fstep s u (bview s) (handle s) []\<close> by blast
qed

text \<open>Byte \<open>i\<close> of a file.\<close>

definition fbyte :: "(u32 \<Rightarrow> bytes) \<Rightarrow> inode \<Rightarrow> nat \<Rightarrow> u8" where
  "fbyte V x i = V (file_block V x (i div BSIZE)) ! (i mod BSIZE)"

lemma BSIZE_pos [simp]: "0 < BSIZE" "BSIZE \<noteq> 0"
  by (simp_all add: BSIZE_def)

lemma in_block:
  assumes "i < BSIZE - a mod BSIZE"
  shows "(a + i) div BSIZE = a div BSIZE" "(a + i) mod BSIZE = a mod BSIZE + i"
proof -
  define q r where "q = a div BSIZE" and "r = a mod BSIZE"
  have a: "a = BSIZE * q + r" by (simp add: q_def r_def)
  have l: "r + i < BSIZE" using assms by (simp add: r_def)
  have "(BSIZE * q + (r + i)) div BSIZE = q" "(BSIZE * q + (r + i)) mod BSIZE = r + i" using l by simp_all
  then show "(a + i) div BSIZE = a div BSIZE" "(a + i) mod BSIZE = a mod BSIZE + i"
    unfolding q_def [symmetric] r_def [symmetric] by (simp_all only: a add.assoc)
qed

lemma file_slice:
  assumes "m \<le> BSIZE - a mod BSIZE" and "length (V (file_block V x (a div BSIZE))) = BSIZE"
  shows "slice (V (file_block V x (a div BSIZE))) (a mod BSIZE) m = map (fbyte V x) [a..<a + m]"
proof (rule nth_equalityI)
  have "a mod BSIZE < BSIZE" by simp
  then show "length (slice (V (file_block V x (a div BSIZE))) (a mod BSIZE) m) = length (map (fbyte V x) [a..<a + m])"
    using assms by (simp add: slice_def)
  fix i assume "i < length (slice (V (file_block V x (a div BSIZE))) (a mod BSIZE) m)"
  then have "i < m" by (simp add: slice_def)
  then show "slice (V (file_block V x (a div BSIZE))) (a mod BSIZE) m ! i = map (fbyte V x) [a..<a + m] ! i"
    using assms in_block [of i a] by (simp add: slice_def fbyte_def)
qed

lemma readi_loop_run:
  fixes s :: "'z fsst_scheme"
  assumes "fs_ok s" "fs_geom s" "handle s = Map.empty" "room 1 s" and "ip < length (icache s)"
    and "icache s ! ip = x" "inode_ok s x" and "unat off + n \<le> MAXFILE * BSIZE"
    and "\<And>i. unat off \<le> i \<Longrightarrow> i < unat off + n \<Longrightarrow> file_block (bview s) x (i div BSIZE) \<noteq> 0"
  shows "\<exists>t. readi_loop ip off n acc s = Done (acc @ map (fbyte (bview s) x) [unat off..<unat off + n]) t \<and>
    fstep s t (bview s) (handle s) []"
  using assms
proof (induction n arbitrary: s off acc rule: less_induct)
  case (less n)
  show ?case
  proof (cases "n = 0")
    case True
    then have "readi_loop ip off n acc s = Done acc s" by (simp add: readi_loop.simps)
    then show ?thesis using True fstep_refl [OF less.prems(1)] by auto
  next
    case False
    let ?a = "unat off"
    let ?V = "bview s"
    let ?n = "file_block ?V x (?a div BSIZE)"
    let ?m = "min n (BSIZE - ?a mod BSIZE)"
    have bn: "?a div BSIZE < MAXFILE" "?n \<noteq> 0"
      using less.prems(8,9) False by (auto intro: less_mult_imp_div_less)
    obtain s1 where s1: "bmap ip (?a div BSIZE) s = Done ?n s1" "fstep s s1 ?V (handle s) []"
      using bmap_mapped [OF less.prems(1-7) bn] by blast
    note S = fstepD [OF s1(2)] lframe_fs [OF fstepD(2) [OF s1(2)]]
    have "data_block s ?n" using less.prems(7) bn by (simp add: inode_ok_def)
    then have nd: "unat ?n < length (disk s)" by (rule data_block_disk [OF less.prems(2)])
    then obtain b t u where u: "bread 1 ?n s1 = Done b t" "bpeek b t = Done (?V ?n) t" "brelse b t = Done () u"
      "fstep s1 u ?V (handle s) []"
      using fs_read [OF S(1), of ?n] room_step [OF _ s1(2), of 0] room_mono [OF less.prems(4)] S less.prems(3) by auto
    have su: "fstep s u ?V (handle s) []" using fstep_trans [OF s1(2) u(4)] by simp
    note U = fstepD [OF su] lframe_fs [OF fstepD(2) [OF su]]
    have m: "0 < ?m" "?m \<le> n" using False by auto
    have o: "unat (off + of_nat ?m) = ?a + ?m"
      using less.prems(8) m(2) by (intro unat_add_small) (simp add: MAXFILE_def NDIRECT_def NINDIRECT_def BSIZE_def)
    have geo: "fs_geom u = fs_geom s" "inode_ok u x = inode_ok s x"
    proof -
      have "used u = used s" by (rule ext) (simp add: used_def U)
      moreover have "meta u = meta s" by (rule ext) (simp add: meta_def U)
      moreover have "data_block u = data_block s" by (rule ext) (simp add: data_block_def U calculation)
      ultimately show "fs_geom u = fs_geom s" "inode_ok u x = inode_ok s x" by (simp_all add: fs_geom_def bitmap_ok_def inode_ok_def U)
    qed
    obtain t' where t': "readi_loop ip (off + of_nat ?m) (n - ?m) (acc @ slice (?V ?n) (?a mod BSIZE) ?m) u =
        Done ((acc @ slice (?V ?n) (?a mod BSIZE) ?m) @ map (fbyte ?V x) [?a + ?m..<?a + ?m + (n - ?m)]) t'"
      "fstep u t' ?V (handle u) []"
      using less.IH [of "n - ?m" u "off + of_nat ?m" "acc @ slice (?V ?n) (?a mod BSIZE) ?m"] less.prems m o geo U
        room_step [OF _ su, of 1] by auto
    have "readi_loop ip off n acc s = readi_loop ip (off + of_nat ?m) (n - ?m) (acc @ slice (?V ?n) (?a mod BSIZE) ?m) u"
    proof -
      have "i_dev x = 1" "ip < length (icache s1)" "icache s1 ! ip = x" using less.prems(5-7) S by (auto simp: inode_ok_def)
      then show ?thesis using False s1(1) u(1-3) by (subst readi_loop.simps) (simp add: bd_run igets_run Let_def)
    qed
    moreover have "length (?V ?n) = BSIZE" using bc.view_length [of s ?n] less.prems(1) nd by (auto simp: fs_ok_def)
    then have "slice (?V ?n) (?a mod BSIZE) ?m = map (fbyte ?V x) [?a..<?a + ?m]" by (intro file_slice) simp_all
    moreover have "map (fbyte ?V x) [?a..<?a + ?m] @ map (fbyte ?V x) [?a + ?m..<?a + ?m + (n - ?m)] = map (fbyte ?V x) [?a..<?a + n]"
      using m(2) upt_add_eq_append [of ?a "?a + ?m" "n - ?m"] by (simp flip: map_append)
    ultimately show ?thesis using t' fstep_trans [OF su t'(2)] U(4) by (intro exI [of _ t']) simp
  qed
qed

end
