(* ===== verification/Contents.thy ===== *)
theory Contents
  imports Files
begin

text \<open>
  The properties of the file system that \<open>Files\<close> prepares: allocating and freeing blocks, and reading a
  file.
\<close>

section \<open>A small file system\<close>

text \<open>
  Twenty blocks: boot block, super block, twelve blocks for the log, inodes, bitmap, one data block and
  three free blocks. Inode 1 is a file of five bytes. The state is that inside a system call; the
  buffers are as they are before \<^verbatim>\<open>binit\<close>.
\<close>

definition small_sb :: superblock where
  "small_sb = \<lparr>sb_size = 20, sb_nblocks = 4, sb_ninodes = 8, sb_nlog = 12, sb_logstart = 2, sb_inodestart = 14, sb_bmapstart = 15\<rparr>"

definition small_super :: bytes where
  "small_super = put32 (put32 (put32 (put32 (put32 (put32 (put32 (replicate BSIZE 0) 0 20) 4 4) 8 8) 12 12) 16 2) 20 14) 24 15"

definition small_bitmap :: bytes where
  "small_bitmap = (replicate BSIZE 0)[0 := 0xFF, 1 := 0xFF, 2 := 0x01]"

definition small_disk :: "bytes list" where
  "small_disk = [replicate BSIZE 0, small_super] @ replicate 12 (replicate BSIZE 0) @ [replicate BSIZE 0, small_bitmap,
     blit (replicate BSIZE 0) 0 (ascii ''hello''), replicate BSIZE 9, replicate BSIZE 9, replicate BSIZE 9]"

definition hello_file :: inode where
  "hello_file = \<lparr>i_dev = 1, i_inum = 1, i_ref = 1, i_busy = True, i_valid = True, i_type = T_FILE, i_major = 0, i_minor = 0,
     i_nlink = 1, i_size = 5, i_addrs = (replicate (Suc NDIRECT) 0)[0 := 16]\<rparr>"

definition small_fs :: fsst where
  "small_fs = boot_fs\<lparr>bufs := replicate (Suc NBUF) zero_buf, disk := small_disk, log_outstanding := 1, log_size := 12,
     lh_block := replicate LOGSIZE 0, sb := small_sb, icache := (icache boot_fs)[0 := hello_file]\<rparr>"

lemma small_disk_nth:
  "length small_disk = 20" "small_disk ! 1 = small_super" "small_disk ! 15 = small_bitmap"
  "small_disk ! 16 = blit (replicate BSIZE 0) 0 (ascii ''hello'')" "\<forall>x \<in> set small_disk. length x = BSIZE"
  by (simp_all add: small_disk_def nth_append small_super_def small_bitmap_def ascii_def BSIZE_def)

lemma small_super_sb: "sb_of small_super = small_sb"
  by (simp add: small_super_def small_sb_def sb_of_def get32_put32_other BSIZE_def)

lemma small_bits: "j < 20 \<Longrightarrow> bm_used small_bitmap j \<longleftrightarrow> j < 17"
proof -
  assume "j < 20"
  then have "j \<in> set [0..<20]" by simp
  moreover have "\<forall>j \<in> set [0..<20]. bm_used small_bitmap j \<longleftrightarrow> j < 17"
    by (simp add: bm_used_def small_bitmap_def BSIZE_def upt_rec bit_numeral_rec)
  ultimately show ?thesis by blast
qed

lemma small_fs_fields:
  "zero_bufs small_fs" "disk small_fs = small_disk" "held small_fs = {}" "log_outstanding small_fs = 1" "log_size small_fs = 12"
  "lh_n small_fs = 0" "lh_block small_fs = replicate LOGSIZE 0" "sb small_fs = small_sb" "0 < length (icache small_fs)"
  "icache small_fs ! 0 = hello_file"
  by (simp_all add: small_fs_def boot_fs_def consst.defs fsst.defs boot_console_def zero_bufs_def zero_buf_def NINODE_def
    del: replicate_Suc)

lemma small_blocks:
  "b < 20 \<Longrightarrow> BBLOCK b small_sb = 15" "i < 8 \<Longrightarrow> IBLOCK i small_sb = 14"
  by (simp_all add: BBLOCK_def IBLOCK_def small_sb_def BPB_def IPB_def BSIZE_def word_less_nat_alt)

lemma small_file_block:
  "file_block V hello_file j = (if j = 0 then 16 else 0)" if "j < MAXFILE"
  using that by (auto simp: file_block_def hello_file_def nth_list_update NDIRECT_def simp del: replicate_Suc)

lemma small_booted:
  "\<exists>s. binit small_fs = Done () s \<and> fs_ok s \<and> fs_geom s \<and> handle s = Map.empty \<and> log_blocks s = [] \<and> log_size s = 12 \<and>
     bview s = (\<lambda>n. small_disk ! unat n) \<and> disk s = small_disk \<and> sb s = small_sb \<and>
     0 < length (icache s) \<and> icache s ! 0 = hello_file \<and> inode_ok s hello_file"
proof -
  obtain s where s: "binit small_fs = Done () s"
    "bc_to small_fs s (\<lambda>n. disk small_fs ! unat n) Map.empty {} (disk small_fs) (dtrace small_fs)"
    using binit_spec [OF small_fs_fields(1)] small_disk_nth(5) by (auto simp: small_fs_fields)
  note S = bc_toD [OF s(2)]
  note f = lframe_fields [OF cframe_lframe [OF S(2)]] lframe_fs [OF cframe_lframe [OF S(2)]] cframe_log [OF S(2)]
  have lb: "log_blocks s = []" by (simp add: log_blocks_def f small_fs_fields)
  have ok: "fs_ok s" using S lb by (simp add: fs_ok_def bc_ready_def log_ok_def f small_fs_fields LOGSIZE_def)
  have sb: "sb s = small_sb" by (simp add: f small_fs_fields)
  have v: "bview s = (\<lambda>n. small_disk ! unat n)" using S by (simp add: small_fs_fields)
  have z: "unat (sb_size small_sb) = 20" "sb_ninodes small_sb = 8" "unat (sb_bmapstart small_sb) = 15" by (simp_all add: small_sb_def)
  have used: "used s j \<longleftrightarrow> j < 17" if "j < 20" for j
    using that small_bits by (simp add: used_def sb v small_blocks small_disk_nth BPB_def BSIZE_def)
  have meta: "meta s n \<longleftrightarrow> n \<in> {0, 1, 14, 15}" for n
  proof -
    have "(\<exists>b < 20. n = BBLOCK b small_sb) \<longleftrightarrow> n = 15" using small_blocks(1) by (metis zero_less_numeral)
    moreover have "(0 :: u32) < 8" by simp
    then have "(\<exists>i < 8. n = IBLOCK i small_sb) \<longleftrightarrow> n = 14" using small_blocks(2) by metis
    ultimately show ?thesis by (auto simp: meta_def sb z)
  qed
  have geom: "fs_geom s"
    using S(6) used meta by (auto simp: fs_geom_def bitmap_ok_def sb z small_fs_fields small_disk_nth BPB_def BSIZE_def)
  have "data_block s 16" using used [of 16] meta by (simp add: data_block_def sb z)
  then have "inode_ok s hello_file"
    unfolding inode_ok_def by (auto simp: small_file_block sb z) (auto simp: hello_file_def nth_list_update NDIRECT_def simp del: replicate_Suc)
  moreover have "0 < length (icache s)" using small_fs_fields(9) by (simp add: f)
  ultimately show ?thesis using s(1) ok geom lb v sb S f by (intro exI [of _ s]) (auto simp: small_fs_fields)
qed

section \<open>Allocation\<close>

definition bitmap_blocks :: "'z fsst_scheme \<Rightarrow> u32 set" where
  "bitmap_blocks s = (\<lambda>b. BBLOCK b (sb s)) ` {..<unat (sb_size (sb s))}"

lemma balloc_loop_full:
  fixes s :: "'z fsst_scheme"
  assumes "fs_ok s" and "bitmap_ok s" and "handles_used s" and "room 1 s" and "BPB dvd k"
    and "\<forall>b < unat (sb_size (sb s)). used s b"
  shows "balloc_loop 1 (sb s) k s = Panicked ''balloc: out of blocks''"
  using assms
proof (induction "unat (sb_size (sb s)) - k" arbitrary: s k rule: less_induct)
  case less
  let ?z = "unat (sb_size (sb s))"
  let ?B = "BBLOCK k (sb s)"
  show ?case
  proof (cases "k < ?z")
    case False
    then show ?thesis by (subst balloc_loop.simps) (simp add: panic_def)
  next
    case True
    have B: "unat ?B < length (disk s)" "?B \<notin> ran (handle s)"
      using unat_BBLOCK(2) [OF less.prems(2) True] less.prems(2,3) True by (auto simp: bitmap_ok_def handles_used_def)
    obtain b t u where u: "bread 1 ?B s = Done b t" "bpeek b t = Done (bview s ?B) t" "brelse b t = Done () u" "fstep s u (bview s) (handle s) []"
      using fs_read [OF less.prems(1) B room_mono [OF less.prems(4)]] by auto
    note U = fstepD [OF u(4)] bitmap_step [OF u(4)]
    have "bm_used (bview s ?B) i" if "i < BPB" "k + i < ?z" for i
    proof -
      have "BBLOCK (k + i) (sb s) = ?B \<and> (k + i) mod BPB = i"
        using that less.prems(5) by (auto simp: BBLOCK_def elim!: dvdE)
      moreover have "used s (k + i)" using less.prems(6) that(2) by blast
      ultimately show ?thesis by (simp add: used_def)
    qed
    then have "find (\<lambda>i. \<not> bm_used (bview s ?B) i) [0..<min BPB (?z - k)] = None" by (auto simp: find_None_iff)
    then have "balloc_loop 1 (sb s) k s = balloc_loop 1 (sb u) (k + BPB) u"
      using True u(1-3) U(7) by (subst balloc_loop.simps) (simp add: bd_run)
    also have "\<dots> = Panicked ''balloc: out of blocks''"
    proof (rule less.hyps)
      have us: "used u = used s" by (rule ext) (simp add: used_def U)
      show "unat (sb_size (sb u)) - (k + BPB) < ?z - k" using True BPB_pos(1) U(7) by simp
      show "handles_used u" using less.prems(3) by (simp add: handles_used_def us U)
      show "room 1 u" using room_step [OF _ u(4), of 1] less.prems(4) by simp
      show "\<forall>b < unat (sb_size (sb u)). used u b" using less.prems(6) us U(7) by simp
    qed (use U less.prems(2,5) in simp_all)
    finally show ?thesis .
  qed
qed

text \<open>
  C8: \<^verbatim>\<open>balloc\<close> returns a block that the bitmap marks as free, marks exactly it as used and clears it; no other
  block changes but the part of the bitmap with its bit, both blocks are put into the transaction, and
  nothing is written to the disk yet. If no block is free it stops with the message that says so.
\<close>

theorem balloc_takes_free_block:
  fixes s :: "'z fsst_scheme"
  assumes "fs_ok s" and "bitmap_ok s" and "bitmap_used s" and "handles_used s" and "card (dom (handle s)) \<le> 1"
    and "cap (bitmap_blocks s) 1 s"
  shows "if \<forall>b < unat (sb_size (sb s)). used s b then balloc 1 s = Panicked ''balloc: out of blocks''
    else \<exists>b t. balloc 1 s = Done b t \<and> unat b < unat (sb_size (sb s)) \<and> \<not> used s (unat b) \<and>
      (\<forall>j < unat (sb_size (sb s)). used t j \<longleftrightarrow> j = unat b \<or> used s j) \<and> bview t b = replicate BSIZE 0 \<and>
      (\<forall>n. n \<noteq> b \<longrightarrow> n \<noteq> BBLOCK (unat b) (sb s) \<longrightarrow> bview t n = bview s n) \<and>
      log_blocks t = absorbed (absorbed (log_blocks s) (BBLOCK (unat b) (sb s))) b \<and> disk t = disk s"
proof (cases "\<forall>b < unat (sb_size (sb s)). used s b")
  case True
  then have "balloc 1 s = Panicked ''balloc: out of blocks''"
    using balloc_loop_full [OF assms(1,2,4) cap_room [OF assms(6,1,5)], of 0] by (simp add: balloc_def bd_run)
  with True show ?thesis by simp
next
  case False
  have "\<forall>b < unat (sb_size (sb s)). BBLOCK b (sb s) \<in> bitmap_blocks s" by (simp add: bitmap_blocks_def)
  then obtain b t V where t: "balloc 1 s = Done b t" "unat b < unat (sb_size (sb s))" "\<not> used s (unat b)"
    "\<forall>j. used t j = (j = unat b \<or> used s j) \<or> unat (sb_size (sb s)) \<le> j"
    and V: "fstep s t V (handle s) [BBLOCK (unat b) (sb s), b]" "V b = replicate BSIZE 0"
      "\<forall>n. n \<noteq> b \<longrightarrow> n \<noteq> BBLOCK (unat b) (sb s) \<longrightarrow> V n = bview s n"
    using balloc_run [OF assms(1-4,6)] False assms(5) by blast
  have "used t j \<longleftrightarrow> j = unat b \<or> used s j" if "j < unat (sb_size (sb s))" for j using spec [OF t(4), of j] that by auto
  then show ?thesis using False t(1-3) V fstepD [OF V(1)] by (auto intro!: exI [of _ b] exI [of _ t])
qed

theorem balloc_takes_free_block_witness:
  "\<exists>(s :: fsst) b t. binit small_fs = Done () s \<and> balloc 1 s = Done b t \<and> 17 \<le> unat b \<and> bview t b = replicate BSIZE 0"
proof -
  obtain s where s: "binit small_fs = Done () s" "fs_ok s" "fs_geom s" "handle s = Map.empty" "log_blocks s = []" "log_size s = 12"
    "bview s = (\<lambda>n. small_disk ! unat n)" "sb s = small_sb"
    using small_booted by blast
  have z: "unat (sb_size small_sb) = 20" by (simp add: small_sb_def)
  have u: "used s j \<longleftrightarrow> j < 17" if "j < 20" for j
    using that small_bits by (simp add: used_def s(7,8) small_blocks small_disk_nth BPB_def BSIZE_def)
  have b: "bitmap_ok s" "bitmap_used s" using s(3) by (auto simp: fs_geom_def bitmap_used_def meta_def)
  have "bitmap_blocks s = (\<lambda>b. 15) ` {..<(20 :: nat)}"
    unfolding bitmap_blocks_def s(8) z by (rule image_cong) (simp_all add: small_blocks)
  then have "bitmap_blocks s = {15}" by (simp add: image_constant_conv lessThan_empty_iff)
  then have "cap (bitmap_blocks s) 1 s" by (simp add: cap_def s(5,6) LOGSIZE_def MAXOPBLOCKS_def)
  moreover have "handles_used s" by (simp add: handles_used_def s(4))
  moreover have full: "\<not> (\<forall>b < unat (sb_size (sb s)). used s b)" using u [of 17] by (auto simp: s(8) z intro!: exI [of _ 17])
  moreover have "card (dom (handle s)) \<le> 1" by (simp add: s(4))
  ultimately obtain b t where "balloc 1 s = Done b t" "unat b < unat (sb_size (sb s))" "\<not> used s (unat b)" "bview t b = replicate BSIZE 0"
    using balloc_takes_free_block [OF s(2) b, unfolded if_not_P [OF full]] by blast
  then show ?thesis using s(1) u [of "unat b"] by (intro exI [of _ s] exI [of _ b] exI [of _ t]) (simp add: s(8) z)
qed

text \<open>
  C9: \<^verbatim>\<open>bfree\<close> of a block in use marks exactly that block as free and changes no block but the part of the
  bitmap with its bit, which is put into the transaction; freeing a free block stops the machine.
\<close>

theorem bfree_frees_block:
  fixes s :: "'z fsst_scheme"
  assumes "fs_ok s" and "bitmap_ok s" and "bitmap_used s" and "room 1 s"
    and "\<forall>n \<in> bitmap_blocks s. n \<notin> ran (handle s)" and "sb_of (bview s 1) = sb s" and "1 < length (disk s)" and "1 \<notin> ran (handle s)"
    and "unat b < unat (sb_size (sb s))"
  shows "if used s (unat b)
    then \<exists>t. bfree 1 b s = Done () t \<and> (\<forall>j < unat (sb_size (sb s)). used t j \<longleftrightarrow> j \<noteq> unat b \<and> used s j) \<and>
      (\<forall>n. n \<noteq> BBLOCK (unat b) (sb s) \<longrightarrow> bview t n = bview s n) \<and>
      log_blocks t = absorbed (log_blocks s) (BBLOCK (unat b) (sb s)) \<and> disk t = disk s
    else bfree 1 b s = Panicked ''freeing free block''"
proof -
  have "\<forall>c < unat (sb_size (sb s)). BBLOCK c (sb s) \<notin> ran (handle s)" using assms(5) by (simp add: bitmap_blocks_def)
  note R = bfree_run [OF assms(1-4) this assms(6-9)]
  show ?thesis
  proof (cases "used s (unat b)")
    case True
    then obtain t V where t: "bfree 1 b s = Done () t" "\<forall>j. used t j = (j \<noteq> unat b \<and> used s j) \<or> unat (sb_size (sb s)) \<le> j"
      and V: "fstep s t V (handle s) [BBLOCK (unat b) (sb s)]" "\<forall>n. n \<noteq> BBLOCK (unat b) (sb s) \<longrightarrow> V n = bview s n"
      using R by auto
    have "used t j \<longleftrightarrow> j \<noteq> unat b \<and> used s j" if "j < unat (sb_size (sb s))" for j using spec [OF t(2), of j] that by auto
    then show ?thesis using True t(1) V fstepD [OF V(1)] by auto
  next
    case False
    then show ?thesis using R by simp
  qed
qed

theorem bfree_frees_block_witness:
  "\<exists>(s :: fsst) t. binit small_fs = Done () s \<and> bfree 1 16 s = Done () t \<and> \<not> used t 16 \<and> bfree 1 17 s = Panicked ''freeing free block''"
proof -
  obtain s where s: "binit small_fs = Done () s" "fs_ok s" "fs_geom s" "handle s = Map.empty" "log_blocks s = []" "log_size s = 12"
    "bview s = (\<lambda>n. small_disk ! unat n)" "disk s = small_disk" "sb s = small_sb"
    using small_booted by blast
  have z: "unat (sb_size small_sb) = 20" by (simp add: small_sb_def)
  have u: "used s j \<longleftrightarrow> j < 17" if "j < 20" for j
    using that small_bits by (simp add: used_def s(7,9) small_blocks small_disk_nth BPB_def BSIZE_def)
  have b: "bitmap_ok s" "bitmap_used s" using s(3) by (auto simp: fs_geom_def bitmap_used_def meta_def)
  have r: "room 1 s" by (simp add: room_def log_room_def s(4-6) LOGSIZE_def NBUF_def MAXOPBLOCKS_def)
  have "sb_of (bview s 1) = sb s" using small_disk_nth(2) by (simp add: s(7,9) small_super_sb)
  then have F: "if used s (unat b) then \<exists>t. bfree 1 b s = Done () t \<and> (\<forall>j < 20. used t j \<longleftrightarrow> j \<noteq> unat b \<and> used s j)
      else bfree 1 b s = Panicked ''freeing free block''" if "unat b < 20" for b
    using bfree_frees_block [OF s(2) b r, of b] that by (auto simp: s(4,8,9) z small_disk_nth(1) split: if_splits)
  have "used s 16" "\<not> used s 17" using u [of 16] u [of 17] by simp_all
  then obtain t where "bfree 1 16 s = Done () t" "\<not> used t 16" "bfree 1 17 s = Panicked ''freeing free block''"
    using F [of 16] F [of 17] by auto
  with s(1) show ?thesis by blast
qed

section \<open>Reading\<close>

text \<open>The contents of a file, and that all its blocks are there.\<close>

definition contents :: "(u32 \<Rightarrow> bytes) \<Rightarrow> inode \<Rightarrow> bytes" where
  "contents V x = map (fbyte V x) [0..<unat (i_size x)]"

definition complete :: "(u32 \<Rightarrow> bytes) \<Rightarrow> inode \<Rightarrow> bool" where
  "complete V x \<longleftrightarrow> unat (i_size x) \<le> MAXFILE * BSIZE \<and> (\<forall>i < unat (i_size x). file_block V x (i div BSIZE) \<noteq> 0)"

lemma take_drop_upt: "take m (drop k (map f [0..<n])) = map f [k..<k + min m (n - k)]"
  by (rule nth_equalityI) auto

text \<open>
  C7: \<^verbatim>\<open>readi\<close> on a file or directory. A start behind the end or a range that wraps around is an error;
  otherwise the result are the bytes of the file in the range, cut off at the end of the file, through
  direct and indirect blocks alike. No block changes.
\<close>

theorem readi_reads_contents:
  fixes s :: "'z fsst_scheme"
  assumes "fs_ok s" and "fs_geom s" and "handle s = Map.empty" and "room 1 s" and "ip < length (icache s)"
    and "inode_ok s (icache s ! ip)" and "complete (bview s) (icache s ! ip)" and "i_type (icache s ! ip) \<noteq> T_DEV"
  shows "\<exists>t. readi ip off n s = Done (if off > i_size (icache s ! ip) \<or> off + n < off then None
      else Some (take (unat n) (drop (unat off) (contents (bview s) (icache s ! ip))))) t \<and>
    fs_ok t \<and> bview t = bview s \<and> handle t = Map.empty \<and> disk t = disk s \<and> log_blocks t = log_blocks s \<and> icache t = icache s"
proof (cases "off > i_size (icache s ! ip) \<or> off + n < off")
  case True
  then have "readi ip off n s = Done None s"
    using assms(5,8) by (simp add: readi_def bd_run igets_run)
  with True assms(1,3) show ?thesis by auto
next
  case False
  let ?x = "icache s ! ip"
  let ?z = "unat (i_size ?x)"
  define m where "m = (if off + n > i_size ?x then i_size ?x - off else n)"
  have le: "unat off \<le> ?z" using False by (simp add: word_le_nat_alt not_less)
  have sum: "unat (off + n) = unat off + unat n" using False unat_plus_simple [of off n] by (simp add: not_less)
  have m: "unat m = min (unat n) (?z - unat off)"
    using le sum by (auto simp: m_def word_less_nat_alt unat_sub word_le_nat_alt)
  have in_file: "unat off + unat m \<le> ?z" using m le by simp
  obtain t where t: "readi_loop ip off (unat m) [] s = Done (map (fbyte (bview s) ?x) [unat off..<unat off + unat m]) t"
    "fstep s t (bview s) (handle s) []"
    using readi_loop_run [OF assms(1-5) refl assms(6), of off "unat m" "[]"] assms(7) in_file by (auto simp: complete_def)
  have "readi ip off n s = Done (Some (map (fbyte (bview s) ?x) [unat off..<unat off + unat m])) t"
    using assms(5,8) False t(1) by (simp add: readi_def bd_run igets_run Let_def m_def)
  moreover have "take (unat n) (drop (unat off) (contents (bview s) ?x)) = map (fbyte (bview s) ?x) [unat off..<unat off + unat m]"
    unfolding contents_def m by (rule take_drop_upt)
  ultimately show ?thesis using False fstepD [OF t(2)] lframe_fs [OF fstepD(2) [OF t(2)]] assms(3) by auto
qed

theorem readi_reads_contents_witness:
  "\<exists>(s :: fsst) t. binit small_fs = Done () s \<and> readi 0 1 100 s = Done (Some (ascii ''ello'')) t"
proof -
  obtain s where s: "binit small_fs = Done () s" "fs_ok s" "fs_geom s" "handle s = Map.empty" "log_blocks s = []" "log_size s = 12"
    "bview s = (\<lambda>n. small_disk ! unat n)" "0 < length (icache s)" "icache s ! 0 = hello_file" "inode_ok s hello_file"
    using small_booted by blast
  have r: "room 1 s" by (simp add: room_def log_room_def s(4-6) LOGSIZE_def NBUF_def MAXOPBLOCKS_def)
  have f: "i_size hello_file = 5" "i_type hello_file \<noteq> T_DEV" by (simp_all add: hello_file_def T_FILE_def T_DEV_def)
  have m: "0 < MAXFILE" "5 \<le> MAXFILE * BSIZE" by (simp_all add: MAXFILE_def NDIRECT_def BSIZE_def)
  have b: "i div BSIZE = 0" "i mod BSIZE = i" if "i < 5" for i using that by (simp_all add: BSIZE_def)
  have c: "complete (bview s) hello_file" using m b by (simp add: complete_def f small_file_block)
  have "contents (bview s) hello_file = ascii ''hello''"
  proof (rule nth_equalityI)
    fix i assume "i < length (contents (bview s) hello_file)"
    then have "i < 5" by (simp add: contents_def f)
    then show "contents (bview s) hello_file ! i = ascii ''hello'' ! i"
      using small_disk_nth(4) b [of i] m(1) by (simp add: contents_def f fbyte_def small_file_block s(7) nth_blit BSIZE_def ascii_def)
  qed (simp add: contents_def f ascii_def)
  moreover obtain t where "readi 0 1 100 s = Done (Some (take 100 (drop 1 (contents (bview s) hello_file)))) t"
    using readi_reads_contents [OF s(2-4) r s(8), of 1 100] s(9,10) c f by auto
  ultimately show ?thesis using s(1) by (auto simp: ascii_def)
qed

end
