(* ===== verification/Spec2Isabelle.thy ===== *)
theory Spec2Isabelle
  imports Trap Crash Scheduler Paging Uvm Sysargs Lifecycle Filerefs Shtext Grep Ide Contents
begin

text \<open>
  A verification of xv6, the x86 teaching operating system under \<^verbatim>\<open>src/xv6-public\<close>: its kernel, its device
  drivers and a part of its user programs.

  \<^bold>\<open>The program and how it is modelled.\<close> The kernel is a set of C functions that work on global data and
  run on several processors. A kernel operation is a function from the state to an outcome: it
  returns a result and a new state (\<open>Done\<close>), it stops the machine (\<open>Panicked\<close>, with the text of
  \<^verbatim>\<open>panic\<close>), it gives up the processor in \<^verbatim>\<open>sched\<close> (\<open>Switched\<close>), or it does something the C
  language leaves undefined or never returns (\<open>Fault\<close>). Operations are composed with \<open>bd\<close> in the order in
  which the code composes them. An operation that can sleep is cut there: \<open>f\<close> ends with \<open>Switched\<close>, and a
  definition \<open>f_resume\<close> is the rest of the same C function from the point after \<^verbatim>\<open>sched\<close>. The state is a
  record that each component extends by its own globals: \<open>lockst\<close>, \<open>ptst\<close>, \<open>kmst\<close>, \<open>bcst\<close>, \<open>logst\<close>,
  \<open>consst\<close>, \<open>fsst\<close>, \<open>pipest\<close>, \<open>filest\<close>, \<open>vmst\<close>, \<open>procst\<close>, \<open>sysst\<close>, \<open>trapst\<close>, and, beside \<open>fsst\<close>, \<open>hwst\<close>
  and \<open>idest\<close> for the hardware and the disk driver. Pointers into a table are indices, null pointers
  are \<open>None\<close> or address 0; memory is a function from 32-bit addresses to bytes; machine integers keep
  their width wherever they can wrap around, as words or, for \<open>nextpid\<close>, as a number with the wrap-around (\<open>wrap32\<close>)
  written out; the reference counts, which the sizes of the tables bound, and array indices are plain numbers.

  \<^bold>\<open>Theories.\<close>
  \<^item> \<open>Xv6_Prelude\<close>: words, bytes and their encodings, the outcome type, \<open>bd\<close> and its rules, partial
    correctness (\<open>yields\<close>) and return-or-panic (\<open>safely\<close>) rules.
  \<^item> \<open>CString\<close> (\<^verbatim>\<open>string.c\<close>): block and string functions on memory, overlap included.
  \<^item> \<open>Spinlock\<close> (\<^verbatim>\<open>spinlock.c\<close>): \<^verbatim>\<open>acquire\<close> and \<^verbatim>\<open>release\<close> as a step relation over any number of
    processors with mutual exclusion and the interrupt flag as invariants; the set of held locks that the
    other components use refines it.
  \<^item> \<open>Sched\<close>, \<open>Scheduler\<close> (\<^verbatim>\<open>proc.c\<close>): the process table, \<^verbatim>\<open>sleep\<close>, \<^verbatim>\<open>wakeup\<close>, \<^verbatim>\<open>sched\<close>, \<^verbatim>\<open>yield\<close>,
    \<^verbatim>\<open>kill\<close> and a round of \<^verbatim>\<open>scheduler\<close>, which serves every runnable process once.
  \<^item> \<open>Mmu\<close>, \<open>Kalloc\<close> (\<^verbatim>\<open>mmu.h\<close>, \<^verbatim>\<open>kalloc.c\<close>): address arithmetic; the page allocator as a list of pages
    threaded through memory.
  \<^item> \<open>Bio\<close>, \<open>Bcache\<close> (\<^verbatim>\<open>bio.c\<close>, \<^verbatim>\<open>memide.c\<close>): the buffer cache with its pointer ring, and its refinement of an
    array of blocks with handles. The locale \<open>block_cache\<close> is the contract the log and the file
    system use; it is interpreted on the cache.
  \<^item> \<open>Log\<close>, \<open>Crash\<close> (\<^verbatim>\<open>log.c\<close>): the write-ahead log; \<^verbatim>\<open>commit\<close> is atomic across a crash at any disk write and
    across any number of interrupted recoveries.
  \<^item> \<open>Ring\<close>, \<open>Console\<close>, \<open>Kbd\<close> (\<^verbatim>\<open>console.c\<close>, \<^verbatim>\<open>kbd.c\<close>, \<^verbatim>\<open>uart.c\<close>): ring buffers with wrapping counters, the
    display, formatted output against a specification of what a format stands for, line editing and the keyboard.
  \<^item> \<open>Fs\<close> (\<^verbatim>\<open>fs.c\<close>): block allocation, inodes, file contents, directories and paths.
  \<^item> \<open>Files\<close>, \<open>Contents\<close>: what the operations of \<^verbatim>\<open>fs.c\<close> do to the blocks of the disk, on the contracts of the cache and of
    the log: allocation and freeing against the set of blocks in use, and reading against the contents of a file. Writing
    to files, directories and paths have definitions but no property.
  \<^item> \<open>Pipe\<close>, \<open>File\<close>, \<open>Filerefs\<close> (\<^verbatim>\<open>pipe.c\<close>, \<^verbatim>\<open>file.c\<close>): pipes as bounded queues; open files and their reference
    counts.
  \<^item> \<open>Vm\<close>, \<open>Paging\<close>, \<open>Uvm\<close> (\<^verbatim>\<open>vm.c\<close>): page tables in memory; what they translate, the kernel map, and the
    copy of an address space made for a child process.
  \<^item> \<open>Proc\<close>, \<open>Lifecycle\<close> (\<^verbatim>\<open>proc.c\<close>): \<^verbatim>\<open>allocproc\<close>, \<^verbatim>\<open>userinit\<close>, \<^verbatim>\<open>growproc\<close>, \<^verbatim>\<open>fork\<close>, \<^verbatim>\<open>exit\<close>, \<^verbatim>\<open>wait\<close>; process numbers,
    inheritance of children and the hand-shake of \<^verbatim>\<open>exit\<close> and \<^verbatim>\<open>wait\<close>.
  \<^item> \<open>Exec\<close>, \<open>Syscall\<close>, \<open>Sysargs\<close>, \<open>Trap\<close> (\<^verbatim>\<open>exec.c\<close>, \<^verbatim>\<open>syscall.c\<close>, \<^verbatim>\<open>sysproc.c\<close>, \<^verbatim>\<open>sysfile.c\<close>, \<^verbatim>\<open>trap.c\<close>, \<^verbatim>\<open>trapasm.S\<close>,
    \<^verbatim>\<open>vectors.pl\<close>): program loading, the 21 system calls and their argument checks, trap entry and
    return, from user mode and inside the kernel; what the processor itself pushes and pops there is part of the model.
  \<^item> \<open>Devices\<close>, \<open>Ide\<close> (\<^verbatim>\<open>picirq.c\<close>, \<^verbatim>\<open>ioapic.c\<close>, \<^verbatim>\<open>lapic.c\<close>, \<^verbatim>\<open>timer.c\<close>, \<^verbatim>\<open>uart.c\<close>, \<^verbatim>\<open>ide.c\<close>): the drivers, with the machine
    behind the ports and registers as a parameter (record \<open>machine\<close>). \<open>ide_laws\<close> states what the
    disk driver relies on of its controller.
  \<^item> \<open>Ulib\<close>, \<open>Sh\<close>, \<open>Shtext\<close>, \<open>Grep\<close> (\<^verbatim>\<open>ulib.c\<close>, \<^verbatim>\<open>printf.c\<close>, \<^verbatim>\<open>sh.c\<close>, \<^verbatim>\<open>grep.c\<close>): the user library, the parser of the
    shell with the text of its commands, and the pattern matcher.

  \<^bold>\<open>Bounds and termination.\<close> Loops over a table or a count are structural recursion; loops with a computed
  step have a termination proof by a measure. Loops that wait for a device are partial functions in
  the option type, and a property that the code returns says so (the disk driver). Three loops
  follow pointers through a list of buffers and stop after as many steps as there are buffers, which
  is enough for every list without a cycle; the invariants show that there is none. The endless
  loop of \<^verbatim>\<open>scheduler\<close> is modelled by one round of it.

  \<^bold>\<open>Not modelled.\<close> Code that only runs the processor: the boot sector and entry code in assembly
  (\<^verbatim>\<open>bootasm.S\<close>, \<^verbatim>\<open>entry.S\<close>, \<^verbatim>\<open>entryother.S\<close>, \<^verbatim>\<open>initcode.S\<close>, \<^verbatim>\<open>usys.S\<close>), \<^verbatim>\<open>swtch.S\<close>, whose effect is the outcome
  \<open>Switched\<close>, \<^verbatim>\<open>seginit\<close> and \<^verbatim>\<open>idtinit\<close>, which load registers. Start-up code without a decision of its own
  (\<^verbatim>\<open>main.c\<close>), the scan of the BIOS tables (\<^verbatim>\<open>mp.c\<close>) and the boot loader (\<^verbatim>\<open>bootmain.c\<close>). Programs that
  only make system calls (\<^verbatim>\<open>init.c\<close>, \<^verbatim>\<open>ls.c\<close>, \<^verbatim>\<open>ln.c\<close>, \<^verbatim>\<open>rm.c\<close> and their like), the part of \<^verbatim>\<open>sh.c\<close> that runs a parsed
  command, and the test programs (\<^verbatim>\<open>usertests.c\<close>, \<^verbatim>\<open>stressfs.c\<close>, \<^verbatim>\<open>forktest.c\<close>). The tool that builds a disk image
  on the host (\<^verbatim>\<open>mkfs.c\<close>). Memory is sequentially consistent, as the code assumes on x86.
\<close>

end
